(* ===== verification/Ovn_Prelude.thy ===== *)
theory Ovn_Prelude
  imports Main "HOL-Library.Word" "HOL-Library.Multiset" "HOL-Library.Monad_Syntax"
begin

text \<open>
  Shared vocabulary of the development: the machine integer types of the C sources, the
  two functions of the C library that the modelled code relies on (\<open>strcmp\<close> and
  \<open>qsort\<close>), generic lemmas on lists, options and words, and the interfaces
  (locales) that several components use.

  Conventions used throughout: a C pointer that may be NULL is an \<open>option\<close>; a result of
  type \<open>'a option\<close> of a whole operation is \<open>None\<close> exactly where the C code aborts
  (\<open>ovs_assert\<close>, \<open>OVS_NOT_REACHED\<close>), reads or writes outside an array, or where
  the fuel that bounds a recursion is used up; a linked list (\<open>struct ovs_list\<close>) is a HOL
  list, and memory that the C code frees is simply no longer part of the result.
\<close>

unbundle bit_operations_syntax

section \<open>Machine integers\<close>

type_synonym u8 = "8 word"
type_synonym u16 = "16 word"
type_synonym u32 = "32 word"
type_synonym u64 = "64 word"

section \<open>Collections of rewrite rules\<close>

named_theorems bits_simps \<open>bit-level characterisations of the bit-array operations\<close>
named_theorems sem_simps \<open>evaluation of expressions under the tree operations\<close>
named_theorems frame_simps \<open>parts of a state that an operation leaves alone\<close>

section \<open>The C library functions the code uses\<close>

text \<open>
  \<open>strcmp\<close>: the sign of the first difference of the two byte strings.
\<close>

fun strcmp :: "string \<Rightarrow> string \<Rightarrow> int" where
  "strcmp [] [] = 0"
| "strcmp [] (b # bs) = -1"
| "strcmp (a # as) [] = 1"
| "strcmp (a # as) (b # bs) =
     (if a = b then strcmp as bs
      else (of_char a :: int) - of_char b)"

lemma of_char_int_eq_iff [simp]: "(of_char a :: int) = of_char b \<longleftrightarrow> a = b"
  by simp

lemma strcmp_eq_0 [simp]: "strcmp a b = 0 \<longleftrightarrow> a = b"
  by (induction a b rule: strcmp.induct) auto

lemma strcmp_refl [simp]: "strcmp a a = 0"
  by (induction a) auto

lemma strcmp_antisym_sign: "strcmp a b < 0 \<longleftrightarrow> 0 < strcmp b a"
  by (induction a b rule: strcmp.induct) auto

lemma strcmp_total: "strcmp a b \<le> 0 \<or> strcmp b a \<le> 0"
  using strcmp_antisym_sign [of a b] by linarith

lemma strcmp_trans: "strcmp a b \<le> 0 \<Longrightarrow> strcmp b c \<le> 0 \<Longrightarrow> strcmp a c \<le> 0"
proof (induction a c arbitrary: b rule: strcmp.induct)
  case (3 a as)
  then show ?case by (cases b) auto
next
  case (4 a as c cs)
  from "4.prems"(1) obtain d ds where b: "b = d # ds"
    by (cases b) auto
  show ?case
  proof (cases "a = c")
    case True
    show ?thesis
    proof (cases "a = d")
      case True
      with \<open>a = c\<close> b "4.prems" "4.IH" [of ds] show ?thesis by simp
    next
      case False
      with \<open>a = c\<close> b "4.prems" have "(of_char a :: int) = of_char d"
        by simp
      with False show ?thesis by simp
    qed
  next
    case False
    with b "4.prems" show ?thesis
      by (auto split: if_splits)
  qed
qed auto

text \<open>
  \<open>qsort\<close> with a three-way comparator. The C standard leaves the order of elements that
  compare equal open; the model sorts stably, and no theorem of the development depends
  on that choice beyond the facts of the locale \<open>qsort_order\<close> below.
\<close>

fun insert_by :: "('a \<Rightarrow> 'a \<Rightarrow> int) \<Rightarrow> 'a \<Rightarrow> 'a list \<Rightarrow> 'a list" where
  "insert_by cmp x [] = [x]"
| "insert_by cmp x (y # ys) =
     (if cmp x y \<le> 0 then x # y # ys else y # insert_by cmp x ys)"

fun qsort_by :: "('a \<Rightarrow> 'a \<Rightarrow> int) \<Rightarrow> 'a list \<Rightarrow> 'a list" where
  "qsort_by cmp [] = []"
| "qsort_by cmp (x # xs) = insert_by cmp x (qsort_by cmp xs)"

lemma mset_insert_by [simp]: "mset (insert_by cmp x xs) = add_mset x (mset xs)"
  by (induction xs) auto

lemma mset_qsort_by [simp]: "mset (qsort_by cmp xs) = mset xs"
  by (induction xs) auto

lemma set_insert_by [simp]: "set (insert_by cmp x xs) = insert x (set xs)"
  by (induction xs) auto

lemma set_qsort_by [simp]: "set (qsort_by cmp xs) = set xs"
  by (induction xs) auto

lemma length_qsort_by [simp]: "length (qsort_by cmp xs) = length xs"
  using mset_qsort_by [of cmp xs] by (metis size_mset)

text \<open>
  What a comparator has to promise for \<open>qsort\<close> to sort: on the elements that satisfy
  \<open>dom_ok\<close> it is total and transitive.
\<close>

locale qsort_order =
  fixes cmp :: "'a \<Rightarrow> 'a \<Rightarrow> int"
    and dom_ok :: "'a \<Rightarrow> bool"
  assumes cmp_total: "dom_ok a \<Longrightarrow> dom_ok b \<Longrightarrow> cmp a b \<le> 0 \<or> cmp b a \<le> 0"
    and cmp_trans: "dom_ok a \<Longrightarrow> dom_ok b \<Longrightarrow> dom_ok c \<Longrightarrow>
      cmp a b \<le> 0 \<Longrightarrow> cmp b c \<le> 0 \<Longrightarrow> cmp a c \<le> 0"
begin

lemma insert_by_sorted:
  "\<forall>y \<in> set ys. dom_ok y \<Longrightarrow> dom_ok x \<Longrightarrow> sorted_wrt (\<lambda>a b. cmp a b \<le> 0) ys \<Longrightarrow>
     sorted_wrt (\<lambda>a b. cmp a b \<le> 0) (insert_by cmp x ys)"
proof (induction ys)
  case Nil
  then show ?case by simp
next
  case (Cons y ys)
  show ?case
  proof (cases "cmp x y \<le> 0")
    case True
    with Cons.prems show ?thesis by (auto intro: cmp_trans)
  next
    case False
    with Cons.prems have "cmp y x \<le> 0"
      using cmp_total [of x y] by auto
    with False Cons show ?thesis by auto
  qed
qed

lemma qsort_by_sorted:
  "\<forall>x \<in> set xs. dom_ok x \<Longrightarrow> sorted_wrt (\<lambda>a b. cmp a b \<le> 0) (qsort_by cmp xs)"
  by (induction xs) (auto intro: insert_by_sorted)

end

section \<open>Lists and options\<close>

lemma length_le_1_cases:
  assumes "length xs \<le> 1"
  obtains "xs = []" | x where "xs = [x]"
  using assms by (cases xs) (auto simp: le_Suc_eq)

lemma ex_in_concat_map: "(\<exists>y \<in> set (concat (map f xs)). P y) \<longleftrightarrow> (\<exists>x \<in> set xs. \<exists>y \<in> set (f x). P y)"
  by auto

lemma all_in_concat_map: "(\<forall>y \<in> set (concat (map f xs)). P y) \<longleftrightarrow> (\<forall>x \<in> set xs. \<forall>y \<in> set (f x). P y)"
  by auto

lemma nth_update_if: "j < length xs \<Longrightarrow> xs[i := x] ! j = (if i = j then x else xs ! j)"
  by (cases "i = j") auto

text \<open>A \<open>for\<close> loop whose body may abort.\<close>

primrec fold_opt :: "('a \<Rightarrow> 's \<Rightarrow> 's option) \<Rightarrow> 'a list \<Rightarrow> 's \<Rightarrow> 's option" where
  "fold_opt f [] s = Some s"
| "fold_opt f (x # xs) s = Option.bind (f x s) (fold_opt f xs)"

lemma fold_opt_upt_inv:
  assumes "P a s" "a \<le> b"
    and "\<And>i s. a \<le> i \<Longrightarrow> i < b \<Longrightarrow> P i s \<Longrightarrow> \<exists>s'. f i s = Some s' \<and> P (Suc i) s'"
  shows "\<exists>s'. fold_opt f [a..<b] s = Some s' \<and> P b s'"
  using assms
proof (induction "b - a" arbitrary: a s)
  case (Suc n)
  then have "a < b" by simp
  obtain s' where s': "f a s = Some s'" "P (Suc a) s'" using Suc.prems(3) [OF _ \<open>a < b\<close> Suc.prems(1)] by auto
  have "\<exists>t. fold_opt f [Suc a..<b] s' = Some t \<and> P b t"
    by (rule Suc.hyps) (use Suc s' \<open>a < b\<close> in auto)
  with s' show ?case by (simp add: upt_conv_Cons \<open>a < b\<close>)
qed auto

end
