(* ===== verification/Hmap.thy ===== *)
theory Hmap
  imports Ovn_Prelude
begin

text \<open>
  The hash map of Open vSwitch (\<open>ovs/include/openvswitch/hmap.h\<close> and \<open>ovs/lib/hmap.c\<close>).

  A \<open>struct hmap_node\<close> is embedded in the structure that is stored, so a node is
  the pair of its hash and of that structure; a pointer to a node is the part of its
  chain that begins there, and NULL is the empty list. The member \<open>one\<close> is the only
  bucket of a map whose mask is 0. A \<open>size_t\<close> has 64 bits. An update of a structure in
  place, while it is in a map, is \<open>hmap_replace\<close>.

  The theorems show that the masks are always one less than a power of two, so that the
  assertion in \<open>resize\<close> cannot fail; that no index leaves the array of buckets; and that
  the operations implement a bag of nodes. The interface that the users of the map rely
  on is the locale \<open>node_table\<close>, in which look-up by key, insertion and removal are proved
  to work on the set of stored structures.
\<close>

section \<open>The map\<close>

type_synonym 'a hmap_node = "u64 \<times> 'a"

record 'a hmap =
  hm_buckets :: "'a hmap_node list list"
  hm_mask :: u64
  hm_n :: u64

definition hmap_init :: "'a hmap" where
  "hmap_init = \<lparr>hm_buckets = [[]], hm_mask = 0, hm_n = 0\<rparr>"

definition hmap_clear :: "'a hmap \<Rightarrow> 'a hmap" where
  "hmap_clear h =
     (if hm_n h > 0
      then h\<lparr>hm_n := 0, hm_buckets := replicate (unat (hm_mask h) + 1) []\<rparr>
      else h)"

definition hmap_swap :: "'a hmap \<times> 'a hmap \<Rightarrow> 'a hmap \<times> 'a hmap" where
  "hmap_swap p = (snd p, fst p)"

definition hmap_count :: "'a hmap \<Rightarrow> u64" where
  "hmap_count h = hm_n h"

definition hmap_capacity :: "'a hmap \<Rightarrow> u64" where
  "hmap_capacity h = hm_mask h * 2 + 1"

definition hmap_is_empty :: "'a hmap \<Rightarrow> bool" where
  "hmap_is_empty h \<longleftrightarrow> hm_n h = 0"

text \<open>The index of the bucket of a hash, \<open>hash & hmap->mask\<close>.\<close>

definition bucket_of :: "'a hmap \<Rightarrow> u64 \<Rightarrow> nat" where
  "bucket_of h k = unat (k AND hm_mask h)"

definition hmap_insert_fast :: "'a hmap \<Rightarrow> 'a \<Rightarrow> u64 \<Rightarrow> 'a hmap" where
  "hmap_insert_fast h x k =
     h\<lparr>hm_buckets := (hm_buckets h)[bucket_of h k := (k, x) # hm_buckets h ! bucket_of h k],
       hm_n := hm_n h + 1\<rparr>"

definition is_pow2 :: "u64 \<Rightarrow> bool" where
  "is_pow2 x \<longleftrightarrow> x \<noteq> 0 \<and> x AND (x - 1) = 0"

text \<open>The nodes in the order of the array of buckets and of the chains.\<close>

definition hmap_nodes :: "'a hmap \<Rightarrow> 'a hmap_node list" where
  "hmap_nodes h = concat (hm_buckets h)"

definition resize_tmp :: "u64 \<Rightarrow> 'a hmap" where
  "resize_tmp new_mask =
     (if new_mask \<noteq> 0
      then \<lparr>hm_buckets = replicate (unat new_mask + 1) [], hm_mask = new_mask, hm_n = 0\<rparr>
      else hmap_init)"

definition resize :: "'a hmap \<Rightarrow> u64 \<Rightarrow> 'a hmap option" where
  "resize h new_mask =
     (if is_pow2 (new_mask + 1)
      then Some (fst (hmap_swap (h,
             fold (\<lambda>(k, x) tmp. hmap_insert_fast tmp x k) (hmap_nodes h) (resize_tmp new_mask))))
      else None)"

definition calc_mask :: "u64 \<Rightarrow> u64" where
  "calc_mask capacity =
     (let m = capacity div 2;
          m = m OR drop_bit 1 m;
          m = m OR drop_bit 2 m;
          m = m OR drop_bit 4 m;
          m = m OR drop_bit 8 m;
          m = m OR drop_bit 16 m;
          m = m OR drop_bit 32 m
      in m OR push_bit 1 (m AND 1))"

definition hmap_expand :: "'a hmap \<Rightarrow> 'a hmap option" where
  "hmap_expand h =
     (let new_mask = calc_mask (hm_n h)
      in if new_mask > hm_mask h then resize h new_mask else Some h)"

definition hmap_shrink :: "'a hmap \<Rightarrow> 'a hmap option" where
  "hmap_shrink h =
     (let new_mask = calc_mask (hm_n h)
      in if new_mask < hm_mask h then resize h new_mask else Some h)"

definition hmap_reserve :: "'a hmap \<Rightarrow> u64 \<Rightarrow> 'a hmap option" where
  "hmap_reserve h n =
     (let new_mask = calc_mask n
      in if new_mask > hm_mask h then resize h new_mask else Some h)"

definition hmap_insert :: "'a hmap \<Rightarrow> 'a \<Rightarrow> u64 \<Rightarrow> 'a hmap option" where
  "hmap_insert h x k =
     (let h = hmap_insert_fast h x k
      in if hm_n h div 2 > hm_mask h then hmap_expand h else Some h)"

text \<open>
  The walk along a chain to the node; past the end of the chain it dereferences NULL.
\<close>

definition hmap_remove :: "'a hmap \<Rightarrow> 'a hmap_node \<Rightarrow> 'a hmap option" where
  "hmap_remove h nd =
     (let i = bucket_of h (fst nd); chain = hm_buckets h ! i
      in if nd \<in> set chain
         then Some (h\<lparr>hm_buckets := (hm_buckets h)[i := remove1 nd chain], hm_n := hm_n h - 1\<rparr>)
         else None)"

primrec replace1 :: "'a \<Rightarrow> 'a \<Rightarrow> 'a list \<Rightarrow> 'a list" where
  "replace1 a b [] = []"
| "replace1 a b (x # xs) = (if x = a then b # xs else x # replace1 a b xs)"

definition hmap_replace :: "'a hmap \<Rightarrow> 'a hmap_node \<Rightarrow> 'a \<Rightarrow> 'a hmap option" where
  "hmap_replace h old new =
     (let i = bucket_of h (fst old); chain = hm_buckets h ! i
      in if old \<in> set chain
         then Some (h\<lparr>hm_buckets := (hm_buckets h)[i := replace1 old (fst old, new) chain]\<rparr>)
         else None)"

definition hmap_node_moved :: "'a hmap \<Rightarrow> 'a hmap_node \<Rightarrow> 'a hmap_node \<Rightarrow> 'a hmap option" where
  "hmap_node_moved h old nd =
     (let i = bucket_of h (fst nd); chain = hm_buckets h ! i
      in if old \<in> set chain
         then Some (h\<lparr>hm_buckets := (hm_buckets h)[i := replace1 old nd chain]\<rparr>)
         else None)"

section \<open>Search and iteration\<close>

fun hmap_next_with_hash' :: "'a hmap_node list \<Rightarrow> u64 \<Rightarrow> 'a hmap_node list" where
  "hmap_next_with_hash' [] k = []"
| "hmap_next_with_hash' (nd # next') k =
     (if fst nd \<noteq> k then hmap_next_with_hash' next' k else nd # next')"

lemma length_hmap_next_with_hash' [termination_simp]:
  "length (hmap_next_with_hash' c k) \<le> length c"
  by (induction c k rule: hmap_next_with_hash'.induct) auto

definition hmap_first_with_hash :: "'a hmap \<Rightarrow> u64 \<Rightarrow> 'a hmap_node list" where
  "hmap_first_with_hash h k = hmap_next_with_hash' (hm_buckets h ! bucket_of h k) k"

definition hmap_first_in_bucket :: "'a hmap \<Rightarrow> u64 \<Rightarrow> 'a hmap_node list" where
  "hmap_first_in_bucket h k = hm_buckets h ! bucket_of h k"

text \<open>The nodes that \<open>HMAP_FOR_EACH_WITH_HASH\<close> visits, in order.\<close>

fun each_with_hash :: "'a hmap_node list \<Rightarrow> 'a hmap_node list" where
  "each_with_hash [] = []"
| "each_with_hash (nd # next') = nd # each_with_hash (hmap_next_with_hash' next' (fst nd))"

definition hmap_for_each_with_hash :: "'a hmap \<Rightarrow> u64 \<Rightarrow> 'a hmap_node list" where
  "hmap_for_each_with_hash h k = each_with_hash (hmap_first_with_hash h k)"

definition hmap_contains :: "'a hmap \<Rightarrow> 'a hmap_node \<Rightarrow> bool" where
  "hmap_contains h nd = list_ex (\<lambda>p. p = nd) (hmap_first_in_bucket h (fst nd))"

fun first_chain :: "'a hmap_node list list \<Rightarrow> 'a hmap_node list" where
  "first_chain [] = []"
| "first_chain (b # bs) = (if b \<noteq> [] then b else first_chain bs)"

definition hmap_next' :: "'a hmap \<Rightarrow> nat \<Rightarrow> 'a hmap_node list" where
  "hmap_next' h start = first_chain (drop start (hm_buckets h))"

definition hmap_first :: "'a hmap \<Rightarrow> 'a hmap_node list" where
  "hmap_first h = hmap_next' h 0"

definition hmap_next :: "'a hmap \<Rightarrow> 'a hmap_node list \<Rightarrow> 'a hmap_node list" where
  "hmap_next h c =
     (if tl c \<noteq> [] then tl c else hmap_next' h (bucket_of h (fst (hd c)) + 1))"

text \<open>
  The nodes that \<open>HMAP_FOR_EACH\<close> visits; \<open>None\<close> if the loop does not end.
\<close>

partial_function (option) each_from :: "'a hmap \<Rightarrow> 'a hmap_node list \<Rightarrow> 'a hmap_node list option" where
  [code]: "each_from h c =
     (case c of [] \<Rightarrow> Some []
      | nd # next' \<Rightarrow> Option.bind (each_from h (hmap_next h c)) (\<lambda>ns. Some (nd # ns)))"

definition hmap_for_each :: "'a hmap \<Rightarrow> 'a hmap_node list option" where
  "hmap_for_each h = each_from h (hmap_first h)"

text \<open>
  One step of \<open>HMAP_FOR_EACH_POP\<close>: the next bucket that is not empty loses its first node.
\<close>

function hmap_pop_helper :: "'a hmap \<Rightarrow> nat \<Rightarrow> ('a hmap \<times> nat \<times> 'a hmap_node option) option" where
  "hmap_pop_helper h i =
     (if i \<le> unat (hm_mask h)
      then (case hm_buckets h ! i of
              nd # next' \<Rightarrow> map_option (\<lambda>h'. (h', i, Some nd)) (hmap_remove h nd)
            | [] \<Rightarrow> hmap_pop_helper h (i + 1))
      else Some (h, i, None))"
  by pat_completeness auto
termination by (relation "measure (\<lambda>(h, i). Suc (unat (hm_mask h)) - i)") auto

declare hmap_pop_helper.simps [simp del]

text \<open>
  Iteration by position. The members of \<open>struct hmap_position\<close> are 32-bit integers.
\<close>

fun at_position_scan :: "'a hmap \<Rightarrow> 'a hmap_node list list \<Rightarrow> nat \<Rightarrow>
    'a hmap_node option \<times> u32 \<times> u32" where
  "at_position_scan h [] offset = (None, 0, 0)"
| "at_position_scan h (chain # bs) offset =
     (if offset < length chain
      then (let nd = chain ! offset
            in (Some nd,
                if Suc offset < length chain
                then (ucast (fst nd AND hm_mask h), of_nat (offset + 1))
                else (ucast ((fst nd AND hm_mask h) + 1), 0)))
      else at_position_scan h bs 0)"

definition hmap_at_position :: "'a hmap \<Rightarrow> u32 \<times> u32 \<Rightarrow> 'a hmap_node option \<times> u32 \<times> u32" where
  "hmap_at_position h pos =
     at_position_scan h (drop (unat (fst pos)) (hm_buckets h)) (unat (snd pos))"

text \<open>The results of \<open>m\<close> calls in a row, each from the position that the last one left.\<close>

primrec positions :: "'a hmap \<Rightarrow> nat \<Rightarrow> u32 \<times> u32 \<Rightarrow> 'a hmap_node option list" where
  "positions h 0 pos = []"
| "positions h (Suc m) pos =
     (let (r, pos') = hmap_at_position h pos in r # positions h m pos')"

section \<open>Masks\<close>

lemma smear_step:
  fixes x w :: u64
  assumes "\<And>i. bit w i \<longleftrightarrow> (\<exists>j < m. bit x (i + j))"
  shows "bit (w OR drop_bit m w) i \<longleftrightarrow> (\<exists>j < 2 * m. bit x (i + j))"
proof -
  have "(\<exists>j < m. bit x (i + j)) \<or> (\<exists>j < m. bit x (m + i + j)) \<longleftrightarrow> (\<exists>j < 2 * m. bit x (i + j))"
    (is "?l \<longleftrightarrow> ?r")
  proof
    assume ?l
    then show ?r
    proof
      assume "\<exists>j < m. bit x (m + i + j)"
      then obtain j where "j < m" "bit x (m + i + j)" by auto
      then have "j + m < 2 * m" "bit x (i + (j + m))" by (auto simp: ac_simps)
      then show ?r by blast
    next
      assume "\<exists>j < m. bit x (i + j)"
      then obtain j where "j < 2 * m" "bit x (i + j)" by (metis trans_less_add1 mult_2)
      then show ?r by blast
    qed
  next
    assume ?r
    then obtain j where j: "j < 2 * m" "bit x (i + j)" by auto
    show ?l
    proof (cases "j < m")
      case False
      then have "j - m < m" "bit x (m + i + (j - m))" using j by (auto simp: ac_simps)
      then show ?thesis by blast
    qed (use j in auto)
  qed
  then show ?thesis by (simp add: bit_or_iff bit_drop_bit_eq assms add.commute)
qed

definition smear :: "u64 \<Rightarrow> u64" where
  "smear m =
     (let m = m OR drop_bit 1 m;
          m = m OR drop_bit 2 m;
          m = m OR drop_bit 4 m;
          m = m OR drop_bit 8 m;
          m = m OR drop_bit 16 m
      in m OR drop_bit 32 m)"

lemma bit_smear: "bit (smear x) i \<longleftrightarrow> (\<exists>j < 64. bit x (i + j))"
proof -
  have 1: "bit x i \<longleftrightarrow> (\<exists>j < 1. bit x (i + j))" for i by auto
  note 2 = smear_step [OF 1, simplified]
  note 4 = smear_step [OF 2, simplified]
  note 8 = smear_step [OF 4, simplified]
  note 16 = smear_step [OF 8, simplified]
  note 32 = smear_step [OF 16, simplified]
  show ?thesis
    unfolding smear_def Let_def using smear_step [OF 32, of i] by simp
qed

lemma smear_mask:
  assumes "x \<noteq> 0"
  shows "\<exists>k < 64. bit x k \<and> smear x = mask (Suc k)"
proof -
  have fin: "finite {j. bit x j}"
    by (rule finite_subset [of _ "{..<64}"]) (auto dest: bit_imp_le_length)
  have ne: "{j. bit x j} \<noteq> {}" using assms by (auto simp: bit_eq_iff)
  define k where "k = Max {j. bit x j}"
  have k: "bit x k" using Max_in [OF fin ne] by (simp add: k_def)
  have k64: "k < 64" using bit_imp_le_length [OF k] by simp
  have le: "j \<le> k" if "bit x j" for j using Max_ge [OF fin] that by (simp add: k_def)
  have "bit (smear x) i \<longleftrightarrow> i \<le> k" for i
  proof
    assume "i \<le> k"
    then show "bit (smear x) i" using k k64 by (auto simp: bit_smear intro!: exI [of _ "k - i"])
  qed (use le in \<open>fastforce simp: bit_smear\<close>)
  then have "smear x = mask (Suc k)"
    using k64 by (intro bit_eqI) (auto simp: bit_mask_iff less_Suc_eq_le)
  with k k64 show ?thesis by blast
qed

lemma is_pow2_mask: "k < 64 \<Longrightarrow> is_pow2 (mask k + 1)"
proof -
  assume k: "k < 64"
  have "(2 :: u64) ^ k \<noteq> 0" using k by (auto simp: bit_eq_iff bit_exp_iff)
  moreover have "(2 :: u64) ^ k AND mask k = 0"
    by (rule bit_eqI) (auto simp: bit_and_iff bit_exp_iff bit_mask_iff)
  ultimately show ?thesis by (simp add: is_pow2_def mask_eq_exp_minus_1)
qed

lemma calc_mask_smear: "calc_mask n = smear (n div 2) OR push_bit 1 (smear (n div 2) AND 1)"
  unfolding calc_mask_def smear_def Let_def by (rule refl)

lemma push_mask_one:
  "0 < k \<Longrightarrow> mask k OR push_bit 1 (mask k AND 1 :: u64) = mask (max k 2)"
proof -
  assume k: "0 < k"
  have "mask k AND 1 = (1 :: u64)"
    by (rule bit_eqI) (use k in \<open>auto simp: bit_and_iff bit_mask_iff bit_1_iff\<close>)
  moreover have "mask k OR 2 ^ 1 = (mask (max k 2) :: u64)"
    by (rule bit_eqI, unfold bit_or_iff bit_exp_iff bit_mask_iff) (use k in auto)
  ultimately show ?thesis by (simp add: push_bit_eq_mult)
qed

lemma calc_mask_cases:
  obtains "n div 2 = 0" "calc_mask n = 0"
  | k where "n div 2 \<noteq> 0" "bit (n div 2) k" "k < 63" "calc_mask n = mask (max (Suc k) 2)"
proof (cases "n div 2 = 0")
  case True
  have "smear 0 = 0" by (rule bit_eqI) (simp add: bit_smear)
  with True show ?thesis using that(1) by (simp add: calc_mask_smear)
next
  case False
  then obtain k where k: "k < 64" "bit (n div 2) k" "smear (n div 2) = mask (Suc k)"
    using smear_mask by blast
  have "bit n (Suc k)" using k(2) by (simp add: bit_Suc)
  then have "k < 63" using bit_imp_le_length [of n "Suc k"] by simp
  then show ?thesis
    using that(2) [of k] False k push_mask_one [of "Suc k"] by (simp add: calc_mask_smear del: mask_Suc_exp)
qed

lemma calc_mask_pow2: "is_pow2 (calc_mask n + 1)"
proof (rule calc_mask_cases [of n])
  assume "calc_mask n = 0"
  then show ?thesis by (simp add: is_pow2_def)
next
  fix k assume "k < 63" "calc_mask n = mask (max (Suc k) 2)"
  then show ?thesis using is_pow2_mask [of "max (Suc k) 2"] by simp
qed

text \<open>A map that is expanded has room for half as many buckets as nodes.\<close>

lemma calc_mask_ge: "n div 2 \<le> calc_mask n"
proof -
  have "n div 2 AND calc_mask n = n div 2"
  proof (rule bit_eqI)
    fix i
    show "bit (n div 2 AND calc_mask n) i \<longleftrightarrow> bit (n div 2) i"
      by (auto simp: calc_mask_smear bit_and_iff bit_or_iff bit_smear intro!: exI [of _ 0])
  qed
  then show ?thesis by (metis word_and_le1)
qed

section \<open>The invariant\<close>

definition hmap_ok :: "'a hmap \<Rightarrow> bool" where
  "hmap_ok h \<longleftrightarrow>
     length (hm_buckets h) = unat (hm_mask h) + 1 \<and>
     is_pow2 (hm_mask h + 1) \<and>
     (\<forall>i < length (hm_buckets h). \<forall>nd \<in> set (hm_buckets h ! i). bucket_of h (fst nd) = i) \<and>
     unat (hm_n h) = length (hmap_nodes h)"

definition hmap_bag :: "'a hmap \<Rightarrow> 'a hmap_node multiset" where
  "hmap_bag h = mset (hmap_nodes h)"

lemma size_hmap_bag: "hmap_ok h \<Longrightarrow> size (hmap_bag h) = unat (hm_n h)"
  by (simp add: hmap_ok_def hmap_bag_def)

lemma bucket_of_in_range: "hmap_ok h \<Longrightarrow> bucket_of h k < length (hm_buckets h)"
proof -
  assume ok: "hmap_ok h"
  have "k AND hm_mask h \<le> hm_mask h" by (rule word_and_le1)
  with ok show ?thesis by (simp add: hmap_ok_def bucket_of_def word_le_nat_alt)
qed

lemma in_bucketD:
  "hmap_ok h \<Longrightarrow> nd \<in> set (hm_buckets h ! i) \<Longrightarrow> i < length (hm_buckets h) \<Longrightarrow> bucket_of h (fst nd) = i"
  by (auto simp: hmap_ok_def)

lemma set_bucket: "hmap_ok h \<Longrightarrow> nd \<in> set (hmap_nodes h) \<longleftrightarrow> nd \<in> set (hm_buckets h ! bucket_of h (fst nd))"
proof
  assume ok: "hmap_ok h" and "nd \<in> set (hmap_nodes h)"
  then obtain i where i: "i < length (hm_buckets h)" "nd \<in> set (hm_buckets h ! i)"
    by (auto simp: hmap_nodes_def) (metis in_set_conv_nth)
  with ok have "bucket_of h (fst nd) = i" by (auto simp: hmap_ok_def)
  with i show "nd \<in> set (hm_buckets h ! bucket_of h (fst nd))" by simp
next
  assume "hmap_ok h" "nd \<in> set (hm_buckets h ! bucket_of h (fst nd))"
  then show "nd \<in> set (hmap_nodes h)"
    using bucket_of_in_range [of h "fst nd"] by (auto simp: hmap_nodes_def)
qed

lemma hmap_init_ok [simp]: "hmap_ok hmap_init" "hmap_bag hmap_init = {#}"
  by (simp_all add: hmap_ok_def hmap_init_def hmap_bag_def hmap_nodes_def is_pow2_def)

lemma concat_replicate_Nil [simp]: "concat (replicate n []) = []"
  by (induction n) auto

lemma resize_tmp_ok:
  "is_pow2 (m + 1) \<Longrightarrow> hmap_ok (resize_tmp m :: 'a hmap) \<and> hmap_nodes (resize_tmp m :: 'a hmap) = []"
  by (auto simp: resize_tmp_def hmap_ok_def hmap_nodes_def hmap_init_def simp del: replicate_Suc)

text \<open>Replacing one bucket.\<close>

lemma mset_concat_update:
  "i < length xs \<Longrightarrow> mset (concat (xs[i := c])) + mset (xs ! i) = mset (concat xs) + mset c"
proof (induction xs arbitrary: i)
  case (Cons x xs)
  show ?case
  proof (cases i)
    case (Suc j)
    have "mset (concat (xs[j := c])) + mset (xs ! j) = mset (concat xs) + mset c"
      using Cons Suc by simp
    then have "mset x + (mset (concat (xs[j := c])) + mset (xs ! j)) = mset x + (mset (concat xs) + mset c)"
      by simp
    with Suc show ?thesis by (simp add: ac_simps)
  qed (simp add: ac_simps)
qed simp

lemma set_bucket_ok:
  assumes ok: "hmap_ok h" and c: "\<forall>nd \<in> set c. bucket_of h (fst nd) = i"
    and i: "i < length (hm_buckets h)"
    and n: "int (unat n) = int (unat (hm_n h)) + int (length c) - int (length (hm_buckets h ! i))"
  shows "hmap_ok (h\<lparr>hm_buckets := (hm_buckets h)[i := c], hm_n := n\<rparr>)"
    and "mset (concat ((hm_buckets h)[i := c])) + mset (hm_buckets h ! i) = hmap_bag h + mset c"
proof -
  show m: "mset (concat ((hm_buckets h)[i := c])) + mset (hm_buckets h ! i) = hmap_bag h + mset c"
    using mset_concat_update [OF i, of c] by (simp add: hmap_bag_def hmap_nodes_def)
  from arg_cong [OF m, of size]
  have "length (concat ((hm_buckets h)[i := c])) + length (hm_buckets h ! i)
      = unat (hm_n h) + length c"
    using size_hmap_bag [OF ok] by simp
  with n have "unat n = length (concat ((hm_buckets h)[i := c]))" by linarith
  then show "hmap_ok (h\<lparr>hm_buckets := (hm_buckets h)[i := c], hm_n := n\<rparr>)"
    using ok c i by (auto simp: hmap_ok_def hmap_nodes_def bucket_of_def nth_list_update)
qed

section \<open>Insertion and resizing\<close>

definition hmap_room :: "'a hmap \<Rightarrow> bool" where
  "hmap_room h \<longleftrightarrow> size (hmap_bag h) < 2 ^ 64 - 1"

lemma hmap_insert_fast_ok:
  assumes ok: "hmap_ok h" and room: "hmap_room h"
  shows "hmap_ok (hmap_insert_fast h x k)"
    and "hmap_bag (hmap_insert_fast h x k) = add_mset (k, x) (hmap_bag h)"
proof -
  let ?i = "bucket_of h k"
  have i: "?i < length (hm_buckets h)" by (rule bucket_of_in_range [OF ok])
  have c: "\<forall>nd \<in> set ((k, x) # hm_buckets h ! ?i). bucket_of h (fst nd) = ?i"
    using ok i by (auto simp: hmap_ok_def)
  have "unat (hm_n h + 1) = unat (hm_n h) + 1"
    using room size_hmap_bag [OF ok] by (simp add: unat_word_ariths hmap_room_def)
  then have n: "int (unat (hm_n h + 1)) = int (unat (hm_n h))
      + int (length ((k, x) # hm_buckets h ! ?i)) - int (length (hm_buckets h ! ?i))" by simp
  show "hmap_ok (hmap_insert_fast h x k)"
    unfolding hmap_insert_fast_def by (rule set_bucket_ok [OF ok c i n])
  show "hmap_bag (hmap_insert_fast h x k) = add_mset (k, x) (hmap_bag h)"
    using set_bucket_ok(2) [OF ok c i n]
    by (simp add: hmap_bag_def hmap_nodes_def hmap_insert_fast_def)
qed

lemma insert_fold_ok:
  assumes "hmap_ok t" "size (hmap_bag t) + length ns < 2 ^ 64"
  shows "hmap_ok (fold (\<lambda>(k, x) t. hmap_insert_fast t x k) ns t)
    \<and> hmap_bag (fold (\<lambda>(k, x) t. hmap_insert_fast t x k) ns t) = hmap_bag t + mset ns"
  using assms
proof (induction ns arbitrary: t)
  case (Cons nd ns)
  obtain k x where nd: "nd = (k, x)" by force
  have "hmap_room t" using Cons.prems by (simp add: hmap_room_def)
  with Cons.prems nd show ?case
    using Cons.IH [of "hmap_insert_fast t x k"] by (simp add: hmap_insert_fast_ok)
qed simp

lemma resize_ok:
  assumes "hmap_ok h" "is_pow2 (m + 1)"
  shows "\<exists>h'. resize h m = Some h' \<and> hmap_ok h' \<and> hmap_bag h' = hmap_bag h
    \<and> hm_n h' = hm_n h \<and> hm_mask h' = m"
proof -
  let ?t = "fold (\<lambda>(k, x) t. hmap_insert_fast t x k) (hmap_nodes h) (resize_tmp m)"
  have tmp: "hmap_ok (resize_tmp m :: 'a hmap)" "hmap_bag (resize_tmp m :: 'a hmap) = {#}"
    using resize_tmp_ok [OF assms(2), where ?'a = 'a] by (simp_all add: hmap_bag_def)
  have "size (hmap_bag (resize_tmp m :: 'a hmap)) + length (hmap_nodes h) < 2 ^ 64"
    using assms(1) tmp(2) unsigned_less [of "hm_n h", where ?'a = nat] by (simp add: hmap_ok_def)
  from insert_fold_ok [OF tmp(1) this] tmp(2)
  have t: "hmap_ok ?t" "hmap_bag ?t = hmap_bag h" by (simp_all add: hmap_bag_def)
  have "hm_mask (fold (\<lambda>(k, x) t. hmap_insert_fast t x k) ns t) = hm_mask t" for ns and t :: "'a hmap"
    by (induction ns arbitrary: t) (auto simp: hmap_insert_fast_def)
  then have "hm_mask ?t = m" by (simp add: resize_tmp_def hmap_init_def)
  moreover have "hm_n ?t = hm_n h"
    using size_hmap_bag [OF t(1)] size_hmap_bag [OF assms(1)] t(2) by (simp add: word_unat_eq_iff)
  ultimately show ?thesis using t assms(2) by (simp add: resize_def hmap_swap_def)
qed

lemma hmap_expand_ok:
  assumes "hmap_ok h"
  shows "\<exists>h'. hmap_expand h = Some h' \<and> hmap_ok h' \<and> hmap_bag h' = hmap_bag h
    \<and> hm_n h' = hm_n h \<and> calc_mask (hm_n h) \<le> hm_mask h'"
  using resize_ok [OF assms calc_mask_pow2 [of "hm_n h"]] assms
  by (auto simp: hmap_expand_def Let_def not_less)

lemma hmap_shrink_ok:
  assumes "hmap_ok h"
  shows "\<exists>h'. hmap_shrink h = Some h' \<and> hmap_ok h' \<and> hmap_bag h' = hmap_bag h \<and> hm_n h' = hm_n h"
  using resize_ok [OF assms calc_mask_pow2] assms by (auto simp: hmap_shrink_def Let_def)

lemma hmap_reserve_ok:
  assumes "hmap_ok h"
  shows "\<exists>h'. hmap_reserve h n = Some h' \<and> hmap_ok h' \<and> hmap_bag h' = hmap_bag h
    \<and> hm_n h' = hm_n h \<and> calc_mask n \<le> hm_mask h'"
  using resize_ok [OF assms calc_mask_pow2 [of n]] assms
  by (auto simp: hmap_reserve_def Let_def not_less)

lemma hmap_insert_ok:
  assumes "hmap_ok h" "hmap_room h"
  shows "\<exists>h'. hmap_insert h x k = Some h' \<and> hmap_ok h' \<and> hmap_bag h' = add_mset (k, x) (hmap_bag h)
    \<and> hm_n h' div 2 \<le> hm_mask h'"
proof -
  note f = hmap_insert_fast_ok [OF assms, of x k]
  from hmap_expand_ok [OF f(1)] f(2) show ?thesis
    by (cases "hm_n (hmap_insert_fast h x k) div 2 > hm_mask (hmap_insert_fast h x k)")
       (auto simp: hmap_insert_def Let_def f not_less intro: order_trans [OF calc_mask_ge])
qed

section \<open>Removal and replacement\<close>

lemma add_mset_cancel: "M + add_mset x R = B + R \<Longrightarrow> add_mset x M = B"
  by simp

lemma hmap_remove_ok:
  assumes ok: "hmap_ok h" and nd: "nd \<in># hmap_bag h"
  shows "\<exists>h'. hmap_remove h nd = Some h' \<and> hmap_ok h' \<and> hmap_bag h' = hmap_bag h - {#nd#}"
proof -
  let ?i = "bucket_of h (fst nd)"
  let ?c = "hm_buckets h ! ?i"
  have i: "?i < length (hm_buckets h)" by (rule bucket_of_in_range [OF ok])
  have nd': "nd \<in> set ?c" using nd set_bucket [OF ok] by (simp add: hmap_bag_def)
  then have "length (remove1 nd ?c) = length ?c - 1" by (simp add: length_remove1)
  with length_pos_if_in_set [OF nd'] have len: "length ?c = Suc (length (remove1 nd ?c))" by linarith
  have c: "\<forall>y \<in> set (remove1 nd ?c). bucket_of h (fst y) = ?i"
    by (meson in_bucketD [OF ok _ i] notin_set_remove1)
  have "hm_n h \<noteq> 0" using size_hmap_bag [OF ok] nd by (auto simp: size_eq_0_iff_empty unat_eq_0)
  then have "unat (hm_n h - 1) = unat (hm_n h) - 1" "1 \<le> unat (hm_n h)"
    by (simp_all add: unat_minus_one unat_gt_0 Suc_le_eq)
  then have n: "int (unat (hm_n h - 1)) = int (unat (hm_n h)) + int (length (remove1 nd ?c)) - int (length ?c)"
    using len by linarith
  note s = set_bucket_ok [OF ok c i n]
  have "mset ?c = add_mset nd (mset (remove1 nd ?c))" using nd' by simp
  with s(2) have "mset (concat ((hm_buckets h)[?i := remove1 nd ?c])) + add_mset nd (mset (remove1 nd ?c))
      = hmap_bag h + mset (remove1 nd ?c)"
    by (simp only:)
  then have "add_mset nd (mset (concat ((hm_buckets h)[?i := remove1 nd ?c]))) = hmap_bag h"
    by (rule add_mset_cancel)
  then have "mset (concat ((hm_buckets h)[?i := remove1 nd ?c])) = hmap_bag h - {#nd#}"
    by (metis add_mset_remove_trivial)
  then have "hmap_bag (h\<lparr>hm_buckets := (hm_buckets h)[?i := remove1 nd ?c], hm_n := hm_n h - 1\<rparr>)
      = hmap_bag h - {#nd#}"
    by (simp add: hmap_bag_def hmap_nodes_def)
  with s(1) nd' show ?thesis by (simp add: hmap_remove_def Let_def)
qed

text \<open>The walk to a node that is not in the map runs past the end of its chain.\<close>

lemma hmap_remove_absent: "hmap_ok h \<Longrightarrow> nd \<notin># hmap_bag h \<Longrightarrow> hmap_remove h nd = None"
  by (simp add: hmap_remove_def hmap_bag_def set_bucket Let_def)

lemma mset_replace1: "a \<in> set xs \<Longrightarrow> add_mset a (mset (replace1 a b xs)) = add_mset b (mset xs)"
  by (induction xs) auto

lemma length_replace1 [simp]: "length (replace1 a b xs) = length xs"
  by (induction xs) auto

lemma set_replace1: "set (replace1 a b xs) \<subseteq> insert b (set xs)"
  by (induction xs) auto

lemma hmap_replace_ok:
  assumes ok: "hmap_ok h" and nd: "old \<in># hmap_bag h"
  shows "\<exists>h'. hmap_replace h old new = Some h' \<and> hmap_ok h'
    \<and> hmap_bag h' = add_mset (fst old, new) (hmap_bag h - {#old#})"
proof -
  let ?i = "bucket_of h (fst old)"
  let ?c = "hm_buckets h ! ?i"
  let ?d = "replace1 old (fst old, new) ?c"
  have i: "?i < length (hm_buckets h)" by (rule bucket_of_in_range [OF ok])
  have nd': "old \<in> set ?c" using nd set_bucket [OF ok] by (simp add: hmap_bag_def)
  have c: "\<forall>y \<in> set ?d. bucket_of h (fst y) = ?i"
    using in_bucketD [OF ok _ i] set_replace1 [of old "(fst old, new)" ?c] by fastforce
  have n: "int (unat (hm_n h)) = int (unat (hm_n h)) + int (length ?d) - int (length ?c)" by simp
  note s = set_bucket_ok [OF ok c i n]
  have h': "h\<lparr>hm_buckets := (hm_buckets h)[?i := ?d], hm_n := hm_n h\<rparr> = h\<lparr>hm_buckets := (hm_buckets h)[?i := ?d]\<rparr>"
    by simp
  have "add_mset old (mset (concat ((hm_buckets h)[?i := ?d])) + mset ?c)
      = hmap_bag h + add_mset old (mset ?d)"
    using s(2) by simp
  then have "add_mset old (mset (concat ((hm_buckets h)[?i := ?d])) + mset ?c)
      = add_mset (fst old, new) (hmap_bag h + mset ?c)"
    using mset_replace1 [OF nd', of "(fst old, new)"] by simp
  then have "add_mset old (mset (concat ((hm_buckets h)[?i := ?d]))) = add_mset (fst old, new) (hmap_bag h)"
    by (metis add_right_cancel union_mset_add_mset_left)
  then have "mset (concat ((hm_buckets h)[?i := ?d])) = add_mset (fst old, new) (hmap_bag h) - {#old#}"
    by (metis add_mset_remove_trivial)
  then have "mset (concat ((hm_buckets h)[?i := ?d])) = add_mset (fst old, new) (hmap_bag h - {#old#})"
    using nd by (simp add: multiset_eq_iff)
  then have "hmap_bag (h\<lparr>hm_buckets := (hm_buckets h)[?i := ?d]\<rparr>) = add_mset (fst old, new) (hmap_bag h - {#old#})"
    by (simp add: hmap_bag_def hmap_nodes_def)
  with s(1) nd' show ?thesis unfolding h' by (simp add: hmap_replace_def Let_def)
qed

lemma hmap_clear_ok: "hmap_ok h \<Longrightarrow> hmap_ok (hmap_clear h) \<and> hmap_bag (hmap_clear h) = {#}"
proof -
  assume ok: "hmap_ok h"
  show ?thesis
  proof (cases "hm_n h = 0")
    case True
    then have "hmap_bag h = {#}" using size_hmap_bag [OF ok] by (simp add: size_eq_0_iff_empty)
    with True ok show ?thesis by (simp add: hmap_clear_def)
  next
    case False
    then have "hm_n h > 0" by (simp add: word_neq_0_conv)
    with ok show ?thesis
      by (auto simp: hmap_clear_def hmap_ok_def hmap_bag_def hmap_nodes_def simp del: replicate_Suc)
  qed
qed

lemma hmap_is_empty_iff: "hmap_ok h \<Longrightarrow> hmap_is_empty h \<longleftrightarrow> hmap_bag h = {#}"
  using size_hmap_bag [of h] by (auto simp: hmap_is_empty_def size_eq_0_iff_empty [symmetric] unat_eq_0)

section \<open>Search\<close>

lemma each_with_hash_filter:
  "each_with_hash (hmap_next_with_hash' c k) = filter (\<lambda>nd. fst nd = k) c"
  by (induction c) auto

lemma hmap_for_each_with_hash_eq:
  "hmap_for_each_with_hash h k = filter (\<lambda>nd. fst nd = k) (hm_buckets h ! bucket_of h k)"
  by (simp add: hmap_for_each_with_hash_def hmap_first_with_hash_def each_with_hash_filter)

lemma filter_concat_one:
  assumes "i < length xs" "\<forall>j < length xs. j \<noteq> i \<longrightarrow> filter P (xs ! j) = []"
  shows "filter P (concat xs) = filter P (xs ! i)"
  using assms
proof (induction xs arbitrary: i)
  case (Cons x xs)
  show ?case
  proof (cases i)
    case 0
    then have "filter P (xs ! j) = []" if "j < length xs" for j using Cons.prems(2) that by force
    then have "filter P (concat xs) = []"
      by (auto simp: filter_concat concat_eq_Nil_conv in_set_conv_nth)
    with 0 show ?thesis by simp
  next
    case (Suc j)
    have "filter P (concat xs) = filter P (xs ! j)" by (rule Cons.IH) (use Cons.prems Suc in force)+
    moreover have "filter P x = []" using Cons.prems Suc by force
    ultimately show ?thesis using Suc by simp
  qed
qed simp

lemma hmap_for_each_with_hash_ok:
  assumes ok: "hmap_ok h"
  shows "hmap_for_each_with_hash h k = filter (\<lambda>nd. fst nd = k) (hmap_nodes h)"
proof -
  have "filter (\<lambda>nd. fst nd = k) (hm_buckets h ! j) = []"
    if "j < length (hm_buckets h)" "j \<noteq> bucket_of h k" for j
    using ok that by (auto simp: hmap_ok_def filter_empty_conv)
  then show ?thesis
    unfolding hmap_for_each_with_hash_eq hmap_nodes_def
    by (intro filter_concat_one [symmetric] bucket_of_in_range [OF ok]) auto
qed

lemma hmap_contains_iff: "hmap_ok h \<Longrightarrow> hmap_contains h nd \<longleftrightarrow> nd \<in># hmap_bag h"
  by (auto simp: hmap_contains_def hmap_first_in_bucket_def list_ex_iff hmap_bag_def set_bucket)

section \<open>Iteration\<close>

lemma each_from_Nil [simp]: "each_from h [] = Some []"
  by (subst each_from.simps) simp

lemma each_from_Cons:
  "each_from h (nd # r) = Option.bind (each_from h (hmap_next h (nd # r))) (\<lambda>ns. Some (nd # ns))"
  by (subst each_from.simps) simp

text \<open>After the last node of bucket \<open>i\<close> the loop goes on with the buckets above it.\<close>

lemma each_from_within:
  assumes ok: "hmap_ok h" and i: "i < length (hm_buckets h)" and c: "hm_buckets h ! i = p @ c" "c \<noteq> []"
  shows "each_from h c = map_option ((@) c) (each_from h (hmap_next' h (Suc i)))"
  using c
proof (induction c arbitrary: p)
  case (Cons nd r)
  have nd: "bucket_of h (fst nd) = i" using in_bucketD [OF ok _ i, of nd] Cons.prems by simp
  show ?case
  proof (cases "r = []")
    case True
    then show ?thesis by (cases "each_from h (hmap_next' h (Suc i))") (simp_all add: each_from_Cons hmap_next_def nd)
  next
    case False
    have "each_from h r = map_option ((@) r) (each_from h (hmap_next' h (Suc i)))"
      using Cons.IH [of "p @ [nd]"] Cons.prems False by simp
    with False show ?thesis
      by (cases "each_from h (hmap_next' h (Suc i))") (simp_all add: each_from_Cons hmap_next_def)
  qed
qed simp

lemma hmap_next'_step:
  "i < length (hm_buckets h) \<Longrightarrow>
     hmap_next' h i = (if hm_buckets h ! i \<noteq> [] then hm_buckets h ! i else hmap_next' h (Suc i))"
  by (simp add: hmap_next'_def flip: Cons_nth_drop_Suc)

lemma each_from_next':
  assumes ok: "hmap_ok h"
  shows "i \<le> length (hm_buckets h) \<Longrightarrow> each_from h (hmap_next' h i) = Some (concat (drop i (hm_buckets h)))"
proof (induction "length (hm_buckets h) - i" arbitrary: i)
  case 0
  then show ?case by (simp add: hmap_next'_def)
next
  case (Suc n)
  then have i: "i < length (hm_buckets h)" by simp
  have IH: "each_from h (hmap_next' h (Suc i)) = Some (concat (drop (Suc i) (hm_buckets h)))"
    by (rule Suc.hyps(1)) (use Suc.hyps(2) i in auto)
  show ?case
  proof (cases "hm_buckets h ! i = []")
    case True
    then show ?thesis using IH i by (simp add: hmap_next'_step flip: Cons_nth_drop_Suc)
  next
    case False
    then show ?thesis
      using each_from_within [OF ok i, of "[]"] IH i by (simp add: hmap_next'_step flip: Cons_nth_drop_Suc)
  qed
qed

lemma hmap_for_each_ok: "hmap_ok h \<Longrightarrow> hmap_for_each h = Some (hmap_nodes h)"
  using each_from_next' [of h 0] by (simp add: hmap_for_each_def hmap_first_def hmap_nodes_def)

lemma hmap_first_ok:
  assumes "hmap_ok h"
  shows "hmap_first h = [] \<and> hmap_bag h = {#} \<or> (\<exists>nd r. hmap_first h = nd # r \<and> nd \<in># hmap_bag h)"
proof (cases "hmap_first h")
  case Nil
  then show ?thesis using hmap_for_each_ok [OF assms] by (simp add: hmap_for_each_def hmap_bag_def)
next
  case (Cons nd r)
  then have "Option.bind (each_from h (hmap_next h (nd # r))) (\<lambda>ns. Some (nd # ns)) = Some (hmap_nodes h)"
    using hmap_for_each_ok [OF assms] by (simp add: hmap_for_each_def each_from_Cons)
  then obtain ns where "nd # ns = hmap_nodes h" by (cases "each_from h (hmap_next h (nd # r))") auto
  then have "nd \<in> set (hmap_nodes h)" by (metis list.set_intros(1))
  with Cons show ?thesis by (simp add: hmap_bag_def)
qed

section \<open>The interface\<close>

text \<open>
  What the users of a hash map rely on: the map is a bag of nodes, an insertion adds one, a
  removal takes one away, a replacement changes one, the search by hash visits the nodes
  with that hash and the iteration visits all nodes.
\<close>

definition keyed :: "('t \<Rightarrow> bool) \<Rightarrow> ('t \<Rightarrow> 'a hmap_node multiset) \<Rightarrow> ('a \<Rightarrow> 'k) \<Rightarrow> ('k \<Rightarrow> u64) \<Rightarrow> 't \<Rightarrow> 'a set \<Rightarrow> bool"
  where "keyed ok bag key hf t S \<longleftrightarrow>
    ok t \<and> finite S \<and> inj_on key S \<and> bag t = image_mset (\<lambda>x. (hf (key x), x)) (mset_set S)"

locale node_table =
  fixes ok :: "'t \<Rightarrow> bool"
    and bag :: "'t \<Rightarrow> 'a hmap_node multiset"
    and empty :: 't
    and ins :: "'t \<Rightarrow> 'a \<Rightarrow> u64 \<Rightarrow> 't option"
    and rem :: "'t \<Rightarrow> 'a hmap_node \<Rightarrow> 't option"
    and repl :: "'t \<Rightarrow> 'a hmap_node \<Rightarrow> 'a \<Rightarrow> 't option"
    and at_hash :: "'t \<Rightarrow> u64 \<Rightarrow> 'a hmap_node list"
    and each :: "'t \<Rightarrow> 'a hmap_node list option"
  assumes empty_ok: "ok empty" "bag empty = {#}"
    and ins_ok: "ok t \<Longrightarrow> size (bag t) < 2 ^ 64 - 1 \<Longrightarrow>
      \<exists>t'. ins t x h = Some t' \<and> ok t' \<and> bag t' = add_mset (h, x) (bag t)"
    and rem_ok: "ok t \<Longrightarrow> nd \<in># bag t \<Longrightarrow> \<exists>t'. rem t nd = Some t' \<and> ok t' \<and> bag t' = bag t - {#nd#}"
    and repl_ok: "ok t \<Longrightarrow> nd \<in># bag t \<Longrightarrow>
      \<exists>t'. repl t nd y = Some t' \<and> ok t' \<and> bag t' = add_mset (fst nd, y) (bag t - {#nd#})"
    and at_hash_ok: "ok t \<Longrightarrow> mset (at_hash t h) = filter_mset (\<lambda>nd. fst nd = h) (bag t)"
    and each_ok: "ok t \<Longrightarrow> \<exists>ns. each t = Some ns \<and> mset ns = bag t"
begin

lemma keyed_empty: "keyed ok bag key hf empty {}"
  by (simp add: keyed_def empty_ok)

lemma keyed_ins:
  assumes "keyed ok bag key hf t S" "key x \<notin> key ` S" "card S < 2 ^ 64 - 1"
  shows "\<exists>t'. ins t x (hf (key x)) = Some t' \<and> keyed ok bag key hf t' (insert x S)"
proof -
  have "size (bag t) < 2 ^ 64 - 1" "x \<notin> S" using assms by (auto simp: keyed_def)
  with ins_ok [of t x "hf (key x)"] assms show ?thesis by (auto simp: keyed_def)
qed

lemma keyed_rem:
  assumes "keyed ok bag key hf t S" "x \<in> S"
  shows "\<exists>t'. rem t (hf (key x), x) = Some t' \<and> keyed ok bag key hf t' (S - {x})"
proof -
  have S: "mset_set S = add_mset x (mset_set (S - {x}))"
    using assms by (simp add: keyed_def mset_set.remove)
  with assms have "(hf (key x), x) \<in># bag t" by (simp add: keyed_def)
  with rem_ok [of t "(hf (key x), x)"] assms S show ?thesis by (auto simp: keyed_def inj_on_diff)
qed

lemma keyed_repl:
  assumes "keyed ok bag key hf t S" "x \<in> S" "key y = key x"
  shows "\<exists>t'. repl t (hf (key x), x) y = Some t' \<and> keyed ok bag key hf t' (insert y (S - {x}))"
proof -
  have S: "mset_set S = add_mset x (mset_set (S - {x}))"
    using assms by (simp add: keyed_def mset_set.remove)
  with assms have "(hf (key x), x) \<in># bag t" by (simp add: keyed_def)
  moreover have "y \<notin> S - {x}" using assms by (auto simp: keyed_def inj_on_def)
  moreover have "inj_on key (insert y (S - {x}))" using assms by (auto simp: keyed_def inj_on_def)
  ultimately show ?thesis
    using repl_ok [of t "(hf (key x), x)" y] assms S by (auto simp: keyed_def)
qed

lemma keyed_look:
  assumes "keyed ok bag key hf t S"
  shows "find (\<lambda>nd. key (snd nd) = k) (at_hash t (hf k)) = Some nd \<longleftrightarrow>
      nd = (hf k, snd nd) \<and> snd nd \<in> S \<and> key (snd nd) = k" (is "?f = _ \<longleftrightarrow> _")
    and "find (\<lambda>nd. key (snd nd) = k) (at_hash t (hf k)) = None \<longleftrightarrow> k \<notin> key ` S"
proof -
  have "set (at_hash t (hf k)) = {nd. fst nd = hf k \<and> nd \<in># bag t}"
    using arg_cong [OF at_hash_ok [of t "hf k"], of set_mset] assms by (auto simp: keyed_def)
  then have *: "set (at_hash t (hf k)) = {nd. fst nd = hf k \<and> fst nd = hf (key (snd nd)) \<and> snd nd \<in> S}"
    using assms by (auto simp: keyed_def)
  then show "?f = None \<longleftrightarrow> k \<notin> key ` S" by (auto simp: find_None_iff)
  have some: "\<exists>nd. ?f = Some nd" if "x \<in> S" "key x = k" for x
    using that * by (cases ?f) (auto simp: find_None_iff)
  have sound: "fst nd = hf k \<and> snd nd \<in> S \<and> key (snd nd) = k" if "?f = Some nd" for nd
    using that nth_mem [of _ "at_hash t (hf k)"] unfolding find_Some_iff * by auto
  show "?f = Some nd \<longleftrightarrow> nd = (hf k, snd nd) \<and> snd nd \<in> S \<and> key (snd nd) = k"
  proof
    assume r: "nd = (hf k, snd nd) \<and> snd nd \<in> S \<and> key (snd nd) = k"
    with some obtain nd' where nd': "?f = Some nd'" by blast
    have "snd nd' = snd nd" using sound [OF nd'] r assms by (auto simp: keyed_def inj_on_def)
    with sound [OF nd'] r nd' show "?f = Some nd" by (metis prod.collapse)
  qed (use sound in \<open>metis prod.collapse\<close>)
qed

lemma keyed_each:
  assumes "keyed ok bag key hf t S"
  shows "\<exists>xs. each t = Some (map (\<lambda>x. (hf (key x), x)) xs) \<and> distinct xs \<and> set xs = S"
proof -
  obtain ns where ns: "each t = Some ns" "mset ns = image_mset (\<lambda>x. (hf (key x), x)) (mset_set S)"
    using each_ok [of t] assms by (auto simp: keyed_def)
  have fin: "finite S" using assms by (simp add: keyed_def)
  from ns(2) have "mset (map snd ns) = mset_set S" by (simp add: image_mset.compositionality comp_def)
  note m = this
  have s: "set (map snd ns) = S" using arg_cong [OF m, of set_mset] fin by simp
  have d: "distinct (map snd ns)"
    unfolding distinct_count_atmost_1 m using fin s by (simp add: count_mset_set')
  have sn: "set ns = (\<lambda>x. (hf (key x), x)) ` S" using arg_cong [OF ns(2), of set_mset] fin by simp
  have "map (\<lambda>nd. (hf (key (snd nd)), snd nd)) ns = ns" by (rule map_idI) (use sn in auto)
  then have eq: "map (\<lambda>x. (hf (key x), x)) (map snd ns) = ns" by (simp add: comp_def)
  have "each t = Some (map (\<lambda>x. (hf (key x), x)) (map snd ns))" unfolding eq by (rule ns(1))
  with d s show ?thesis by blast
qed

text \<open>The loop that removes and frees every node.\<close>

lemma keyed_drain_list:
  "keyed ok bag key hf t (set xs) \<Longrightarrow> distinct xs \<Longrightarrow>
     \<exists>t'. fold_opt (\<lambda>nd h. rem h nd) (map (\<lambda>x. (hf (key x), x)) xs) t = Some t' \<and> keyed ok bag key hf t' {}"
proof (induction xs arbitrary: t)
  case (Cons x xs)
  from keyed_rem [OF Cons.prems(1), of x] obtain t1 where
    t1: "rem t (hf (key x), x) = Some t1" "keyed ok bag key hf t1 (set (x # xs) - {x})" by auto
  have "set (x # xs) - {x} = set xs" using Cons.prems(2) by auto
  with Cons.IH [of t1] t1 Cons.prems(2) show ?case by simp
qed simp

lemma keyed_drain:
  assumes "keyed ok bag key hf t S"
  shows "\<exists>ns t'. each t = Some ns \<and> fold_opt (\<lambda>nd h. rem h nd) ns t = Some t' \<and> keyed ok bag key hf t' {}"
proof -
  obtain xs where xs: "each t = Some (map (\<lambda>x. (hf (key x), x)) xs)" "distinct xs" "set xs = S"
    using keyed_each [OF assms] by blast
  with assms have "keyed ok bag key hf t (set xs)" by simp
  from keyed_drain_list [OF this xs(2)] xs(1) show ?thesis by blast
qed

lemma keyed_unique: "keyed ok bag key hf t S \<Longrightarrow> keyed ok bag key hf t T \<Longrightarrow> S = T"
proof -
  have "snd ` set_mset (bag t) = S" if "keyed ok bag key hf t S" for S
    using that by (simp add: keyed_def image_image)
  then show "keyed ok bag key hf t S \<Longrightarrow> keyed ok bag key hf t T \<Longrightarrow> S = T" by blast
qed

end

interpretation hm: node_table hmap_ok hmap_bag hmap_init hmap_insert hmap_remove hmap_replace
  hmap_for_each_with_hash hmap_for_each
proof unfold_locales
  fix t :: "'a hmap" and x h nd y
  show "hmap_ok t \<Longrightarrow> size (hmap_bag t) < 2 ^ 64 - 1 \<Longrightarrow>
      \<exists>t'. hmap_insert t x h = Some t' \<and> hmap_ok t' \<and> hmap_bag t' = add_mset (h, x) (hmap_bag t)"
    using hmap_insert_ok [of t x h] by (auto simp: hmap_room_def)
  show "hmap_ok t \<Longrightarrow> nd \<in># hmap_bag t \<Longrightarrow>
      \<exists>t'. hmap_remove t nd = Some t' \<and> hmap_ok t' \<and> hmap_bag t' = hmap_bag t - {#nd#}"
    by (rule hmap_remove_ok)
  show "hmap_ok t \<Longrightarrow> nd \<in># hmap_bag t \<Longrightarrow>
      \<exists>t'. hmap_replace t nd y = Some t' \<and> hmap_ok t' \<and> hmap_bag t' = add_mset (fst nd, y) (hmap_bag t - {#nd#})"
    by (rule hmap_replace_ok)
  show "hmap_ok t \<Longrightarrow> mset (hmap_for_each_with_hash t h) = filter_mset (\<lambda>nd. fst nd = h) (hmap_bag t)"
    by (simp add: hmap_for_each_with_hash_ok hmap_bag_def)
  show "hmap_ok t \<Longrightarrow> \<exists>ns. hmap_for_each t = Some ns \<and> mset ns = hmap_bag t"
    by (simp add: hmap_for_each_ok hmap_bag_def)
qed simp_all

abbreviation holds :: "('a \<Rightarrow> 'k) \<Rightarrow> ('k \<Rightarrow> u64) \<Rightarrow> 'a hmap \<Rightarrow> 'a set \<Rightarrow> bool" where
  "holds \<equiv> keyed hmap_ok hmap_bag"

lemma holds_inj: "holds key hf h S \<Longrightarrow> inj_on key S"
  by (simp add: keyed_def)

lemma holds_finite: "holds key hf h S \<Longrightarrow> finite S"
  by (simp add: keyed_def)

lemma holds_count: "holds key hf h S \<Longrightarrow> unat (hmap_count h) = card S"
  using size_hmap_bag [of h] by (simp add: keyed_def hmap_count_def)

lemma holds_shrink:
  "holds key hf h S \<Longrightarrow> \<exists>h'. hmap_shrink h = Some h' \<and> holds key hf h' S"
  using hmap_shrink_ok [of h] by (auto simp: keyed_def)

section \<open>Iteration by position\<close>

definition position_ok :: "'a hmap \<Rightarrow> nat \<Rightarrow> nat \<Rightarrow> bool" where
  "position_ok h b ofs \<longleftrightarrow> b \<le> length (hm_buckets h) \<and>
     (ofs = 0 \<or> b < length (hm_buckets h) \<and> ofs < length (hm_buckets h ! b))"

definition nodes_from :: "'a hmap \<Rightarrow> nat \<Rightarrow> nat \<Rightarrow> 'a hmap_node list" where
  "nodes_from h b ofs = drop ofs (concat (drop b (hm_buckets h)))"

definition position_step :: "'a hmap \<Rightarrow> nat \<Rightarrow> nat \<Rightarrow> 'a hmap_node option \<times> u32 \<times> u32 \<Rightarrow> bool" where
  "position_step h b ofs r \<longleftrightarrow>
     (if nodes_from h b ofs = [] then r = (None, 0, 0)
      else \<exists>b' ofs'. r = (Some (hd (nodes_from h b ofs)), of_nat b', of_nat ofs')
         \<and> position_ok h b' ofs' \<and> nodes_from h b' ofs' = tl (nodes_from h b ofs))"

lemma position_stepI:
  "nodes_from h b ofs = nd # ns \<Longrightarrow> position_ok h b' ofs' \<Longrightarrow> nodes_from h b' ofs' = ns \<Longrightarrow>
     position_step h b ofs (Some nd, of_nat b', of_nat ofs')"
  by (auto simp: position_step_def)

lemma hmap_mask_less: "hmap_ok h \<Longrightarrow> unat (hm_mask h) + 1 < 2 ^ 64"
proof (rule ccontr)
  assume "hmap_ok h" "\<not> unat (hm_mask h) + 1 < 2 ^ 64"
  moreover from this have "unat (hm_mask h) + 1 = 2 ^ 64"
    using unsigned_less [of "hm_mask h", where ?'a = nat] by simp
  ultimately have "unat (hm_mask h + 1) = 0" by (simp add: unat_word_ariths)
  with \<open>hmap_ok h\<close> show False by (simp add: hmap_ok_def is_pow2_def unat_eq_0)
qed

lemma at_position_found:
  assumes ok: "hmap_ok h" and b: "b < length (hm_buckets h)" and ofs: "ofs < length (hm_buckets h ! b)"
  shows "position_step h b ofs (at_position_scan h (drop b (hm_buckets h)) ofs)"
proof -
  let ?c = "hm_buckets h ! b"
  let ?nd = "?c ! ofs"
  have "bucket_of h (fst ?nd) = b" using in_bucketD [OF ok _ b] ofs by simp
  then have u: "unat (fst ?nd AND hm_mask h) = b" by (simp add: bucket_of_def)
  then have b1: "ucast (fst ?nd AND hm_mask h) = (of_nat b :: u32)" by (metis of_nat_unat)
  have "unat (hm_mask h) + 1 < 2 ^ 64" by (rule hmap_mask_less [OF ok])
  then have "unat ((fst ?nd AND hm_mask h) + 1) = Suc b"
    using b ok u by (simp add: unat_word_ariths hmap_ok_def)
  then have b2: "ucast ((fst ?nd AND hm_mask h) + 1) = (of_nat (Suc b) :: u32)" by (metis of_nat_unat)
  have d: "drop b (hm_buckets h) = ?c # drop (Suc b) (hm_buckets h)" using b by (simp add: Cons_nth_drop_Suc)
  have n: "nodes_from h b ofs = drop ofs ?c @ concat (drop (Suc b) (hm_buckets h))"
    using ofs by (simp add: nodes_from_def d)
  have dc: "drop ofs ?c = ?nd # drop (Suc ofs) ?c" using ofs by (simp add: Cons_nth_drop_Suc)
  note r = n [unfolded dc, simplified]
  show ?thesis
  proof (cases "Suc ofs < length ?c")
    case True
    then have "at_position_scan h (drop b (hm_buckets h)) ofs = (Some ?nd, of_nat b, of_nat (Suc ofs))"
      using ofs by (simp add: d b1 Let_def)
    moreover have "position_ok h b (Suc ofs)" using True b by (simp add: position_ok_def)
    ultimately show ?thesis
      using True position_stepI [OF r, of b "Suc ofs"] by (simp add: nodes_from_def d)
  next
    case False
    then have "at_position_scan h (drop b (hm_buckets h)) ofs = (Some ?nd, of_nat (Suc b), of_nat 0)"
      using ofs b2 by (simp add: d Let_def)
    moreover have "position_ok h (Suc b) 0" using b by (simp add: position_ok_def)
    ultimately show ?thesis
      using False position_stepI [OF r, of "Suc b" 0] by (simp add: nodes_from_def)
  qed
qed

lemma at_position_scan_ok:
  assumes ok: "hmap_ok h"
  shows "position_ok h b ofs \<Longrightarrow> position_step h b ofs (at_position_scan h (drop b (hm_buckets h)) ofs)"
proof (induction "length (hm_buckets h) - b" arbitrary: b ofs)
  case 0
  then show ?case by (simp add: position_ok_def position_step_def nodes_from_def)
next
  case (Suc n)
  then have b: "b < length (hm_buckets h)" by simp
  show ?case
  proof (cases "ofs < length (hm_buckets h ! b)")
    case True
    then show ?thesis by (rule at_position_found [OF ok b])
  next
    case False
    then have e: "ofs = 0" "hm_buckets h ! b = []" using Suc.prems by (auto simp: position_ok_def)
    have d: "drop b (hm_buckets h) = [] # drop (Suc b) (hm_buckets h)"
      using b e by (metis Cons_nth_drop_Suc)
    have "position_step h (Suc b) 0 (at_position_scan h (drop (Suc b) (hm_buckets h)) 0)"
      by (rule Suc.hyps(1)) (use Suc.hyps(2) b in \<open>auto simp: position_ok_def\<close>)
    moreover have "nodes_from h b 0 = nodes_from h (Suc b) 0" by (simp add: nodes_from_def d)
    ultimately show ?thesis by (simp add: d e position_step_def)
  qed
qed

lemma hmap_at_position_ok:
  assumes ok: "hmap_ok h" and small: "unat (hm_mask h) + 1 < 2 ^ 32" "unat (hm_n h) < 2 ^ 32"
    and p: "position_ok h b ofs"
  shows "position_step h b ofs (hmap_at_position h (of_nat b, of_nat ofs))"
proof -
  have "b < 2 ^ 32" using p small ok by (simp add: position_ok_def hmap_ok_def)
  moreover have "ofs < 2 ^ 32"
  proof (cases "ofs = 0")
    case False
    then have b: "b < length (hm_buckets h)" "ofs < length (hm_buckets h ! b)"
      using p by (auto simp: position_ok_def)
    have "length (hm_buckets h ! b) \<le> length (hmap_nodes h)"
      unfolding hmap_nodes_def length_concat using b(1) by (intro member_le_sum_list) simp_all
    with b(2) small(2) ok show ?thesis by (simp add: hmap_ok_def)
  qed simp
  ultimately show ?thesis
    using at_position_scan_ok [OF ok p] by (simp add: hmap_at_position_def unat_of_nat)
qed

lemma positions_ok:
  assumes ok: "hmap_ok h" and small: "unat (hm_mask h) + 1 < 2 ^ 32" "unat (hm_n h) < 2 ^ 32"
  shows "position_ok h b ofs \<Longrightarrow>
    positions h (length (nodes_from h b ofs) + 1) (of_nat b, of_nat ofs) = map Some (nodes_from h b ofs) @ [None]"
proof (induction "nodes_from h b ofs" arbitrary: b ofs)
  case Nil
  then show ?case using hmap_at_position_ok [OF ok small Nil.prems] by (simp add: position_step_def)
next
  case (Cons nd ns)
  then obtain b' ofs' where "hmap_at_position h (of_nat b, of_nat ofs) = (Some nd, of_nat b', of_nat ofs')"
    "position_ok h b' ofs'" "nodes_from h b' ofs' = ns"
    using hmap_at_position_ok [OF ok small Cons.prems] by (auto simp: position_step_def split: if_splits) (metis list.sel)
  then show ?case using Cons.hyps(1) [of b' ofs'] Cons.hyps(2) [symmetric] by simp
qed


text \<open>
  \<open>HMAP_FOR_EACH_POP\<close> begins at bucket 0 and never goes back, so the buckets below the
  current one are empty: a step takes a node out of the map, or the map is empty.
\<close>

lemma hmap_pop_helper_ok:
  assumes ok: "hmap_ok h"
  shows "\<forall>j < i. j < length (hm_buckets h) \<longrightarrow> hm_buckets h ! j = [] \<Longrightarrow>
    (\<exists>i' nd h'. hmap_pop_helper h i = Some (h', i', nd) \<and> hmap_ok h' \<and>
       (case nd of None \<Rightarrow> hmap_bag h = {#} \<and> h' = h
        | Some nd \<Rightarrow> hmap_bag h = add_mset nd (hmap_bag h')))"
proof (induction "length (hm_buckets h) - i" arbitrary: i)
  case 0
  then have "hmap_bag h = {#}"
    by (auto simp: hmap_bag_def hmap_nodes_def in_set_conv_nth)
  with 0 ok show ?case by (subst hmap_pop_helper.simps) (simp add: hmap_ok_def)
next
  case (Suc n)
  then have i: "i < length (hm_buckets h)" by simp
  with ok have m: "i \<le> unat (hm_mask h)" by (simp add: hmap_ok_def)
  show ?case
  proof (cases "hm_buckets h ! i")
    case Nil
    have "hmap_pop_helper h i = hmap_pop_helper h (i + 1)" by (subst hmap_pop_helper.simps) (simp add: m Nil)
    with Suc.hyps(1) [of "i + 1"] Suc.hyps(2) Suc.prems Nil show ?thesis by (force simp: less_Suc_eq)
  next
    case (Cons nd r)
    have nd: "nd \<in># hmap_bag h"
      using nth_mem [OF i] Cons by (auto simp: hmap_bag_def hmap_nodes_def intro!: bexI [of _ "nd # r"])
    from hmap_remove_ok [OF ok nd] nd obtain h' where "hmap_remove h nd = Some h'" "hmap_ok h'"
      "hmap_bag h = add_mset nd (hmap_bag h')" by auto
    then show ?thesis by (subst hmap_pop_helper.simps) (simp add: m Cons)
  qed
qed

section \<open>Properties of the map\<close>

lemma unat_mask_u64: "m \<le> 64 \<Longrightarrow> unat (mask m :: u64) = mask m"
  by (rule bit_eqI) (auto simp: bit_unsigned_iff bit_mask_iff)

lemma calc_mask_le: "calc_mask n \<le> n \<or> calc_mask n = 3"
proof (rule calc_mask_cases [of n])
  fix k assume k: "bit (n div 2) k" "k < 63" "calc_mask n = mask (max (Suc k) 2)"
  show ?thesis
  proof (cases k)
    case 0
    then have "calc_mask n = mask 2" using k(3) by (simp add: numeral_2_eq_2)
    also have "mask 2 = (3 :: u64)" by (simp add: mask_eq_exp_minus_1)
    finally show ?thesis ..
  next
    case (Suc j)
    have "bit (unat (n div 2)) k" using k(1) by (simp only: bit_unsigned_iff) simp
    then have "unat (n div 2) div 2 ^ k \<noteq> 0" unfolding bit_iff_odd by (metis even_zero)
    then have "2 ^ k \<le> unat (n div 2)" by (metis div_less not_le)
    then have "2 ^ Suc k \<le> unat n" by (simp add: unat_div)
    moreover have "unat (mask (Suc k) :: u64) < 2 ^ Suc k"
      using k(2) unat_mask_u64 [of "Suc k"] mask_nat_less_exp [of "Suc k"] by simp
    ultimately have "mask (Suc k) \<le> n" by (simp add: word_le_nat_alt)
    moreover have "max (Suc k) 2 = Suc k" using Suc by simp
    ultimately show ?thesis using k(3) by metis
  qed
qed simp

text \<open>
  \<^bold>\<open>C20\<close>: For every number of nodes \<open>n\<close>, \<open>calc_mask\<close> returns one less than a power of two,
  so that the assertion in \<open>resize\<close> holds; there are at least \<open>n / 2\<close> and at most \<open>n\<close> buckets
  beyond the first, except that a map with more than one bucket has at least four.
\<close>

theorem calc_mask_bounds:
  "is_pow2 (calc_mask n + 1) \<and> n div 2 \<le> calc_mask n \<and> (calc_mask n \<le> n \<or> calc_mask n = 3)"
  by (intro conjI calc_mask_pow2 calc_mask_ge calc_mask_le)

lemma hmap_count_bag: "hmap_ok h \<Longrightarrow> hmap_ok h' \<Longrightarrow> hmap_bag h' = add_mset nd (hmap_bag h) \<Longrightarrow>
    hmap_count h' = hmap_count h + 1"
proof -
  assume "hmap_ok h" "hmap_ok h'" "hmap_bag h' = add_mset nd (hmap_bag h)"
  then have "unat (hm_n h') = unat (hm_n h) + 1" using size_hmap_bag [of h] size_hmap_bag [of h'] by simp
  moreover from this have "unat (hm_n h + 1) = unat (hm_n h')"
    using unsigned_less [of "hm_n h'", where ?'a = nat] by (simp add: unat_word_ariths)
  ultimately show ?thesis by (simp add: hmap_count_def word_unat_eq_iff)
qed

text \<open>
  \<^bold>\<open>C17\<close>: Inserting a node into a well-formed map never fails an assertion and keeps the map
  well formed, also when the array of buckets is reallocated. The new map has one node more, at
  most two nodes per bucket on average, and a search by hash finds the old nodes and the new one.
\<close>

theorem hmap_insert_correct:
  assumes "hmap_ok h" "unat (hmap_count h) < 2 ^ 64 - 1"
  shows "\<exists>h'. hmap_insert h x k = Some h' \<and> hmap_ok h' \<and> hmap_count h' = hmap_count h + 1 \<and>
    hmap_count h' div 2 \<le> hm_mask h' \<and>
    (\<forall>j. mset (hmap_for_each_with_hash h' j) =
       mset (hmap_for_each_with_hash h j) + (if j = k then {#(k, x)#} else {#}))"
proof -
  have "hmap_room h" using assms size_hmap_bag [of h] by (simp add: hmap_room_def hmap_count_def)
  from hmap_insert_ok [OF assms(1) this] obtain h' where h': "hmap_insert h x k = Some h'" "hmap_ok h'"
    "hmap_bag h' = add_mset (k, x) (hmap_bag h)" "hm_n h' div 2 \<le> hm_mask h'" by blast
  moreover note hmap_count_bag [OF assms(1) h'(2,3)]
  ultimately show ?thesis
    using hm.at_hash_ok [OF assms(1)] hm.at_hash_ok [OF h'(2)] by (auto simp: hmap_count_def)
qed

theorem hmap_insert_correct_witness:
  "\<exists>h'. hmap_insert (hmap_init :: nat hmap) 5 3 = Some h' \<and> hmap_ok h'"
proof -
  have "hmap_count (hmap_init :: nat hmap) = 0" by (simp add: hmap_count_def hmap_init_def)
  with hmap_insert_correct [of "hmap_init :: nat hmap" 5 3] show ?thesis by auto
qed

text \<open>
  \<^bold>\<open>C18\<close>: Removing a node from a well-formed map takes exactly that node away; if the node is not
  in the map, the walk along the chain runs past its end.
\<close>

theorem hmap_remove_correct:
  assumes "hmap_ok h"
  shows "if hmap_contains h nd
    then \<exists>h'. hmap_remove h nd = Some h' \<and> hmap_ok h' \<and> hmap_count h = hmap_count h' + 1 \<and>
      (\<forall>j. mset (hmap_for_each_with_hash h j) =
         mset (hmap_for_each_with_hash h' j) + (if j = fst nd then {#nd#} else {#}))
    else hmap_remove h nd = None"
proof (cases "nd \<in># hmap_bag h")
  case True
  from hmap_remove_ok [OF assms True] obtain h' where h': "hmap_remove h nd = Some h'" "hmap_ok h'"
    "hmap_bag h' = hmap_bag h - {#nd#}" by blast
  then have b: "hmap_bag h = add_mset nd (hmap_bag h')" using True by simp
  then show ?thesis
    using h' hm.at_hash_ok [OF assms] hm.at_hash_ok [OF h'(2)] hmap_count_bag [OF h'(2) assms b] True assms
    by (auto simp: hmap_contains_iff)
next
  case False
  then show ?thesis using assms by (simp add: hmap_contains_iff hmap_remove_absent)
qed

theorem hmap_remove_correct_witness:
  "hmap_remove (hmap_insert_fast hmap_init (5 :: nat) 3) (3, 5) \<noteq> None"
proof -
  have "hmap_ok (hmap_insert_fast hmap_init (5 :: nat) 3)"
    by (rule hmap_insert_fast_ok) (simp_all add: hmap_room_def)
  from hmap_remove_correct [OF this, of "(3, 5)"] show ?thesis
    by (auto simp: hmap_contains_def hmap_first_in_bucket_def hmap_insert_fast_def hmap_init_def bucket_of_def)
qed

text \<open>
  \<^bold>\<open>C19\<close>: Repeated calls of \<open>hmap_at_position\<close> from the zero position return every node of the map
  once, in the order of \<open>HMAP_FOR_EACH\<close>, and then NULL, as long as the number of buckets and
  of nodes fits into the 32-bit members of the position.
\<close>

theorem hmap_at_position_enumerates:
  assumes "hmap_ok h" "unat (hm_mask h) + 1 < 2 ^ 32" "unat (hmap_count h) < 2 ^ 32"
  shows "\<exists>ns. hmap_for_each h = Some ns \<and> mset ns = hmap_bag h \<and>
    positions h (length ns + 1) (0, 0) = map Some ns @ [None]"
  using positions_ok [of h 0 0] assms hmap_for_each_ok [OF assms(1)]
  by (simp add: position_ok_def nodes_from_def hmap_nodes_def [symmetric] hmap_count_def hmap_bag_def)

theorem hmap_at_position_enumerates_witness:
  "\<exists>ns. hmap_for_each (hmap_insert_fast hmap_init (5 :: nat) 3) = Some ns \<and>
    positions (hmap_insert_fast hmap_init (5 :: nat) 3) (length ns + 1) (0, 0) = map Some ns @ [None]"
proof -
  have "hmap_ok (hmap_insert_fast hmap_init (5 :: nat) 3)"
    by (rule hmap_insert_fast_ok) (simp_all add: hmap_room_def)
  from hmap_at_position_enumerates [OF this] show ?thesis
    by (auto simp: hmap_insert_fast_def hmap_init_def hmap_count_def)
qed

end
