(* ===== verification/Uuid.thy ===== *)
theory Uuid
  imports Ovn_Prelude
begin

text \<open>
  UUIDs (\<open>ovs/lib/uuid.c\<close>, \<open>ovs/lib/uuid.h\<close>), the hexadecimal parser of
  \<open>ovs/lib/util.c\<close> that they use, and the hash functions of \<open>ovs/lib/hash.h\<close> in the
  portable version, for processors without a CRC32 instruction.

  A C string is a HOL string without the terminating null byte; \<open>char_at\<close> reads a byte of
  it, the null byte at the end included, and fails beyond. The theorems show that printing
  and parsing are inverse, that parsing never reads beyond the end of the string, and that
  the order of UUIDs is the order of their string representations.
\<close>

section \<open>Strings\<close>

definition char_at :: "string \<Rightarrow> nat \<Rightarrow> char option" where
  "char_at s i =
     (if i < length s then Some (s ! i) else if i = length s then Some (CHR 0x00) else None)"

definition hexit_value :: "char \<Rightarrow> int" where
  "hexit_value c =
     (let x = of_char c in
      if 48 \<le> x \<and> x \<le> 57 then x - 48
      else if 97 \<le> x \<and> x \<le> 102 then x - 97 + 10
      else if 65 \<le> x \<and> x \<le> 70 then x - 65 + 10
      else -1)"

fun hexits_loop :: "string \<Rightarrow> nat \<Rightarrow> nat \<Rightarrow> u64 \<Rightarrow> (u64 \<times> bool) option" where
  "hexits_loop s i 0 value = Some (value, True)"
| "hexits_loop s i (Suc k) value =
     (case char_at s i of
        None \<Rightarrow> None
      | Some c \<Rightarrow>
          (if hexit_value c < 0 then Some (-1, False)
           else hexits_loop s (i + 1) k (push_bit 4 value + of_int (hexit_value c))))"

text \<open>\<open>hexits_value s i n\<close> is the call \<open>hexits_value(s + i, n, &ok)\<close>: the result and \<open>ok\<close>.\<close>

definition hexits_value :: "string \<Rightarrow> nat \<Rightarrow> nat \<Rightarrow> (u64 \<times> bool) option" where
  "hexits_value s i n = hexits_loop s i n 0"

section \<open>UUIDs\<close>

record uuid =
  part0 :: u32
  part1 :: u32
  part2 :: u32
  part3 :: u32

definition uuid_zero :: uuid where
  "uuid_zero = \<lparr>part0 = 0, part1 = 0, part2 = 0, part3 = 0\<rparr>"

definition uuid_is_zero :: "uuid \<Rightarrow> bool" where
  "uuid_is_zero u \<longleftrightarrow> part0 u = 0 \<and> part1 u = 0 \<and> part2 u = 0 \<and> part3 u = 0"

definition uuid_equals :: "uuid \<Rightarrow> uuid \<Rightarrow> bool" where
  "uuid_equals a b \<longleftrightarrow>
     part0 a = part0 b \<and> part1 a = part1 b \<and> part2 a = part2 b \<and> part3 a = part3 b"

definition uuid_hash :: "uuid \<Rightarrow> u64" where
  "uuid_hash u = ucast (part0 u)"

definition uuid_prefix :: "uuid \<Rightarrow> nat \<Rightarrow> u32" where
  "uuid_prefix u digits = drop_bit (32 - 4 * digits) (part0 u)"

definition uuid_set_bits_v4 :: "uuid \<Rightarrow> uuid" where
  "uuid_set_bits_v4 u =
     u\<lparr>part2 := (part2 u AND NOT 0xc0000000) OR 0x80000000,
       part1 := (part1 u AND NOT 0x0000f000) OR 0x00004000\<rparr>"

definition part_compare :: "u32 \<Rightarrow> u32 \<Rightarrow> int" where
  "part_compare a b = (if a > b then 1 else -1)"

definition uuid_compare_3way :: "uuid \<Rightarrow> uuid \<Rightarrow> int" where
  "uuid_compare_3way a b =
     (if part0 a \<noteq> part0 b then part_compare (part0 a) (part0 b)
      else if part1 a \<noteq> part1 b then part_compare (part1 a) (part1 b)
      else if part2 a \<noteq> part2 b then part_compare (part2 a) (part2 b)
      else if part3 a \<noteq> part3 b then part_compare (part3 a) (part3 b)
      else 0)"

text \<open>
  The conversion \<open>%0nx\<close> of \<open>printf\<close> for a value of at most \<open>n\<close> hexadecimal digits.
\<close>

definition hex_digit :: "nat \<Rightarrow> char" where
  "hex_digit d = char_of (if d < 10 then 48 + d else 87 + d)"

fun fmt_hex :: "nat \<Rightarrow> nat \<Rightarrow> string" where
  "fmt_hex 0 v = []"
| "fmt_hex (Suc n) v = fmt_hex n (v div 16) @ [hex_digit (v mod 16)]"

definition UUID_LEN :: nat where
  "UUID_LEN = 36"

definition uuid_to_string :: "uuid \<Rightarrow> string" where
  "uuid_to_string u =
     fmt_hex 8 (unat (part0 u)) @ ''-'' @
     fmt_hex 4 (unat (drop_bit 16 (part1 u))) @ ''-'' @
     fmt_hex 4 (unat (part1 u AND 0xffff)) @ ''-'' @
     fmt_hex 4 (unat (drop_bit 16 (part2 u))) @ ''-'' @
     fmt_hex 4 (unat (part2 u AND 0xffff)) @
     fmt_hex 8 (unat (part3 u))"

text \<open>
  The result is the UUID and the returned truth value; on failure the UUID is all zeros.
\<close>

definition uuid_from_string_prefix :: "string \<Rightarrow> (uuid \<times> bool) option" where
  "uuid_from_string_prefix s =
     do {
       (v0, ok) \<leftarrow> hexits_value s 0 8;
       if \<not> ok then Some (uuid_zero, False) else do {
       c8 \<leftarrow> char_at s 8;
       if c8 \<noteq> CHR ''-'' then Some (uuid_zero, False) else do {
       (v1, ok) \<leftarrow> hexits_value s 9 4;
       if \<not> ok then Some (uuid_zero, False) else do {
       c13 \<leftarrow> char_at s 13;
       if c13 \<noteq> CHR ''-'' then Some (uuid_zero, False) else do {
       (v2, ok) \<leftarrow> hexits_value s 14 4;
       if \<not> ok then Some (uuid_zero, False) else do {
       c18 \<leftarrow> char_at s 18;
       if c18 \<noteq> CHR ''-'' then Some (uuid_zero, False) else do {
       (v3, ok) \<leftarrow> hexits_value s 19 4;
       if \<not> ok then Some (uuid_zero, False) else do {
       c23 \<leftarrow> char_at s 23;
       if c23 \<noteq> CHR ''-'' then Some (uuid_zero, False) else do {
       (v4, ok) \<leftarrow> hexits_value s 24 4;
       if \<not> ok then Some (uuid_zero, False) else do {
       (v5, ok) \<leftarrow> hexits_value s 28 8;
       if \<not> ok then Some (uuid_zero, False)
       else Some (\<lparr>part0 = ucast v0,
                   part1 = ucast (push_bit 16 v1) + ucast v2,
                   part2 = ucast (push_bit 16 v3) + ucast v4,
                   part3 = ucast v5\<rparr>, True)}}}}}}}}}}"

definition uuid_from_string :: "string \<Rightarrow> (uuid \<times> bool) option" where
  "uuid_from_string s =
     do {
       (u, ok) \<leftarrow> uuid_from_string_prefix s;
       if \<not> ok then Some (u, False)
       else do {
         c \<leftarrow> char_at s UUID_LEN;
         if c \<noteq> CHR 0x00 then Some (uuid_zero, False) else Some (u, True)
       }
     }"

fun partial_string_loop :: "string \<Rightarrow> string \<Rightarrow> nat \<Rightarrow> int option" where
  "partial_string_loop s [] i =
     (case char_at s i of None \<Rightarrow> None | Some c \<Rightarrow> Some (if c \<noteq> CHR 0x00 then 0 else int i))"
| "partial_string_loop s (t # ts) i =
     (case char_at s i of
        None \<Rightarrow> None
      | Some c \<Rightarrow>
          (if c = CHR 0x00 then Some (int i)
           else if (if t = CHR ''x'' then hexit_value c < 0 else c \<noteq> CHR ''-'') then Some 0
           else partial_string_loop s ts (i + 1)))"

definition uuid_is_partial_string :: "string \<Rightarrow> int option" where
  "uuid_is_partial_string s = partial_string_loop s ''xxxxxxxx-xxxx-xxxx-xxxx-xxxxxxxxxxxx'' 0"

definition uuid_is_partial_match :: "uuid \<Rightarrow> string \<Rightarrow> nat" where
  "uuid_is_partial_match u m =
     (if strcmp (take (length m) (uuid_to_string u)) (take (length m) m) = 0 then length m else 0)"

section \<open>Hash functions\<close>

definition hash_rot :: "u32 \<Rightarrow> nat \<Rightarrow> u32" where
  "hash_rot x k = push_bit k x OR drop_bit (32 - k) x"

definition mhash_add' :: "u32 \<Rightarrow> u32 \<Rightarrow> u32" where
  "mhash_add' h data =
     (if data = 0 then h
      else h XOR (hash_rot (data * 0xcc9e2d51) 15 * 0x1b873593))"

definition mhash_add :: "u32 \<Rightarrow> u32 \<Rightarrow> u32" where
  "mhash_add h data = hash_rot (mhash_add' h data) 13 * 5 + 0xe6546b64"

definition mhash_finish :: "u32 \<Rightarrow> u32" where
  "mhash_finish h =
     (let h = h XOR drop_bit 16 h;
          h = h * 0x85ebca6b;
          h = h XOR drop_bit 13 h;
          h = h * 0xc2b2ae35
      in h XOR drop_bit 16 h)"

definition hash_add :: "u32 \<Rightarrow> u32 \<Rightarrow> u32" where
  "hash_add h data = mhash_add h data"

definition hash_finish :: "u32 \<Rightarrow> u32 \<Rightarrow> u32" where
  "hash_finish h final = mhash_finish (h XOR final)"

definition hash_2words :: "u32 \<Rightarrow> u32 \<Rightarrow> u32" where
  "hash_2words x y = hash_finish (hash_add (hash_add x 0) y) 8"

definition hash_int :: "u32 \<Rightarrow> u32 \<Rightarrow> u32" where
  "hash_int x basis = hash_2words x basis"

section \<open>Lemmas\<close>

lemma uuid_equals_iff [simp]: "uuid_equals a b \<longleftrightarrow> a = b"
  by (auto simp: uuid_equals_def)

lemma uuid_compare_3way_eq_0: "uuid_compare_3way a b = 0 \<longleftrightarrow> a = b"
  by (auto simp: uuid_compare_3way_def part_compare_def)

subsection \<open>Hexadecimal digits\<close>

lemma of_char_hex_digit: "d < 16 \<Longrightarrow> (of_char (hex_digit d) :: int) = (if d < 10 then 48 + int d else 87 + int d)"
proof -
  assume "d < 16"
  then show ?thesis by (subst of_nat_of_char [symmetric]) (simp add: hex_digit_def)
qed

lemma hexit_value_hex_digit [simp]: "d < 16 \<Longrightarrow> hexit_value (hex_digit d) = int d"
  by (simp add: hexit_value_def Let_def of_char_hex_digit)

lemma length_fmt_hex [simp]: "length (fmt_hex n v) = n"
  by (induction n arbitrary: v) auto

lemma char_at_append:
  "char_at (p @ c # q) (length p) = Some c"
  by (simp add: char_at_def)

definition hex_fold :: "string \<Rightarrow> u64 \<Rightarrow> u64" where
  "hex_fold ds v = fold (\<lambda>d v. push_bit 4 v + of_int (hexit_value d)) ds v"

lemma hexits_loop_digits:
  "\<forall>d \<in> set ds. hexit_value d \<ge> 0 \<Longrightarrow>
     hexits_loop (p @ ds @ q) (length p) (length ds) v = Some (hex_fold ds v, True)"
proof (induction ds arbitrary: p v)
  case (Cons d ds)
  have "char_at (p @ (d # ds) @ q) (length p) = Some d" by (simp add: char_at_append)
  with Cons.prems Cons.IH [of "p @ [d]"] show ?case by (simp add: hex_fold_def not_less)
qed (simp add: hex_fold_def)

lemma hexits_in_fmt_hex: "d \<in> set (fmt_hex n v) \<Longrightarrow> 0 \<le> hexit_value d"
  by (induction n arbitrary: v) auto

lemma hex_fold_fmt_hex: "v < 16 ^ n \<Longrightarrow> hex_fold (fmt_hex n v) a = a * 16 ^ n + of_nat v"
proof (induction n arbitrary: v)
  case (Suc n)
  have "v div 16 < 16 ^ n" using Suc.prems by (simp add: div_less_iff_less_mult)
  then have "hex_fold (fmt_hex (Suc n) v) a = push_bit 4 (a * 16 ^ n + of_nat (v div 16)) + of_nat (v mod 16)"
    using Suc.IH [of "v div 16"] by (simp add: hex_fold_def)
  moreover have "(of_nat v :: u64) = 16 * of_nat (v div 16) + of_nat (v mod 16)"
    by (metis mult_div_mod_eq of_nat_add of_nat_mult of_nat_numeral)
  ultimately show ?case by (simp add: push_bit_eq_mult algebra_simps del: fmt_hex.simps)
qed (simp add: hex_fold_def)

lemma hexits_value_fmt_hex:
  "v < 16 ^ n \<Longrightarrow> i = length p \<Longrightarrow> hexits_value (p @ fmt_hex n v @ q) i n = Some (of_nat v, True)"
  using hexits_loop_digits [of "fmt_hex n v" p q 0]
  by (simp add: hexits_value_def hexits_in_fmt_hex hex_fold_fmt_hex)

subsection \<open>Printing and parsing\<close>

lemma unat_small_hex:
  fixes p :: u32
  shows "unat p < 16 ^ 8" "unat (drop_bit 16 p) < 16 ^ 4" "unat (p AND 0xffff) < 16 ^ 4"
proof -
  have p: "unat p < 2 ^ 32" using unsigned_less [of p, where ?'a = nat] by simp
  then show "unat p < 16 ^ 8" by simp
  have "unat p div 2 ^ 16 < 2 ^ 16" using p by (simp add: div_less_iff_less_mult)
  then show "unat (drop_bit 16 p) < 16 ^ 4" by (simp add: unat_drop_bit_eq unat_div drop_bit_eq_div)
  have "p AND 0xffff = take_bit 16 p" by (simp add: take_bit_eq_mask mask_eq_exp_minus_1)
  then have "unat (p AND 0xffff) = unat p mod 2 ^ 16" by (simp add: take_bit_eq_mod unat_mod)
  then show "unat (p AND 0xffff) < 16 ^ 4" by simp
qed

lemma halves:
  fixes p :: u32
  shows "ucast (push_bit 16 (of_nat (unat (drop_bit 16 p)) :: u64)) + ucast (of_nat (unat (p AND 0xffff)) :: u64) = p"
proof -
  have "ucast (push_bit 16 (of_nat (unat (drop_bit 16 p)) :: u64)) = push_bit 16 (drop_bit 16 p)"
    by (rule bit_eqI) (auto simp: bit_simps)
  moreover have "ucast (of_nat (unat (p AND 0xffff)) :: u64) = take_bit 16 p"
    by (rule bit_eqI) (auto simp: bit_simps take_bit_eq_mask mask_eq_exp_minus_1 bit_and_iff)
  moreover have "push_bit 16 (drop_bit 16 p) + take_bit 16 p = p"
    by (rule bits_ident)
  ultimately show ?thesis by simp
qed

lemma char_at_after: "i = length p \<Longrightarrow> char_at (p @ c # q) i = Some c"
  by (simp add: char_at_append)

text \<open>The parser on a string made of six blocks of digits.\<close>

lemma uuid_parse:
  assumes "a < 16 ^ 8" "b < 16 ^ 4" "c < 16 ^ 4" "d < 16 ^ 4" "e < 16 ^ 4" "f < 16 ^ 8"
  shows "uuid_from_string_prefix (fmt_hex 8 a @ ''-'' @ fmt_hex 4 b @ ''-'' @ fmt_hex 4 c @ ''-'' @
      fmt_hex 4 d @ ''-'' @ fmt_hex 4 e @ fmt_hex 8 f @ q) =
    Some (\<lparr>part0 = ucast (of_nat a :: u64),
      part1 = ucast (push_bit 16 (of_nat b :: u64)) + ucast (of_nat c :: u64),
      part2 = ucast (push_bit 16 (of_nat d :: u64)) + ucast (of_nat e :: u64),
      part3 = ucast (of_nat f :: u64)\<rparr>, True)"
    (is "uuid_from_string_prefix ?s = _")
proof -
  let ?A = "fmt_hex 8 a" and ?B = "fmt_hex 4 b" and ?C = "fmt_hex 4 c"
    and ?D = "fmt_hex 4 d" and ?E = "fmt_hex 4 e" and ?F = "fmt_hex 8 f"
  have "hexits_value ?s 0 8 = Some (of_nat a, True)"
    using hexits_value_fmt_hex [OF assms(1), of 0 "[]"] by simp
  moreover have "char_at ?s 8 = Some CHR ''-''" using char_at_after [of 8 ?A] by simp
  moreover have "hexits_value ?s 9 4 = Some (of_nat b, True)"
    using hexits_value_fmt_hex [OF assms(2), of 9 "?A @ ''-''"] by simp
  moreover have "char_at ?s 13 = Some CHR ''-''" using char_at_after [of 13 "?A @ ''-'' @ ?B"] by simp
  moreover have "hexits_value ?s 14 4 = Some (of_nat c, True)"
    using hexits_value_fmt_hex [OF assms(3), of 14 "?A @ ''-'' @ ?B @ ''-''"] by simp
  moreover have "char_at ?s 18 = Some CHR ''-''"
    using char_at_after [of 18 "?A @ ''-'' @ ?B @ ''-'' @ ?C"] by simp
  moreover have "hexits_value ?s 19 4 = Some (of_nat d, True)"
    using hexits_value_fmt_hex [OF assms(4), of 19 "?A @ ''-'' @ ?B @ ''-'' @ ?C @ ''-''"] by simp
  moreover have "char_at ?s 23 = Some CHR ''-''"
    using char_at_after [of 23 "?A @ ''-'' @ ?B @ ''-'' @ ?C @ ''-'' @ ?D"] by simp
  moreover have "hexits_value ?s 24 4 = Some (of_nat e, True)"
    using hexits_value_fmt_hex [OF assms(5), of 24 "?A @ ''-'' @ ?B @ ''-'' @ ?C @ ''-'' @ ?D @ ''-''"] by simp
  moreover have "hexits_value ?s 28 8 = Some (of_nat f, True)"
    using hexits_value_fmt_hex [OF assms(6), of 28 "?A @ ''-'' @ ?B @ ''-'' @ ?C @ ''-'' @ ?D @ ''-'' @ ?E"] by simp
  ultimately show ?thesis unfolding uuid_from_string_prefix_def by simp
qed

lemma length_uuid_to_string [simp]: "length (uuid_to_string u) = UUID_LEN"
  by (simp add: uuid_to_string_def UUID_LEN_def)

lemma ucast_up_down: "ucast (ucast p :: u64) = p" for p :: u32
  by (rule bit_eqI) (auto simp: bit_simps)

lemma uuid_roundtrip: "uuid_from_string_prefix (uuid_to_string u @ q) = Some (u, True)"
  using uuid_parse [OF unat_small_hex(1) [of "part0 u"] unat_small_hex(2) [of "part1 u"]
      unat_small_hex(3) [of "part1 u"] unat_small_hex(2) [of "part2 u"] unat_small_hex(3) [of "part2 u"]
      unat_small_hex(1) [of "part3 u"], of q]
  unfolding uuid_to_string_def halves by (simp add: ucast_up_down)

subsection \<open>Reading within the string\<close>

lemma char_at_total: "i \<le> length s \<Longrightarrow> \<exists>c. char_at s i = Some c \<and> (c \<noteq> CHR 0x00 \<longrightarrow> i < length s)"
  by (auto simp: char_at_def)

lemma hexits_loop_total:
  "i \<le> length s \<Longrightarrow> \<exists>v ok. hexits_loop s i n a = Some (v, ok) \<and> (ok \<longrightarrow> i + n \<le> length s)"
proof (induction n arbitrary: i a)
  case (Suc n)
  obtain c where c: "char_at s i = Some c" "c \<noteq> CHR 0x00 \<longrightarrow> i < length s"
    using char_at_total [OF Suc.prems] by blast
  show ?case
  proof (cases "hexit_value c < 0")
    case False
    have "hexit_value (CHR 0x00) < 0" by (simp add: hexit_value_def)
    then have "i < length s" using False c(2) by auto
    with Suc.IH [of "i + 1" "push_bit 4 a + of_int (hexit_value c)"] c False show ?thesis by auto
  qed (use c in auto)
qed auto

definition reads_within :: "string \<Rightarrow> (uuid \<times> bool) option \<Rightarrow> bool" where
  "reads_within s r \<longleftrightarrow>
     (case r of None \<Rightarrow> False | Some (u, ok) \<Rightarrow> if ok then UUID_LEN \<le> length s else u = uuid_zero)"

lemma reads_within_fail [simp]: "reads_within s (Some (uuid_zero, False))"
  by (simp add: reads_within_def)

lemma reads_within_hexits:
  assumes "i \<le> length s" "\<And>v. i + n \<le> length s \<Longrightarrow> reads_within s (k v)"
  shows "reads_within s (Option.bind (hexits_value s i n)
      (\<lambda>(v, ok). if \<not> ok then Some (uuid_zero, False) else k v))"
  using hexits_loop_total [OF assms(1), of n 0] assms(2)
  by (auto simp: hexits_value_def)

lemma reads_within_dash:
  assumes "i \<le> length s" "i + 1 \<le> length s \<Longrightarrow> reads_within s r"
  shows "reads_within s (Option.bind (char_at s i)
      (\<lambda>c. if c \<noteq> CHR ''-'' then Some (uuid_zero, False) else r))"
  using char_at_total [OF assms(1)] assms(2) by auto

lemma uuid_from_string_prefix_total: "reads_within s (uuid_from_string_prefix s)"
  unfolding uuid_from_string_prefix_def
  by (intro reads_within_hexits reads_within_dash) (simp_all add: reads_within_def UUID_LEN_def)

subsection \<open>The order\<close>

lemma strcmp_append:
  "length x = length x' \<Longrightarrow> strcmp (x @ y) (x' @ y') = (if x = x' then strcmp y y' else strcmp x x')"
  by (induction x x' rule: list_induct2) auto

lemma sgn_div_16:
  "a div 16 \<noteq> b div 16 \<Longrightarrow> sgn (int (a div 16) - int (b div 16)) = sgn (int a - int b)"
  by (auto simp: sgn_if)

lemma strcmp_fmt_hex:
  "a < 16 ^ n \<Longrightarrow> b < 16 ^ n \<Longrightarrow> sgn (strcmp (fmt_hex n a) (fmt_hex n b)) = sgn (int a - int b)"
proof (induction n arbitrary: a b)
  case (Suc n)
  have "a div 16 < 16 ^ n" "b div 16 < 16 ^ n" using Suc.prems by (simp_all add: div_less_iff_less_mult)
  note IH = Suc.IH [OF this]
  show ?case
  proof (cases "a div 16 = b div 16")
    case True
    have ab: "int a - int b = int (a mod 16) - int (b mod 16)"
      using True by (metis add_diff_cancel_left div_mult_mod_eq of_nat_add)
    have "a mod 16 < 16" "b mod 16 < 16" by simp_all
    then have "sgn (strcmp [hex_digit (a mod 16)] [hex_digit (b mod 16)]) = sgn (int (a mod 16) - int (b mod 16))"
      by (auto simp: of_char_hex_digit sgn_if simp flip: of_char_int_eq_iff)
    with True ab show ?thesis by (simp add: strcmp_append)
  next
    case False
    then have "strcmp (fmt_hex n (a div 16)) (fmt_hex n (b div 16)) \<noteq> 0"
      using IH by (auto simp: sgn_if split: if_splits)
    with IH show ?thesis using False by (simp add: strcmp_append sgn_div_16)
  qed
qed simp

lemma fmt_hex_inj: "a < 16 ^ n \<Longrightarrow> b < 16 ^ n \<Longrightarrow> fmt_hex n a = fmt_hex n b \<longleftrightarrow> a = b"
  using strcmp_fmt_hex [of a n b] by (auto simp: sgn_if split: if_splits)

lemma strcmp_block:
  assumes "a < 16 ^ n" "b < 16 ^ n"
  shows "sgn (strcmp (fmt_hex n a @ y) (fmt_hex n b @ y')) = (if a = b then sgn (strcmp y y') else sgn (int a - int b))"
  using assms by (simp add: strcmp_append strcmp_fmt_hex fmt_hex_inj)

lemma part_compare_sgn: "p \<noteq> p' \<Longrightarrow> part_compare p p' = sgn (int (unat p) - int (unat p'))"
  by (auto simp: part_compare_def word_less_def sgn_if word_uint_eq_iff)

lemma strcmp_part:
  "sgn (strcmp (fmt_hex 8 (unat p) @ y) (fmt_hex 8 (unat p') @ y')) =
     (if p = p' then sgn (strcmp y y') else part_compare p p')"
  using strcmp_block [OF unat_small_hex(1) [of p] unat_small_hex(1) [of p']] part_compare_sgn [of p p']
  by (auto simp: word_unat_eq_iff)

lemma halves_unat:
  fixes p :: u32
  shows "unat (drop_bit 16 p) = unat p div 65536" "unat (p AND 0xffff) = unat p mod 65536"
proof -
  show "unat (drop_bit 16 p) = unat p div 65536" by (simp add: unat_drop_bit_eq unat_div drop_bit_eq_div)
  have "p AND 0xffff = take_bit 16 p" by (simp add: take_bit_eq_mask mask_eq_exp_minus_1)
  then show "unat (p AND 0xffff) = unat p mod 65536" by (simp add: take_bit_eq_mod unat_mod)
qed

lemma sgn_halves:
  fixes a b :: nat
  shows "sgn (int a - int b) =
    (if a div 65536 = b div 65536 then sgn (int (a mod 65536) - int (b mod 65536))
     else sgn (int (a div 65536) - int (b div 65536)))"
proof (cases "a div 65536 = b div 65536")
  case True
  moreover have "65536 * (a div 65536) + a mod 65536 = a" "65536 * (b div 65536) + b mod 65536 = b"
    by (rule mult_div_mod_eq)+
  ultimately have "int a - int b = int (a mod 65536) - int (b mod 65536)" by linarith
  with True show ?thesis by simp
next
  case False
  have "a div 65536 \<le> b div 65536" if "a \<le> b" using that by (rule div_le_mono)
  moreover have "b div 65536 \<le> a div 65536" if "b \<le> a" using that by (rule div_le_mono)
  ultimately show ?thesis using False by (simp add: sgn_if) linarith
qed

lemma strcmp_halves:
  "sgn (strcmp (fmt_hex 4 (unat (drop_bit 16 p)) @ ''-'' @ fmt_hex 4 (unat (p AND 0xffff)) @ y)
      (fmt_hex 4 (unat (drop_bit 16 p')) @ ''-'' @ fmt_hex 4 (unat (p' AND 0xffff)) @ y')) =
     (if p = p' then sgn (strcmp y y') else part_compare p p')"
proof -
  have "sgn (strcmp (''-'' @ x) (''-'' @ x')) = sgn (strcmp x x')" for x x' by simp
  note * = strcmp_block [OF unat_small_hex(2) [of p] unat_small_hex(2) [of p']] this
    strcmp_block [OF unat_small_hex(3) [of p] unat_small_hex(3) [of p']]
  have "unat p = unat p' \<longleftrightarrow> unat p div 65536 = unat p' div 65536 \<and> unat p mod 65536 = unat p' mod 65536"
    by (metis div_mult_mod_eq)
  then show ?thesis
    unfolding * unfolding halves_unat using part_compare_sgn [of p p'] sgn_halves [of "unat p" "unat p'"]
    by (auto simp: word_unat_eq_iff)
qed

section \<open>Properties\<close>

text \<open>
  \<^bold>\<open>C21\<close>: Parsing the string representation of a UUID yields that UUID.
\<close>

theorem uuid_string_roundtrip: "uuid_from_string (uuid_to_string u) = Some (u, True)"
proof -
  have "char_at (uuid_to_string u) UUID_LEN = Some (CHR 0x00)" by (simp add: char_at_def)
  then show ?thesis using uuid_roundtrip [of u "[]"] by (simp add: uuid_from_string_def)
qed

text \<open>
  \<^bold>\<open>C23\<close>: On any string, \<open>uuid_from_string\<close> reads no byte beyond the terminating null byte; it
  succeeds only on strings of the length of a UUID, and otherwise sets the UUID to zero.
\<close>

theorem uuid_from_string_safe:
  assumes "CHR 0x00 \<notin> set s"
  shows "\<exists>u ok. uuid_from_string s = Some (u, ok) \<and> (if ok then length s = UUID_LEN else u = uuid_zero)"
proof -
  obtain u ok where p: "uuid_from_string_prefix s = Some (u, ok)" "if ok then UUID_LEN \<le> length s else u = uuid_zero"
    using uuid_from_string_prefix_total [of s] by (auto simp: reads_within_def split: option.splits)
  show ?thesis
  proof (cases ok)
    case True
    show ?thesis
    proof (cases "length s = UUID_LEN")
      case True
      then have "char_at s UUID_LEN = Some (CHR 0x00)" by (simp add: char_at_def)
      with p \<open>ok\<close> True show ?thesis by (intro exI [of _ u] exI [of _ True]) (simp add: uuid_from_string_def)
    next
      case False
      then have c: "char_at s UUID_LEN = Some (s ! UUID_LEN)" using p(2) \<open>ok\<close> by (simp add: char_at_def)
      have "s ! UUID_LEN \<noteq> CHR 0x00"
        using p(2) \<open>ok\<close> False assms nth_mem [of UUID_LEN s] by fastforce
      with p \<open>ok\<close> c show ?thesis
        by (intro exI [of _ uuid_zero] exI [of _ False]) (simp add: uuid_from_string_def)
    qed
  next
    case False
    with p show ?thesis by (intro exI [of _ u] exI [of _ False]) (simp add: uuid_from_string_def)
  qed
qed

theorem uuid_from_string_safe_witness:
  "uuid_from_string ''e66250bb-95'' = Some (uuid_zero, False)"
  using uuid_from_string_safe [of "''e66250bb-95''"] by (auto simp: UUID_LEN_def split: if_splits)

text \<open>
  \<^bold>\<open>C22\<close>: \<open>uuid_compare_3way\<close> orders UUIDs as \<open>strcmp\<close> orders their string representations.
\<close>

theorem uuid_compare_3way_strings:
  "uuid_compare_3way a b = sgn (strcmp (uuid_to_string a) (uuid_to_string b))"
proof -
  have last: "sgn (strcmp (fmt_hex 8 (unat p)) (fmt_hex 8 (unat p'))) = (if p = p' then 0 else part_compare p p')" for p p'
    using strcmp_part [of p "[]" p' "[]"] by simp
  have dash: "sgn (strcmp (''-'' @ x) (''-'' @ x')) = sgn (strcmp x x')" for x x' by simp
  show ?thesis
    unfolding uuid_to_string_def strcmp_part dash strcmp_halves last uuid_compare_3way_def by simp
qed

end
