(* ===== verification/Lflow_Conj_Ids.thy ===== *)
theory Lflow_Conj_Ids
  imports Hmap Uuid
begin

text \<open>
  The allocator of conjunction ids (\<open>ovn/lib/lflow-conj-ids.c\<close>).

  Every logical flow that needs conjunctive matches on a datapath owns a contiguous range of
  32-bit ids, never 0. The three hash maps of \<open>struct conj_ids\<close> are the maps of theory
  \<open>Hmap\<close>; a \<open>struct conj_id_node\<close> is its id. The list \<open>dps\<close> of a logical flow links the same
  nodes as the map \<open>lflow_conj_ids\<close>, and these never change, so the model keeps their values
  in both places. The flag \<open>test_mode\<close> is an argument.

  The theorems show that the search for a free range ends and is right, when it gives up,
  that all operations keep the three maps consistent, that no assertion fails, and that the
  operations implement a partial function from pairs of flow and datapath to disjoint
  ranges.
\<close>

section \<open>State\<close>

record lflow_conj_node =
  lflow_uuid :: uuid
  dp_uuid :: uuid
  start_conj_id :: u32
  n_conjs :: u32

record lflow_to_dps_node =
  ltd_uuid :: uuid
  dps :: "lflow_conj_node list"

record conj_ids =
  conj_id_allocations :: "u32 hmap"
  lflow_conj_ids :: "lflow_conj_node hmap"
  lflow_to_dps :: "lflow_to_dps_node hmap"

definition hash_lflow_dp :: "bool \<Rightarrow> uuid \<Rightarrow> uuid \<Rightarrow> u32" where
  "hash_lflow_dp test_mode lflow dp =
     (if test_mode then part0 lflow
      else hash_int (ucast (uuid_hash lflow)) (ucast (uuid_hash dp)))"

definition lflow_conj_ids_init :: conj_ids where
  "lflow_conj_ids_init =
     \<lparr>conj_id_allocations = hmap_init, lflow_conj_ids = hmap_init, lflow_to_dps = hmap_init\<rparr>"

section \<open>Search\<close>

definition lflow_to_dps_find :: "conj_ids \<Rightarrow> uuid \<Rightarrow> lflow_to_dps_node hmap_node option" where
  "lflow_to_dps_find c lflow =
     find (\<lambda>nd. uuid_equals (ltd_uuid (snd nd)) lflow)
       (hmap_for_each_with_hash (lflow_to_dps c) (uuid_hash lflow))"

definition lflow_conj_ids_find' :: "bool \<Rightarrow> conj_ids \<Rightarrow> uuid \<Rightarrow> uuid \<Rightarrow> lflow_conj_node hmap_node option" where
  "lflow_conj_ids_find' tm c lflow dp =
     find (\<lambda>nd. uuid_equals (lflow_uuid (snd nd)) lflow \<and> uuid_equals (dp_uuid (snd nd)) dp)
       (hmap_for_each_with_hash (lflow_conj_ids c) (ucast (hash_lflow_dp tm lflow dp)))"

definition lflow_conj_ids_find :: "bool \<Rightarrow> conj_ids \<Rightarrow> uuid \<Rightarrow> uuid \<Rightarrow> u32" where
  "lflow_conj_ids_find tm c lflow dp =
     (case lflow_conj_ids_find' tm c lflow dp of
        Some nd \<Rightarrow> start_conj_id (snd nd)
      | None \<Rightarrow> 0)"

text \<open>The loop over the nodes of \<open>conj_id_allocations\<close> with the id as hash.\<close>

definition find_id :: "u32 hmap \<Rightarrow> u32 \<Rightarrow> u32 hmap_node option" where
  "find_id h conj_id = find (\<lambda>nd. snd nd = conj_id) (hmap_for_each_with_hash h (ucast conj_id))"

definition id_taken :: "conj_ids \<Rightarrow> u32 \<Rightarrow> bool" where
  "id_taken c conj_id = (find_id (conj_id_allocations c) conj_id \<noteq> None)"

section \<open>Insertion and removal\<close>

text \<open>
  \<open>k\<close> ids from \<open>conj_id\<close> on; an id 0 fails the assertion.
\<close>

fun insert_ids :: "u32 hmap \<Rightarrow> u32 \<Rightarrow> nat \<Rightarrow> u32 hmap option" where
  "insert_ids h conj_id 0 = Some h"
| "insert_ids h conj_id (Suc k) =
     (if conj_id = 0 then None
      else Option.bind (hmap_insert h conj_id (ucast conj_id)) (\<lambda>h. insert_ids h (conj_id + 1) k))"

fun remove_ids :: "u32 hmap \<Rightarrow> u32 \<Rightarrow> nat \<Rightarrow> u32 hmap option" where
  "remove_ids h conj_id 0 = Some h"
| "remove_ids h conj_id (Suc k) =
     (if conj_id = 0 then None
      else case find_id h conj_id of
             Some nd \<Rightarrow> Option.bind (hmap_remove h nd) (\<lambda>h. remove_ids h (conj_id + 1) k)
           | None \<Rightarrow> remove_ids h (conj_id + 1) k)"

definition lflow_conj_ids_insert' :: "bool \<Rightarrow> conj_ids \<Rightarrow> uuid \<Rightarrow> uuid \<Rightarrow> u32 \<Rightarrow> u32 \<Rightarrow> conj_ids option" where
  "lflow_conj_ids_insert' tm c lflow dp start n =
     (if n = 0 then None
      else do {
        a \<leftarrow> insert_ids (conj_id_allocations c) start (unat n);
        let node = \<lparr>lflow_uuid = lflow, dp_uuid = dp, start_conj_id = start, n_conjs = n\<rparr>;
        l \<leftarrow> hmap_insert (lflow_conj_ids c) node (ucast (hash_lflow_dp tm lflow dp));
        t \<leftarrow> (case lflow_to_dps_find c lflow of
               None \<Rightarrow> hmap_insert (lflow_to_dps c) \<lparr>ltd_uuid = lflow, dps = [node]\<rparr> (uuid_hash lflow)
             | Some nd \<Rightarrow> hmap_replace (lflow_to_dps c) nd ((snd nd)\<lparr>dps := dps (snd nd) @ [node]\<rparr>));
        Some \<lparr>conj_id_allocations = a, lflow_conj_ids = l, lflow_to_dps = t\<rparr>
      })"

text \<open>\<open>ovs_list_remove\<close>: a node is in the list of its logical flow.\<close>

definition unlink_dp :: "conj_ids \<Rightarrow> lflow_conj_node \<Rightarrow> lflow_to_dps_node hmap option" where
  "unlink_dp c node =
     (case lflow_to_dps_find c (lflow_uuid node) of
        None \<Rightarrow> None
      | Some nd \<Rightarrow> hmap_replace (lflow_to_dps c) nd ((snd nd)\<lparr>dps := remove1 node (dps (snd nd))\<rparr>))"

definition lflow_conj_ids_free' :: "conj_ids \<Rightarrow> lflow_conj_node hmap_node \<Rightarrow> conj_ids option" where
  "lflow_conj_ids_free' c nd =
     (let node = snd nd in
      if n_conjs node = 0 then None
      else do {
        a \<leftarrow> remove_ids (conj_id_allocations c) (start_conj_id node) (unat (n_conjs node));
        l \<leftarrow> hmap_remove (lflow_conj_ids c) nd;
        t \<leftarrow> unlink_dp c node;
        Some \<lparr>conj_id_allocations = a, lflow_conj_ids = l, lflow_to_dps = t\<rparr>
      })"

definition lflow_conj_ids_free_for_lflow_dp :: "bool \<Rightarrow> conj_ids \<Rightarrow> uuid \<Rightarrow> uuid \<Rightarrow> conj_ids option" where
  "lflow_conj_ids_free_for_lflow_dp tm c lflow dp =
     (case lflow_conj_ids_find' tm c lflow dp of
        None \<Rightarrow> Some c
      | Some nd \<Rightarrow> lflow_conj_ids_free' c nd)"

text \<open>
  The nodes of the list \<open>dps\<close> are freed one after the other, each through the pointer in the
  list; its \<open>hmap_node\<close> carries the hash of the node. Then the empty list goes.
\<close>

definition lflow_conj_ids_free :: "bool \<Rightarrow> conj_ids \<Rightarrow> uuid \<Rightarrow> conj_ids option" where
  "lflow_conj_ids_free tm c lflow =
     (case lflow_to_dps_find c lflow of
        None \<Rightarrow> Some c
      | Some ltd \<Rightarrow>
          do {
            c \<leftarrow> fold_opt (\<lambda>node c. lflow_conj_ids_free' c
                   (ucast (hash_lflow_dp tm (lflow_uuid node) (dp_uuid node)), node)) (dps (snd ltd)) c;
            ltd \<leftarrow> lflow_to_dps_find c lflow;
            t \<leftarrow> hmap_remove (lflow_to_dps c) ltd;
            Some (c\<lparr>lflow_to_dps := t\<rparr>)
          })"

section \<open>Allocation\<close>

datatype range_scan =
  Available
| Exhausted
| Unavailable u32 bool

text \<open>
  The inner loop: \<open>k\<close> more ids from \<open>conj_id\<close> on. An interrupted scan reports the id where it
  stopped and the flag \<open>initial\<close>.
\<close>

fun scan_range :: "(u32 \<Rightarrow> bool) \<Rightarrow> u32 \<Rightarrow> bool \<Rightarrow> nat \<Rightarrow> u32 \<Rightarrow> range_scan" where
  "scan_range taken initial_id initial 0 conj_id = Available"
| "scan_range taken initial_id initial (Suc k) conj_id =
     (if conj_id = 0 then Unavailable conj_id initial
      else if \<not> initial \<and> conj_id = initial_id then Exhausted
      else if taken conj_id then Unavailable conj_id False
      else scan_range taken initial_id False k (conj_id + 1))"

text \<open>The outer loop; \<open>None\<close> if it does not end.\<close>

partial_function (option) alloc_search :: "(u32 \<Rightarrow> bool) \<Rightarrow> u32 \<Rightarrow> u32 \<Rightarrow> bool \<Rightarrow> u32 \<Rightarrow> u32 option" where
  [code]: "alloc_search taken n initial_id initial start =
     (let start = (if start = 0 then start + 1 else start)
      in case scan_range taken initial_id initial (unat n) start of
           Available \<Rightarrow> Some start
         | Exhausted \<Rightarrow> Some 0
         | Unavailable conj_id initial' \<Rightarrow> alloc_search taken n initial_id initial' (conj_id + 1))"

definition lflow_conj_ids_alloc :: "bool \<Rightarrow> conj_ids \<Rightarrow> uuid \<Rightarrow> uuid \<Rightarrow> u32 \<Rightarrow> (u32 \<times> conj_ids) option" where
  "lflow_conj_ids_alloc tm c lflow dp n =
     (if n = 0 then Some (0, c)
      else do {
        c \<leftarrow> lflow_conj_ids_free_for_lflow_dp tm c lflow dp;
        let start = hash_lflow_dp tm lflow dp;
        let start = (if start = 0 then start + 1 else start);
        start \<leftarrow> alloc_search (id_taken c) n start True start;
        if start = 0 then Some (0, c)
        else do {
          c \<leftarrow> lflow_conj_ids_insert' tm c lflow dp start n;
          Some (start, c)
        }
      })"

fun range_free :: "(u32 \<Rightarrow> bool) \<Rightarrow> nat \<Rightarrow> u32 \<Rightarrow> bool" where
  "range_free taken 0 conj_id = True"
| "range_free taken (Suc k) conj_id =
     (if conj_id = 0 then False
      else if taken conj_id then False
      else range_free taken k (conj_id + 1))"

definition lflow_conj_ids_alloc_specified :: "bool \<Rightarrow> conj_ids \<Rightarrow> uuid \<Rightarrow> uuid \<Rightarrow> u32 \<Rightarrow> u32 \<Rightarrow>
    (bool \<times> conj_ids) option" where
  "lflow_conj_ids_alloc_specified tm c lflow dp start n =
     (if n = 0 then Some (False, c)
      else do {
        c \<leftarrow> lflow_conj_ids_free_for_lflow_dp tm c lflow dp;
        if range_free (id_taken c) (unat n) start
        then do {
          c \<leftarrow> lflow_conj_ids_insert' tm c lflow dp start n;
          Some (True, c)
        }
        else Some (False, c)
      })"

section \<open>Removal of everything and report\<close>

definition lflow_conj_ids_destroy :: "conj_ids \<Rightarrow> conj_ids option" where
  "lflow_conj_ids_destroy c =
     do {
       ids \<leftarrow> hmap_for_each (conj_id_allocations c);
       a \<leftarrow> fold_opt (\<lambda>nd h. hmap_remove h nd) ids (conj_id_allocations c);
       nodes \<leftarrow> hmap_for_each (lflow_conj_ids c);
       c \<leftarrow> fold_opt (\<lambda>nd c. do {
              l \<leftarrow> hmap_remove (lflow_conj_ids c) nd;
              t \<leftarrow> unlink_dp c (snd nd);
              Some (c\<lparr>lflow_conj_ids := l, lflow_to_dps := t\<rparr>) }) nodes (c\<lparr>conj_id_allocations := a\<rparr>);
       ltds \<leftarrow> hmap_for_each (lflow_to_dps c);
       t \<leftarrow> fold_opt (\<lambda>nd h. hmap_remove h nd) ltds (lflow_to_dps c);
       Some (c\<lparr>lflow_to_dps := t\<rparr>)
     }"

definition lflow_conj_ids_clear :: "conj_ids \<Rightarrow> conj_ids option" where
  "lflow_conj_ids_clear c =
     do {
       c \<leftarrow> lflow_conj_ids_destroy c;
       Some lflow_conj_ids_init
     }"

text \<open>
  The report: every node with the flag that its range does not begin at its hash, the number
  of ids used, and the number of allocated ids if that is another number.
\<close>

definition lflow_conj_ids_dump :: "conj_ids \<Rightarrow> ((lflow_conj_node \<times> bool) list \<times> u64 \<times> u64 option) option" where
  "lflow_conj_ids_dump c =
     do {
       nodes \<leftarrow> hmap_for_each (lflow_conj_ids c);
       let count = sum_list (map (\<lambda>nd. ucast (n_conjs (snd nd))) nodes);
       let allocated = hmap_count (conj_id_allocations c);
       Some (map (\<lambda>nd. (snd nd, ucast (start_conj_id (snd nd)) \<noteq> fst nd)) nodes, count,
             if count \<noteq> allocated then Some allocated else None)
     }"

section \<open>Ranges of ids\<close>

definition conj_range :: "u32 \<Rightarrow> nat \<Rightarrow> u32 set" where
  "conj_range s n = (\<lambda>m. s + of_nat m) ` {..<n}"

lemma conj_range_0 [simp]: "conj_range s 0 = {}"
  by (simp add: conj_range_def)

lemma conj_range_Suc: "conj_range s (Suc n) = insert s (conj_range (s + 1) n)"
  by (simp add: conj_range_def lessThan_Suc_eq_insert_0 image_image algebra_simps)

lemma range_free_iff: "range_free taken n s \<longleftrightarrow> 0 \<notin> conj_range s n \<and> (\<forall>i \<in> conj_range s n. \<not> taken i)"
  by (induction taken n s rule: range_free.induct) (auto simp: conj_range_Suc)

lemma of_nat_u32_inj: "m < 2 ^ 32 \<Longrightarrow> m' < 2 ^ 32 \<Longrightarrow> (of_nat m :: u32) = of_nat m' \<longleftrightarrow> m = m'"
  by (simp add: word_unat_eq_iff unat_of_nat)

section \<open>The search for a range\<close>

text \<open>
  The distance from \<open>s\<close> forward to the id where the search began.
\<close>

definition ahead :: "u32 \<Rightarrow> u32 \<Rightarrow> nat" where
  "ahead initial_id s = unat (initial_id - s)"

lemma ahead_0 [simp]: "ahead i s = 0 \<longleftrightarrow> s = i"
  by (auto simp: ahead_def unat_eq_0)

lemma ahead_self [simp]: "ahead i i = 0"
  by (simp add: ahead_def)

lemma ahead_inj: "ahead i t = ahead i s \<Longrightarrow> t = s"
  by (simp add: ahead_def flip: word_unat_eq_iff)

lemma ahead_next: "ahead i (i + 1) = 2 ^ 32 - 1"
  by (simp add: ahead_def unsigned_minus_1_eq_mask mask_eq_exp_minus_1)

lemma ahead_less: "ahead i s < 2 ^ 32"
  using unsigned_less [of "i - s", where ?'a = nat] by (simp add: ahead_def)

lemma ahead_Suc: "s \<noteq> i \<Longrightarrow> ahead i s = Suc (ahead i (s + 1))"
proof -
  assume "s \<noteq> i"
  then have "i - s \<noteq> 0" by simp
  then have "unat (i - s - 1) = unat (i - s) - 1" "0 < unat (i - s)"
    by (simp_all add: unat_minus_one unat_gt_0)
  then show ?thesis by (simp add: ahead_def algebra_simps)
qed

lemma ahead_add: "m \<le> ahead i s \<Longrightarrow> ahead i (s + of_nat m) = ahead i s - m"
proof (induction m)
  case (Suc m)
  then have IH: "ahead i (s + of_nat m) = ahead i s - m" by simp
  with Suc.prems have "s + of_nat m \<noteq> i" by (metis ahead_0 Suc_le_eq diff_is_0_eq not_le)
  from ahead_Suc [OF this] IH show ?case by (simp add: algebra_simps)
qed simp

text \<open>What the scan of one range tells.\<close>

definition clear_upto :: "(u32 \<Rightarrow> bool) \<Rightarrow> u32 \<Rightarrow> nat \<Rightarrow> bool" where
  "clear_upto taken s m \<longleftrightarrow> 0 \<notin> conj_range s m \<and> (\<forall>i \<in> conj_range s m. \<not> taken i)"

lemma clear_upto_Suc: "clear_upto taken s (Suc m) \<longleftrightarrow> s \<noteq> 0 \<and> \<not> taken s \<and> clear_upto taken (s + 1) m"
  by (auto simp: clear_upto_def conj_range_Suc)

definition scan_stop :: "(u32 \<Rightarrow> bool) \<Rightarrow> nat \<Rightarrow> nat \<Rightarrow> u32 \<Rightarrow> u32 \<Rightarrow> bool" where
  "scan_stop taken k d s j \<longleftrightarrow> (\<exists>m < k. m < d \<and> j = s + of_nat m \<and> (j = 0 \<or> taken j))"

lemma scan_stop_0: "0 < k \<Longrightarrow> 0 < d \<Longrightarrow> s = 0 \<or> taken s \<Longrightarrow> scan_stop taken k d s s"
  by (auto simp: scan_stop_def)

lemma scan_stop_Suc: "scan_stop taken k d (s + 1) j \<Longrightarrow> scan_stop taken (Suc k) (Suc d) s j"
proof -
  assume "scan_stop taken k d (s + 1) j"
  then obtain m where "m < k" "m < d" "j = s + 1 + of_nat m" "j = 0 \<or> taken j"
    by (auto simp: scan_stop_def)
  then show ?thesis by (auto simp: scan_stop_def algebra_simps intro!: exI [of _ "Suc m"])
qed

lemma scan_range_later:
  assumes i: "i \<noteq> 0"
  shows "case scan_range taken i False k s of
     Available \<Rightarrow> clear_upto taken s k
   | Exhausted \<Rightarrow> ahead i s < k
   | Unavailable j b \<Rightarrow> \<not> b \<and> scan_stop taken k (ahead i s) s j"
proof (induction k arbitrary: s)
  case 0
  then show ?case by (simp add: clear_upto_def)
next
  case (Suc k)
  show ?case
  proof (cases "s = i")
    case True
    then show ?thesis using i by simp
  next
    case False
    show ?thesis
    proof (cases "s = 0 \<or> taken s")
      case True
      moreover have "0 < ahead i s" using ahead_Suc [OF \<open>s \<noteq> i\<close>] by simp
      ultimately have "scan_stop taken (Suc k) (ahead i s) s s" by (simp add: scan_stop_0)
      with True \<open>s \<noteq> i\<close> show ?thesis by auto
    next
      case stop: False
      then show ?thesis
        using False Suc.IH [of "s + 1"]
        by (auto simp: ahead_Suc [OF False] clear_upto_Suc intro: scan_stop_Suc split: range_scan.splits)
    qed
  qed
qed

lemma scan_range_first:
  assumes i: "i \<noteq> 0"
  shows "case scan_range taken i True k i of
     Available \<Rightarrow> clear_upto taken i k
   | Exhausted \<Rightarrow> 2 ^ 32 - 1 < k
   | Unavailable j b \<Rightarrow> \<not> b \<and> scan_stop taken k (2 ^ 32) i j"
proof (cases k)
  case 0
  then show ?thesis by (simp add: clear_upto_def)
next
  case (Suc k')
  show ?thesis
  proof (cases "taken i")
    case True
    with Suc i scan_stop_0 [of k "2 ^ 32" i taken] show ?thesis by simp
  next
    case False
    with Suc i scan_range_later [OF i, where taken = taken and k = k' and s = "i + 1"] show ?thesis
      using scan_stop_Suc [where d = "2 ^ 32 - 1"]
      by (auto simp: ahead_next clear_upto_Suc split: range_scan.splits)
  qed
qed

text \<open>
  A range that the search finds taken: it contains 0 or a taken id, or it runs over the id
  where the search began.
\<close>

definition covered :: "(u32 \<Rightarrow> bool) \<Rightarrow> u32 \<Rightarrow> nat \<Rightarrow> u32 \<Rightarrow> bool" where
  "covered taken i n t \<longleftrightarrow>
     0 \<in> conj_range t n \<or> (\<exists>j \<in> conj_range t n. taken j) \<or> (t \<noteq> i \<and> i \<in> conj_range t n)"

lemma in_conj_range: "m < n \<Longrightarrow> t + of_nat m \<in> conj_range t n"
  by (auto simp: conj_range_def)

lemma covered_stop:
  assumes j: "scan_stop taken n d s j" and t: "t = s + of_nat m'" "m' \<le> unat (j - s)" and d: "d \<le> 2 ^ 32"
  shows "covered taken i n t"
proof -
  obtain m where m: "m < n" "m < d" "j = s + of_nat m" "j = 0 \<or> taken j" using j by (auto simp: scan_stop_def)
  then have "m' \<le> m" using t(2) d by (simp add: unat_of_nat)
  then have "j = t + of_nat (m - m')" using m(3) t(1) by (simp add: of_nat_diff)
  moreover have "m - m' < n" using m(1) by simp
  ultimately have "j \<in> conj_range t n" using in_conj_range by simp
  with m(4) show ?thesis by (auto simp: covered_def)
qed

text \<open>
  The search ends. When it finds a range, the range is free and does not contain 0; when it
  gives up, every range is covered.
\<close>

definition search_result :: "(u32 \<Rightarrow> bool) \<Rightarrow> u32 \<Rightarrow> u32 \<Rightarrow> u32 \<Rightarrow> bool" where
  "search_result taken n i r \<longleftrightarrow>
     (if r = 0 then \<forall>t. covered taken i (unat n) t else clear_upto taken r (unat n))"

lemma alloc_search_step:
  "alloc_search taken n i ini s =
     (let s = (if s = 0 then s + 1 else s)
      in case scan_range taken i ini (unat n) s of
           Available \<Rightarrow> Some s
         | Exhausted \<Rightarrow> Some 0
         | Unavailable j ini' \<Rightarrow> alloc_search taken n i ini' (j + 1))"
  by (subst alloc_search.simps) simp

lemma covered_ahead:
  assumes "t = s + of_nat m" "m < ahead i s" "ahead i s - m < n"
  shows "covered taken i n t"
proof -
  have "ahead i t = ahead i s - m" using assms by (simp add: ahead_add)
  then have a: "0 < ahead i t" "ahead i t < n" using assms by auto
  then have "i = t + of_nat (ahead i t)" by (simp add: ahead_def)
  then have "i \<in> conj_range t n" using in_conj_range [OF a(2), of t] by metis
  moreover have "t \<noteq> i" using a(1) by auto
  ultimately show ?thesis by (simp add: covered_def)
qed

lemma between:
  assumes "ahead i t \<le> ahead i s" "t \<noteq> i"
  obtains m where "t = s + of_nat m" "m < ahead i s" "ahead i t = ahead i s - m"
proof -
  have "i - t \<noteq> 0" using assms(2) by simp
  have "t = s + of_nat (ahead i s - ahead i t)"
    using assms(1) by (simp add: ahead_def of_nat_diff algebra_simps)
  moreover have "0 < ahead i t" using assms(2) by (metis ahead_0 neq0_conv)
  ultimately show ?thesis using that [of "ahead i s - ahead i t"] assms by auto
qed

lemma covered_0: "0 < n \<Longrightarrow> covered taken i n 0"
  using in_conj_range [of 0 n 0] by (auto simp: covered_def)

lemma alloc_search_later:
  assumes i: "i \<noteq> 0" and n: "n \<noteq> 0"
  shows "\<forall>t. t = i \<or> ahead i s < ahead i t \<longrightarrow> covered taken i (unat n) t \<Longrightarrow>
    \<exists>r. alloc_search taken n i False s = Some r \<and> search_result taken n i r"
proof (induction "ahead i s" arbitrary: s rule: less_induct)
  case less
  define s' where "s' = (if s = 0 then s + 1 else s)"
  have s': "s' \<noteq> 0" "ahead i s' \<le> ahead i s" using i ahead_Suc [of 0 i] by (auto simp: s'_def)
  have zero: "covered taken i (unat n) 0" using n by (intro covered_0) (simp add: unat_gt_0)
  have inv: "covered taken i (unat n) t" if "t = i \<or> ahead i s' < ahead i t" for t
  proof (cases "t = i \<or> ahead i s < ahead i t")
    case False
    then have "ahead i t = ahead i s" "s = 0"
      using that i ahead_Suc [of 0 i] by (auto simp: s'_def split: if_splits)
    then show ?thesis using zero ahead_inj [of i t s] by simp
  qed (use less.prems in blast)
  have step: "alloc_search taken n i False s =
      (case scan_range taken i False (unat n) s' of
         Available \<Rightarrow> Some s' | Exhausted \<Rightarrow> Some 0
       | Unavailable j ini \<Rightarrow> alloc_search taken n i ini (j + 1))"
    by (subst alloc_search_step, unfold Let_def s'_def) (rule refl)
  note scan = scan_range_later [OF i, where taken = taken and k = "unat n" and s = s']
  show ?case
  proof (cases "scan_range taken i False (unat n) s'")
    case Available
    with step scan s' show ?thesis by (simp add: search_result_def)
  next
    case Exhausted
    have "covered taken i (unat n) t" for t
    proof (cases "t = i \<or> ahead i s' < ahead i t")
      case False
      then obtain m where m: "t = s' + of_nat m" "m < ahead i s'" using between [of i t s'] by (metis not_le)
      with scan Exhausted show ?thesis by (intro covered_ahead [OF m]) simp
    qed (use inv in blast)
    with step Exhausted show ?thesis by (auto simp: search_result_def)
  next
    case (Unavailable j b)
    with scan have j: "scan_stop taken (unat n) (ahead i s') s' j" and b: "\<not> b" by simp_all
    from j obtain m where m: "m < ahead i s'" "j = s' + of_nat m" by (auto simp: scan_stop_def)
    then have aj: "ahead i j = ahead i s' - m" by (simp add: ahead_add)
    with m have "j \<noteq> i" by auto
    from ahead_Suc [OF this] aj m have aj1: "ahead i (j + 1) = ahead i s' - m - 1" by simp
    have "covered taken i (unat n) t" if t: "t = i \<or> ahead i (j + 1) < ahead i t" for t
    proof (cases "t = i \<or> ahead i s' < ahead i t")
      case False
      then obtain m' where m': "t = s' + of_nat m'" "ahead i t = ahead i s' - m'"
        using between [of i t s'] by (metis not_le)
      moreover have "m < 2 ^ 32" using m(1) ahead_less [of i s'] by simp
      ultimately have "m' \<le> unat (j - s')" using t False aj1 m by (simp add: unat_of_nat)
      with covered_stop [OF j m'(1)] show ?thesis using ahead_less [of i s'] by simp
    qed (use inv in blast)
    moreover have "ahead i (j + 1) < ahead i s" using aj1 m(1) s'(2) by linarith
    ultimately show ?thesis using less.hyps [of "j + 1"] step Unavailable b by simp
  qed
qed

lemma alloc_search_ok:
  assumes i: "i \<noteq> 0" and n: "n \<noteq> 0"
  shows "\<exists>r. alloc_search taken n i True i = Some r \<and> search_result taken n i r"
proof -
  note scan = scan_range_first [OF i, where taken = taken and k = "unat n"]
  have step: "alloc_search taken n i True i =
      (case scan_range taken i True (unat n) i of
         Available \<Rightarrow> Some i | Exhausted \<Rightarrow> Some 0
       | Unavailable j ini \<Rightarrow> alloc_search taken n i ini (j + 1))"
    by (subst alloc_search_step) (simp add: i Let_def)
  have small: "unat n < 2 ^ 32" using unsigned_less [of n, where ?'a = nat] by simp
  show ?thesis
  proof (cases "scan_range taken i True (unat n) i")
    case Available
    with step scan i show ?thesis by (simp add: search_result_def)
  next
    case Exhausted
    with scan small show ?thesis by simp
  next
    case (Unavailable j b)
    with scan have j: "scan_stop taken (unat n) (2 ^ 32) i j" and b: "\<not> b" by simp_all
    then obtain m where m: "m < unat n" "j = i + of_nat m" by (auto simp: scan_stop_def)
    have u: "unat (j - i) = m" using m small by (simp add: unat_of_nat)
    have "ahead i (i + 1 + of_nat m) = 2 ^ 32 - 1 - m"
      using m(1) small ahead_add [of m i "i + 1"] by (simp add: ahead_next)
    then have aj: "ahead i (j + 1) = 2 ^ 32 - 1 - m" using m(2) by (simp add: algebra_simps)
    have "covered taken i (unat n) t" if t: "t = i \<or> ahead i (j + 1) < ahead i t" for t
    proof (cases "t = i")
      case True
      then show ?thesis using covered_stop [OF j, of t 0] by simp
    next
      case False
      have "ahead i t \<le> ahead i (i + 1)" using ahead_less [of i t] by (simp add: ahead_next)
      then obtain k where k: "t = i + 1 + of_nat k" "ahead i t = 2 ^ 32 - 1 - k"
        using between [OF _ False] ahead_next by metis
      with t aj False have "Suc k \<le> unat (j - i)" using u by linarith
      with covered_stop [OF j, of t "Suc k"] k(1) show ?thesis by (simp add: algebra_simps)
    qed
    then show ?thesis using alloc_search_later [OF i n, of "j + 1"] step Unavailable b by simp
  qed
qed

section \<open>The invariant of the three maps\<close>

definition node_key :: "lflow_conj_node \<Rightarrow> uuid \<times> uuid" where
  "node_key nd = (lflow_uuid nd, dp_uuid nd)"

definition node_hash :: "bool \<Rightarrow> uuid \<times> uuid \<Rightarrow> u64" where
  "node_hash tm k = ucast (hash_lflow_dp tm (fst k) (snd k))"

definition node_range :: "lflow_conj_node \<Rightarrow> u32 set" where
  "node_range nd = conj_range (start_conj_id nd) (unat (n_conjs nd))"

definition lists_ok :: "lflow_conj_node set \<Rightarrow> lflow_to_dps_node set \<Rightarrow> bool" where
  "lists_ok L T \<longleftrightarrow>
     (\<forall>t \<in> T. distinct (dps t) \<and> set (dps t) = {nd \<in> L. lflow_uuid nd = ltd_uuid t}) \<and>
     (\<forall>nd \<in> L. lflow_uuid nd \<in> ltd_uuid ` T)"

definition ranges_ok :: "lflow_conj_node set \<Rightarrow> bool" where
  "ranges_ok L \<longleftrightarrow>
     (\<forall>nd \<in> L. n_conjs nd \<noteq> 0 \<and> 0 \<notin> node_range nd) \<and>
     (\<forall>a \<in> L. \<forall>b \<in> L. a \<noteq> b \<longrightarrow> node_range a \<inter> node_range b = {})"

definition conj_inv :: "bool \<Rightarrow> conj_ids \<Rightarrow> lflow_conj_node set \<Rightarrow> lflow_to_dps_node set \<Rightarrow> bool" where
  "conj_inv tm c L T \<longleftrightarrow>
     holds (\<lambda>i. i) ucast (conj_id_allocations c) (\<Union> (node_range ` L)) \<and>
     holds node_key (node_hash tm) (lflow_conj_ids c) L \<and>
     holds ltd_uuid uuid_hash (lflow_to_dps c) T \<and>
     ranges_ok L \<and> lists_ok L T"

lemma conj_invD:
  assumes "conj_inv tm c L T"
  shows "holds (\<lambda>i. i) ucast (conj_id_allocations c) (\<Union> (node_range ` L))"
    and "holds node_key (node_hash tm) (lflow_conj_ids c) L"
    and "holds ltd_uuid uuid_hash (lflow_to_dps c) T"
    and "ranges_ok L" and "lists_ok L T"
  using assms by (simp_all add: conj_inv_def)

subsection \<open>Ids\<close>

lemma card_u32: "card (A :: u32 set) < 2 ^ 64 - 1"
proof -
  have "card A \<le> card (UNIV :: u32 set)" by (rule card_mono) auto
  also have "\<dots> = 2 ^ 32" by (simp add: card_word)
  finally show ?thesis by simp
qed

lemma find_id_Some:
  "holds (\<lambda>i. i) ucast h A \<Longrightarrow> find_id h j = Some nd \<longleftrightarrow> nd = (ucast j, j) \<and> j \<in> A"
  using hm.keyed_look(1) [of "\<lambda>i. i" ucast h A j nd] by (auto simp: find_id_def)

lemma find_id_None: "holds (\<lambda>i. i) ucast h A \<Longrightarrow> find_id h j = None \<longleftrightarrow> j \<notin> A"
  using hm.keyed_look(2) [of "\<lambda>i. i" ucast h A j] by (simp add: find_id_def)

lemma id_taken_iff: "conj_inv tm c L T \<Longrightarrow> id_taken c j \<longleftrightarrow> j \<in> \<Union> (node_range ` L)"
  by (simp only: id_taken_def find_id_None [OF conj_invD(1)] not_not)

lemma start_not_later: "k < 2 ^ 32 \<Longrightarrow> s \<notin> conj_range (s + 1) (k - 1)"
proof
  assume k: "k < 2 ^ 32" and "s \<in> conj_range (s + 1) (k - 1)"
  then obtain m where m: "m < k - 1" "s = s + of_nat (Suc m)" by (auto simp: conj_range_def algebra_simps)
  then have z: "(of_nat (Suc m) :: u32) = of_nat 0" by simp
  have "Suc m < 2 ^ 32" using m(1) k by linarith
  from iffD1 [OF of_nat_u32_inj [OF this zero_less_power [OF zero_less_numeral]] z] show False by simp
qed

lemma insert_ids_ok:
  "holds (\<lambda>i. i) ucast h A \<Longrightarrow> 0 \<notin> conj_range s k \<Longrightarrow> conj_range s k \<inter> A = {} \<Longrightarrow> k < 2 ^ 32 \<Longrightarrow>
     \<exists>h'. insert_ids h s k = Some h' \<and> holds (\<lambda>i. i) ucast h' (A \<union> conj_range s k)"
proof (induction k arbitrary: h A s)
  case (Suc k)
  have s: "s \<noteq> 0" "s \<notin> A" "s \<notin> conj_range (s + 1) k"
    using Suc.prems start_not_later [of "Suc k" s] by (auto simp: conj_range_Suc)
  from hm.keyed_ins [OF Suc.prems(1), of s] card_u32 [of A] s(2)
  obtain h1 where h1: "hmap_insert h s (ucast s) = Some h1" "holds (\<lambda>i. i) ucast h1 (insert s A)"
    by auto
  from Suc.IH [OF h1(2), of "s + 1"] Suc.prems s obtain h' where
    "insert_ids h1 (s + 1) k = Some h'" "holds (\<lambda>i. i) ucast h' (insert s A \<union> conj_range (s + 1) k)"
    by (auto simp: conj_range_Suc)
  with h1 s(1) show ?case by (simp add: conj_range_Suc)
qed auto

lemma remove_ids_ok:
  "holds (\<lambda>i. i) ucast h A \<Longrightarrow> 0 \<notin> conj_range s k \<Longrightarrow>
     \<exists>h'. remove_ids h s k = Some h' \<and> holds (\<lambda>i. i) ucast h' (A - conj_range s k)"
proof (induction k arbitrary: h A s)
  case (Suc k)
  have s: "s \<noteq> 0" "0 \<notin> conj_range (s + 1) k" using Suc.prems(2) by (auto simp: conj_range_Suc)
  show ?case
  proof (cases "s \<in> A")
    case True
    with hm.keyed_rem [OF Suc.prems(1), of s] obtain h1 where
      h1: "hmap_remove h (ucast s, s) = Some h1" "holds (\<lambda>i. i) ucast h1 (A - {s})" by auto
    moreover have "find_id h s = Some (ucast s, s)" using find_id_Some [OF Suc.prems(1)] True by simp
    moreover have "A - conj_range s (Suc k) = A - {s} - conj_range (s + 1) k"
      by (auto simp: conj_range_Suc)
    ultimately show ?thesis using Suc.IH [OF h1(2) s(2)] s(1) by simp
  next
    case False
    then have "find_id h s = None" using find_id_None [OF Suc.prems(1)] by simp
    moreover have "A - conj_range s (Suc k) = A - conj_range (s + 1) k"
      using False by (auto simp: conj_range_Suc)
    ultimately show ?thesis using Suc.IH [OF Suc.prems(1) s(2)] s(1) by simp
  qed
qed auto

subsection \<open>Nodes and lists\<close>

lemma find'_eq:
  "lflow_conj_ids_find' tm c l d =
     find (\<lambda>nd. node_key (snd nd) = (l, d)) (hmap_for_each_with_hash (lflow_conj_ids c) (node_hash tm (l, d)))"
  by (simp add: lflow_conj_ids_find'_def node_key_def node_hash_def)

lemma ltd_find_eq:
  "lflow_to_dps_find c l =
     find (\<lambda>nd. ltd_uuid (snd nd) = l) (hmap_for_each_with_hash (lflow_to_dps c) (uuid_hash l))"
  by (simp add: lflow_to_dps_find_def)

lemma find'_Some:
  "conj_inv tm c L T \<Longrightarrow> lflow_conj_ids_find' tm c l d = Some nd \<longleftrightarrow>
     nd = (node_hash tm (l, d), snd nd) \<and> snd nd \<in> L \<and> node_key (snd nd) = (l, d)"
  unfolding find'_eq by (rule hm.keyed_look(1) [OF conj_invD(2)])

lemma find'_None:
  "conj_inv tm c L T \<Longrightarrow> lflow_conj_ids_find' tm c l d = None \<longleftrightarrow> (l, d) \<notin> node_key ` L"
  unfolding find'_eq by (rule hm.keyed_look(2) [OF conj_invD(2)])

lemma ltd_find_Some:
  "holds ltd_uuid uuid_hash (lflow_to_dps c) T \<Longrightarrow> lflow_to_dps_find c l = Some nd \<longleftrightarrow>
     nd = (uuid_hash l, snd nd) \<and> snd nd \<in> T \<and> ltd_uuid (snd nd) = l"
  unfolding ltd_find_eq by (rule hm.keyed_look(1))

lemma ltd_find_None: "holds ltd_uuid uuid_hash (lflow_to_dps c) T \<Longrightarrow> lflow_to_dps_find c l = None \<longleftrightarrow> l \<notin> ltd_uuid ` T"
  unfolding ltd_find_eq by (rule hm.keyed_look(2))

text \<open>Nonempty disjoint ranges: there are no more nodes than ids.\<close>

lemma card_nodes: "ranges_ok L \<Longrightarrow> card L < 2 ^ 64 - 1"
proof -
  assume ok: "ranges_ok L"
  have "start_conj_id nd \<in> node_range nd" if "nd \<in> L" for nd
    using ok that in_conj_range [of 0 "unat (n_conjs nd)" "start_conj_id nd"]
    by (simp add: ranges_ok_def node_range_def unat_gt_0)
  then have "inj_on start_conj_id L"
    using ok unfolding inj_on_def ranges_ok_def by (metis disjoint_iff)
  then have "card L = card (start_conj_id ` L)" by (simp add: card_image)
  with card_u32 show ?thesis by metis
qed

text \<open>The list of a logical flow when a node is added to it or taken out of it.\<close>

lemma lists_ok_insert_new:
  assumes "lists_ok L T" "l \<notin> ltd_uuid ` T" "lflow_uuid nd = l"
  shows "lists_ok (insert nd L) (insert \<lparr>ltd_uuid = l, dps = [nd]\<rparr> T)"
proof -
  have "\<forall>x \<in> L. lflow_uuid x \<noteq> l" using assms(1,2) unfolding lists_ok_def by metis
  moreover have "\<forall>t \<in> T. ltd_uuid t \<noteq> l" using assms(2) by (metis image_eqI)
  ultimately show ?thesis using assms by (auto simp: lists_ok_def)
qed

lemma lists_ok_insert_old:
  assumes "lists_ok L T" "inj_on ltd_uuid T" "t \<in> T" "ltd_uuid t = lflow_uuid nd" "nd \<notin> L"
  shows "lists_ok (insert nd L) (insert (t\<lparr>dps := dps t @ [nd]\<rparr>) (T - {t}))"
proof -
  have other: "\<forall>t' \<in> T. t' \<noteq> t \<longrightarrow> lflow_uuid nd \<noteq> ltd_uuid t'"
    using assms(2-4) by (metis inj_onD)
  have "lflow_uuid nd \<in> ltd_uuid ` T" using assms(3,4) by (metis image_eqI)
  have keys: "ltd_uuid ` insert (t\<lparr>dps := dps t @ [nd]\<rparr>) (T - {t}) = ltd_uuid ` T"
    using assms(3) by auto
  show ?thesis
    unfolding lists_ok_def keys
    using assms other \<open>lflow_uuid nd \<in> ltd_uuid ` T\<close> by (auto simp: lists_ok_def)
qed

lemma lists_ok_remove:
  assumes "lists_ok L T" "inj_on ltd_uuid T" "t \<in> T" "ltd_uuid t = lflow_uuid nd" "nd \<in> L"
  shows "lists_ok (L - {nd}) (insert (t\<lparr>dps := remove1 nd (dps t)\<rparr>) (T - {t}))"
proof -
  have other: "\<forall>t' \<in> T. t' \<noteq> t \<longrightarrow> lflow_uuid nd \<noteq> ltd_uuid t'"
    using assms(2-4) by (metis inj_onD)
  have "lflow_uuid nd \<in> ltd_uuid ` T" using assms(3,4) by (metis image_eqI)
  have keys: "ltd_uuid ` insert (t\<lparr>dps := remove1 nd (dps t)\<rparr>) (T - {t}) = ltd_uuid ` T"
    using assms(3) by auto
  show ?thesis
    unfolding lists_ok_def keys
    using assms other \<open>lflow_uuid nd \<in> ltd_uuid ` T\<close> by (auto simp: lists_ok_def)
qed

lemma insert'_ok:
  assumes inv: "conj_inv tm c L T" and new: "(l, d) \<notin> node_key ` L" and n: "n \<noteq> 0"
    and r: "0 \<notin> conj_range s (unat n)" "conj_range s (unat n) \<inter> \<Union> (node_range ` L) = {}"
    and room: "card T < 2 ^ 64 - 1"
  shows "\<exists>c' T'. lflow_conj_ids_insert' tm c l d s n = Some c' \<and>
    conj_inv tm c' (insert \<lparr>lflow_uuid = l, dp_uuid = d, start_conj_id = s, n_conjs = n\<rparr> L) T' \<and>
    ltd_uuid ` T' = insert l (ltd_uuid ` T)"
proof -
  let ?nd = "\<lparr>lflow_uuid = l, dp_uuid = d, start_conj_id = s, n_conjs = n\<rparr>"
  note D = conj_invD [OF inv]
  have small: "unat n < 2 ^ 32" using unsigned_less [of n, where ?'a = nat] by simp
  have range: "node_range ?nd = conj_range s (unat n)" by (simp add: node_range_def)
  from insert_ids_ok [OF D(1) r small] obtain a where a:
    "insert_ids (conj_id_allocations c) s (unat n) = Some a"
    "holds (\<lambda>i. i) ucast a (\<Union> (node_range ` insert ?nd L))" by (auto simp: range Un_commute)
  have key: "node_key ?nd = (l, d)" by (simp add: node_key_def)
  with new have "node_key ?nd \<notin> node_key ` L" by simp
  from hm.keyed_ins [OF D(2) this card_nodes [OF D(4)]] obtain l' where l':
    "hmap_insert (lflow_conj_ids c) ?nd (ucast (hash_lflow_dp tm l d)) = Some l'"
    "holds node_key (node_hash tm) l' (insert ?nd L)" by (auto simp: key node_hash_def)
  have nd: "?nd \<notin> L" using new key by force
  have ranges: "ranges_ok (insert ?nd L)" using D(4) r n range by (auto simp: ranges_ok_def)
  have "\<exists>t T'. (case lflow_to_dps_find c l of
               None \<Rightarrow> hmap_insert (lflow_to_dps c) \<lparr>ltd_uuid = l, dps = [?nd]\<rparr> (uuid_hash l)
             | Some nd \<Rightarrow> hmap_replace (lflow_to_dps c) nd ((snd nd)\<lparr>dps := dps (snd nd) @ [?nd]\<rparr>)) = Some t
      \<and> holds ltd_uuid uuid_hash t T' \<and> lists_ok (insert ?nd L) T' \<and> ltd_uuid ` T' = insert l (ltd_uuid ` T)"
  proof (cases "lflow_to_dps_find c l")
    case None
    then have "l \<notin> ltd_uuid ` T" using ltd_find_None [OF conj_invD(3) [OF inv]] by simp
    then show ?thesis
      using hm.keyed_ins [OF D(3), of "\<lparr>ltd_uuid = l, dps = [?nd]\<rparr>"] room None
        lists_ok_insert_new [OF D(5), of l ?nd] by fastforce
  next
    case (Some p)
    then have p: "p = (uuid_hash l, snd p)" "snd p \<in> T" "ltd_uuid (snd p) = l"
      using ltd_find_Some [OF conj_invD(3) [OF inv]] by blast+
    let ?t = "(snd p)\<lparr>dps := dps (snd p) @ [?nd]\<rparr>"
    obtain t where t: "hmap_replace (lflow_to_dps c) p ?t = Some t"
      "holds ltd_uuid uuid_hash t (insert ?t (T - {snd p}))"
      using hm.keyed_repl [OF D(3) p(2), of ?t] p(1,3) by auto
    moreover have "ltd_uuid ` insert ?t (T - {snd p}) = insert l (ltd_uuid ` T)" using p(2,3) by auto
    moreover have "lists_ok (insert ?nd L) (insert ?t (T - {snd p}))"
      by (rule lists_ok_insert_old [OF D(5) holds_inj [OF D(3)] p(2) _ nd]) (simp add: p(3))
    ultimately show ?thesis unfolding Some option.case by blast
  qed
  with a l' ranges n show ?thesis
    unfolding lflow_conj_ids_insert'_def conj_inv_def by (auto simp: Let_def)
qed

lemma unlink_dp_ok:
  assumes D: "holds ltd_uuid uuid_hash (lflow_to_dps c) T" "lists_ok L T" and nd: "nd \<in> L"
  shows "\<exists>t T'. unlink_dp c nd = Some t \<and> holds ltd_uuid uuid_hash t T' \<and>
    lists_ok (L - {nd}) T' \<and> ltd_uuid ` T' = ltd_uuid ` T"
proof -
  have "lflow_uuid nd \<in> ltd_uuid ` T" using D(2) nd by (auto simp: lists_ok_def)
  then obtain p where f: "lflow_to_dps_find c (lflow_uuid nd) = Some p"
    using ltd_find_None [OF D(1)] by blast
  then have p: "p = (uuid_hash (lflow_uuid nd), snd p)" "snd p \<in> T" "ltd_uuid (snd p) = lflow_uuid nd"
    using ltd_find_Some [OF D(1)] by blast+
  let ?t = "(snd p)\<lparr>dps := remove1 nd (dps (snd p))\<rparr>"
  obtain t where "hmap_replace (lflow_to_dps c) p ?t = Some t"
    "holds ltd_uuid uuid_hash t (insert ?t (T - {snd p}))"
    using hm.keyed_repl [OF D(1) p(2), of ?t] p(1,3) by auto
  moreover have "ltd_uuid ` insert ?t (T - {snd p}) = ltd_uuid ` T" using p(2) by auto
  moreover have "lists_ok (L - {nd}) (insert ?t (T - {snd p}))"
    by (rule lists_ok_remove [OF D(2) holds_inj [OF D(1)] p(2,3) nd])
  ultimately show ?thesis unfolding unlink_dp_def f option.case by blast
qed

lemma ranges_remove:
  assumes "ranges_ok L" "nd \<in> L"
  shows "\<Union> (node_range ` L) - node_range nd = \<Union> (node_range ` (L - {nd}))"
  using assms unfolding ranges_ok_def by fast

lemma free'_ok:
  assumes inv: "conj_inv tm c L T" and nd: "nd \<in> L"
  shows "\<exists>c' T'. lflow_conj_ids_free' c (node_hash tm (node_key nd), nd) = Some c' \<and>
    conj_inv tm c' (L - {nd}) T' \<and> ltd_uuid ` T' = ltd_uuid ` T"
proof -
  note D = conj_invD [OF inv]
  have r: "n_conjs nd \<noteq> 0" "0 \<notin> node_range nd" using D(4) nd by (auto simp: ranges_ok_def)
  from remove_ids_ok [OF D(1) r(2) [unfolded node_range_def]]
  obtain a where a: "remove_ids (conj_id_allocations c) (start_conj_id nd) (unat (n_conjs nd)) = Some a"
    "holds (\<lambda>i. i) ucast a (\<Union> (node_range ` L) - node_range nd)" by (auto simp: node_range_def)
  note a2 = a(2) [unfolded ranges_remove [OF D(4) nd]]
  from hm.keyed_rem [OF D(2) nd] obtain l where
    l: "hmap_remove (lflow_conj_ids c) (node_hash tm (node_key nd), nd) = Some l"
    "holds node_key (node_hash tm) l (L - {nd})" by auto
  from unlink_dp_ok [OF D(3,5) nd] obtain t T' where
    t: "unlink_dp c nd = Some t" "holds ltd_uuid uuid_hash t T'" "lists_ok (L - {nd}) T'"
    "ltd_uuid ` T' = ltd_uuid ` T" by blast
  have "ranges_ok (L - {nd})" using D(4) by (auto simp: ranges_ok_def)
  then have "conj_inv tm \<lparr>conj_id_allocations = a, lflow_conj_ids = l, lflow_to_dps = t\<rparr> (L - {nd}) T'"
    unfolding conj_inv_def using a2 l(2) t by simp
  moreover have "lflow_conj_ids_free' c (node_hash tm (node_key nd), nd) =
      Some \<lparr>conj_id_allocations = a, lflow_conj_ids = l, lflow_to_dps = t\<rparr>"
    unfolding lflow_conj_ids_free'_def using r(1) a(1) l(1) t(1) by simp
  ultimately show ?thesis using t(4) by blast
qed

text \<open>After it, no node has the key; the other nodes stay.\<close>

lemma free_for_lflow_dp_ok:
  assumes inv: "conj_inv tm c L T"
  shows "\<exists>c' T'. lflow_conj_ids_free_for_lflow_dp tm c l d = Some c' \<and>
    conj_inv tm c' {nd \<in> L. node_key nd \<noteq> (l, d)} T' \<and> ltd_uuid ` T' = ltd_uuid ` T"
proof (cases "lflow_conj_ids_find' tm c l d")
  case None
  then have "(l, d) \<notin> node_key ` L" using find'_None [OF inv] by simp
  then have "{nd \<in> L. node_key nd \<noteq> (l, d)} = L" by (auto simp: image_iff)
  with None inv show ?thesis by (auto simp: lflow_conj_ids_free_for_lflow_dp_def)
next
  case (Some p)
  then have p: "p = (node_hash tm (l, d), snd p)" "snd p \<in> L" "node_key (snd p) = (l, d)"
    using find'_Some [OF inv] by blast+
  have "{nd \<in> L. node_key nd \<noteq> (l, d)} = L - {snd p}"
    using holds_inj [OF conj_invD(2) [OF inv]] p(2,3) by (auto simp: inj_on_def)
  moreover have "lflow_conj_ids_free_for_lflow_dp tm c l d =
      lflow_conj_ids_free' c (node_hash tm (node_key (snd p)), snd p)"
    unfolding lflow_conj_ids_free_for_lflow_dp_def Some option.case p(3) p(1) [symmetric] ..
  ultimately show ?thesis using free'_ok [OF inv p(2)] by simp
qed

text \<open>Freeing the nodes of a logical flow one by one.\<close>

lemma free_list_ok:
  "conj_inv tm c L T \<Longrightarrow> set ns \<subseteq> L \<Longrightarrow> distinct ns \<Longrightarrow>
     \<exists>c' T'. fold_opt (\<lambda>nd c. lflow_conj_ids_free' c
         (ucast (hash_lflow_dp tm (lflow_uuid nd) (dp_uuid nd)), nd)) ns c = Some c' \<and>
       conj_inv tm c' (L - set ns) T' \<and> ltd_uuid ` T' = ltd_uuid ` T"
proof (induction ns arbitrary: c L T)
  case (Cons nd ns)
  have h: "node_hash tm (node_key nd) = ucast (hash_lflow_dp tm (lflow_uuid nd) (dp_uuid nd))"
    by (simp add: node_hash_def node_key_def)
  from free'_ok [OF Cons.prems(1), of nd] Cons.prems obtain c1 T1 where
    c1: "lflow_conj_ids_free' c (node_hash tm (node_key nd), nd) = Some c1"
      "conj_inv tm c1 (L - {nd}) T1" "ltd_uuid ` T1 = ltd_uuid ` T" by auto
  have s: "L - set (nd # ns) = L - {nd} - set ns" by auto
  have "set ns \<subseteq> L - {nd}" "distinct ns" using Cons.prems(2,3) by auto
  from Cons.IH [OF c1(2) this] c1 show ?case unfolding s by (simp add: h)
qed auto

lemma free_ok:
  assumes inv: "conj_inv tm c L T"
  shows "\<exists>c' T'. lflow_conj_ids_free tm c l = Some c' \<and>
    conj_inv tm c' {nd \<in> L. lflow_uuid nd \<noteq> l} T' \<and> ltd_uuid ` T' = ltd_uuid ` T - {l}"
proof (cases "lflow_to_dps_find c l")
  case None
  then have l: "l \<notin> ltd_uuid ` T" using ltd_find_None [OF conj_invD(3) [OF inv]] by simp
  then have "{nd \<in> L. lflow_uuid nd \<noteq> l} = L"
    using conj_invD(5) [OF inv] unfolding lists_ok_def by blast
  with None inv l show ?thesis by (auto simp: lflow_conj_ids_free_def)
next
  case (Some p)
  then have p: "snd p \<in> T" "ltd_uuid (snd p) = l" using ltd_find_Some [OF conj_invD(3) [OF inv]] by blast+
  let ?ns = "dps (snd p)"
  have ns: "distinct ?ns" "set ?ns = {nd \<in> L. lflow_uuid nd = l}"
    using conj_invD(5) [OF inv] p by (auto simp: lists_ok_def)
  from free_list_ok [OF inv _ ns(1)] ns(2) obtain c1 T1 where
    c1: "fold_opt (\<lambda>nd c. lflow_conj_ids_free' c
         (ucast (hash_lflow_dp tm (lflow_uuid nd) (dp_uuid nd)), nd)) ?ns c = Some c1"
      "conj_inv tm c1 (L - set ?ns) T1" "ltd_uuid ` T1 = ltd_uuid ` T" by auto
  have L: "L - set ?ns = {nd \<in> L. lflow_uuid nd \<noteq> l}" using ns(2) by auto
  have "l \<in> ltd_uuid ` T1" using c1(3) p by auto
  then obtain q where fq: "lflow_to_dps_find c1 l = Some q" using ltd_find_None [OF conj_invD(3) [OF c1(2)]] by blast
  then have q: "q = (uuid_hash l, snd q)" "snd q \<in> T1" "ltd_uuid (snd q) = l"
    using ltd_find_Some [OF conj_invD(3) [OF c1(2)]] by blast+
  note D = conj_invD [OF c1(2)]
  from hm.keyed_rem [OF D(3) q(2)] q(1,3) obtain t where
    t: "hmap_remove (lflow_to_dps c1) q = Some t" "holds ltd_uuid uuid_hash t (T1 - {snd q})" by auto
  have keys: "ltd_uuid ` (T1 - {snd q}) = ltd_uuid ` T - {l}"
    using q(2,3) holds_inj [OF D(3)] c1(3) by (simp add: inj_on_image_set_diff [of _ T1])
  have "lists_ok (L - set ?ns) (T1 - {snd q})"
    using D(5) c1(3) unfolding lists_ok_def keys L by auto
  with D t have "conj_inv tm (c1\<lparr>lflow_to_dps := t\<rparr>) (L - set ?ns) (T1 - {snd q})"
    unfolding conj_inv_def by simp
  moreover have "lflow_conj_ids_free tm c l = Some (c1\<lparr>lflow_to_dps := t\<rparr>)"
    unfolding lflow_conj_ids_free_def Some using c1(1) fq t(1) by simp
  ultimately show ?thesis unfolding L using keys by blast
qed

section \<open>The abstract allocation\<close>

text \<open>
  What the allocator promises: a partial function from pairs of logical flow and datapath to
  ranges, given by first id and length.
\<close>

definition conj_view :: "bool \<Rightarrow> conj_ids \<Rightarrow> uuid \<times> uuid \<Rightarrow> (u32 \<times> u32) option" where
  "conj_view tm c k =
     map_option (\<lambda>nd. (start_conj_id (snd nd), n_conjs (snd nd))) (lflow_conj_ids_find' tm c (fst k) (snd k))"

definition conj_ids_ok :: "bool \<Rightarrow> conj_ids \<Rightarrow> bool" where
  "conj_ids_ok tm c \<longleftrightarrow> (\<exists>L T. conj_inv tm c L T)"

definition conj_room :: "conj_ids \<Rightarrow> bool" where
  "conj_room c \<longleftrightarrow> unat (hmap_count (lflow_to_dps c)) < 2 ^ 64 - 1"

lemma conj_view_iff:
  assumes "conj_inv tm c L T"
  shows "conj_view tm c (l, d) = Some (s, n) \<longleftrightarrow>
    \<lparr>lflow_uuid = l, dp_uuid = d, start_conj_id = s, n_conjs = n\<rparr> \<in> L" (is "_ \<longleftrightarrow> ?nd \<in> L")
proof
  assume "?nd \<in> L"
  then have "lflow_conj_ids_find' tm c l d = Some (node_hash tm (l, d), ?nd)"
    using find'_Some [OF assms, of l d "(node_hash tm (l, d), ?nd)"] by (simp add: node_key_def)
  then show "conj_view tm c (l, d) = Some (s, n)" by (simp add: conj_view_def)
next
  assume "conj_view tm c (l, d) = Some (s, n)"
  then obtain p where p: "lflow_conj_ids_find' tm c l d = Some p"
    "start_conj_id (snd p) = s" "n_conjs (snd p) = n" by (auto simp: conj_view_def)
  then have "snd p \<in> L" "node_key (snd p) = (l, d)" using find'_Some [OF assms] by blast+
  moreover from this p have "snd p = ?nd" by (simp add: node_key_def)
  ultimately show "?nd \<in> L" by simp
qed

lemma conj_view_eqI:
  assumes "conj_inv tm c L T" "conj_inv tm c' L' T'"
    and "\<And>nd. node_key nd = k \<Longrightarrow> nd \<in> L' \<longleftrightarrow> nd \<in> L"
  shows "conj_view tm c' k = conj_view tm c k"
proof -
  obtain l d where k: "k = (l, d)" by force
  have "conj_view tm c' (l, d) = Some p \<longleftrightarrow> conj_view tm c (l, d) = Some p" for p
    using assms(3) [of "\<lparr>lflow_uuid = l, dp_uuid = d, start_conj_id = fst p, n_conjs = snd p\<rparr>"]
      conj_view_iff [OF assms(1), of l d "fst p" "snd p"] conj_view_iff [OF assms(2), of l d "fst p" "snd p"]
    by (simp add: k node_key_def)
  then show ?thesis unfolding k by (metis option.exhaust)
qed

lemma conj_view_NoneI:
  assumes "conj_inv tm c L T" "\<And>nd. nd \<in> L \<Longrightarrow> node_key nd \<noteq> k"
  shows "conj_view tm c k = None"
proof -
  have "(fst k, snd k) \<notin> node_key ` L" using assms(2) by auto
  then show ?thesis using find'_None [OF assms(1)] by (simp add: conj_view_def)
qed

lemma conj_room_card: "conj_inv tm c L T \<Longrightarrow> conj_room c \<Longrightarrow> card T < 2 ^ 64 - 1"
  using conj_invD(3) [of tm c L T] size_hmap_bag [of "lflow_to_dps c"]
  by (simp add: conj_room_def keyed_def hmap_count_def)

lemma ltd_card:
  assumes "conj_inv tm c L T" "conj_inv tm c' L' T'" "ltd_uuid ` T' = ltd_uuid ` T"
  shows "card T' = card T"
  using holds_inj [OF conj_invD(3) [OF assms(1)]] holds_inj [OF conj_invD(3) [OF assms(2)]] assms(3)
  by (metis card_image)

lemma first_id_nonzero: "(if h = 0 then h + 1 else h) \<noteq> (0 :: u32)"
  by simp

text \<open>
  The state with which both kinds of allocation go on after they dropped a stale range.
\<close>

text \<open>The logical flows for which the map \<open>lflow_to_dps\<close> has a node.\<close>

definition ltd_dom :: "conj_ids \<Rightarrow> uuid set" where
  "ltd_dom c = {l. lflow_to_dps_find c l \<noteq> None}"

lemma ltd_dom_eq: "conj_inv tm c L T \<Longrightarrow> ltd_dom c = ltd_uuid ` T"
  using ltd_find_None [OF conj_invD(3)] by (auto simp: ltd_dom_def)

lemma alloc_start:
  assumes "conj_ids_ok tm c" "conj_room c"
  obtains c1 L T where "lflow_conj_ids_free_for_lflow_dp tm c l d = Some c1" "conj_inv tm c1 L T"
    "card T < 2 ^ 64 - 1" "\<And>nd. nd \<in> L \<Longrightarrow> node_key nd \<noteq> (l, d)"
    "\<And>k. k \<noteq> (l, d) \<Longrightarrow> conj_view tm c1 k = conj_view tm c k" "conj_view tm c1 (l, d) = None"
    "ltd_dom c1 = ltd_dom c"
proof -
  from assms(1) obtain L0 T0 where inv: "conj_inv tm c L0 T0" by (auto simp: conj_ids_ok_def)
  from free_for_lflow_dp_ok [OF inv, of l d] obtain c1 T where c1:
    "lflow_conj_ids_free_for_lflow_dp tm c l d = Some c1"
    "conj_inv tm c1 {nd \<in> L0. node_key nd \<noteq> (l, d)} T" "ltd_uuid ` T = ltd_uuid ` T0" by blast
  show ?thesis
  proof (rule that [OF c1(1,2)])
    show "card T < 2 ^ 64 - 1" using ltd_card [OF inv c1(2,3)] conj_room_card [OF inv assms(2)] by simp
    show "conj_view tm c1 k = conj_view tm c k" if "k \<noteq> (l, d)" for k
      using that by (intro conj_view_eqI [OF inv c1(2)]) auto
    show "conj_view tm c1 (l, d) = None" by (intro conj_view_NoneI [OF c1(2)]) auto
    show "ltd_dom c1 = ltd_dom c" using ltd_dom_eq [OF inv] ltd_dom_eq [OF c1(2)] c1(3) by simp
  qed auto
qed

text \<open>
  The new range in the view: the other ranges stay, and they do not overlap it.
\<close>

definition conj_added :: "bool \<Rightarrow> conj_ids \<Rightarrow> conj_ids \<Rightarrow> uuid \<times> uuid \<Rightarrow> u32 \<Rightarrow> u32 \<Rightarrow> bool" where
  "conj_added tm c c' k s n \<longleftrightarrow>
     conj_view tm c' = (conj_view tm c)(k \<mapsto> (s, n)) \<and> 0 \<notin> conj_range s (unat n) \<and>
     (\<forall>k' s' n'. k' \<noteq> k \<and> conj_view tm c k' = Some (s', n') \<longrightarrow>
        conj_range s' (unat n') \<inter> conj_range s (unat n) = {})"

lemma insert'_view:
  assumes inv: "conj_inv tm c L T" and room: "card T < 2 ^ 64 - 1"
    and new: "\<And>nd. nd \<in> L \<Longrightarrow> node_key nd \<noteq> (l, d)"
    and n: "n \<noteq> 0" and r: "clear_upto (id_taken c) s (unat n)"
  shows "\<exists>c'. lflow_conj_ids_insert' tm c l d s n = Some c' \<and> conj_ids_ok tm c' \<and> conj_added tm c c' (l, d) s n \<and>
    ltd_dom c' = insert l (ltd_dom c)"
proof -
  let ?nd = "\<lparr>lflow_uuid = l, dp_uuid = d, start_conj_id = s, n_conjs = n\<rparr>"
  have r': "0 \<notin> conj_range s (unat n)" "conj_range s (unat n) \<inter> \<Union> (node_range ` L) = {}"
    using r by (auto simp: clear_upto_def id_taken_iff [OF inv])
  have "(l, d) \<notin> node_key ` L" using new by (metis imageE)
  from insert'_ok [OF inv this n r' room] obtain c' T' where c':
    "lflow_conj_ids_insert' tm c l d s n = Some c'" "conj_inv tm c' (insert ?nd L) T'"
    "ltd_uuid ` T' = insert l (ltd_uuid ` T)" by blast
  have "conj_view tm c' k = ((conj_view tm c)((l, d) \<mapsto> (s, n))) k" for k
  proof (cases "k = (l, d)")
    case True
    then show ?thesis using conj_view_iff [OF c'(2), of l d s n] by simp
  next
    case False
    have "conj_view tm c' k = conj_view tm c k"
      by (rule conj_view_eqI [OF inv c'(2)]) (use False in \<open>auto simp: node_key_def\<close>)
    with False show ?thesis by simp
  qed
  moreover have "conj_range s' (unat n') \<inter> conj_range s (unat n) = {}"
    if "conj_view tm c k' = Some (s', n')" for k' s' n'
    using r'(2) that conj_view_iff [OF inv, of "fst k'" "snd k'" s' n'] by (force simp: node_range_def)
  ultimately have "conj_added tm c c' (l, d) s n"
    unfolding conj_added_def using r'(1) by (intro conjI allI impI ext) blast+
  moreover have "ltd_dom c' = insert l (ltd_dom c)" using c'(3) ltd_dom_eq [OF inv] ltd_dom_eq [OF c'(2)] by simp
  ultimately show ?thesis using c'(1,2) by (auto simp: conj_ids_ok_def)
qed

lemma conj_added_later:
  assumes "conj_added tm c1 c' k s n" "\<And>k'. k' \<noteq> k \<Longrightarrow> conj_view tm c1 k' = conj_view tm c k'"
  shows "conj_added tm c c' k s n"
proof -
  have "(conj_view tm c1)(k \<mapsto> (s, n)) = (conj_view tm c)(k \<mapsto> (s, n))"
    using assms(2) by (intro ext) simp
  with assms show ?thesis unfolding conj_added_def by metis
qed

lemma conj_view_taken:
  assumes "conj_inv tm c L T"
  shows "id_taken c i \<longleftrightarrow> (\<exists>k s n. conj_view tm c k = Some (s, n) \<and> i \<in> conj_range s (unat n))"
proof
  assume "id_taken c i"
  then obtain nd where nd: "nd \<in> L" "i \<in> node_range nd" using id_taken_iff [OF assms] by auto
  then have "conj_view tm c (node_key nd) = Some (start_conj_id nd, n_conjs nd)"
    using conj_view_iff [OF assms, of "lflow_uuid nd" "dp_uuid nd" "start_conj_id nd" "n_conjs nd"]
    by (cases nd) (simp add: node_key_def)
  with nd(2) show "\<exists>k s n. conj_view tm c k = Some (s, n) \<and> i \<in> conj_range s (unat n)"
    unfolding node_range_def by blast
next
  assume "\<exists>k s n. conj_view tm c k = Some (s, n) \<and> i \<in> conj_range s (unat n)"
  then obtain l d s n where "conj_view tm c (l, d) = Some (s, n)" "i \<in> conj_range s (unat n)" by auto
  then show "id_taken c i"
    unfolding id_taken_iff [OF assms] conj_view_iff [OF assms] by (auto simp: node_range_def intro!: bexI)
qed

section \<open>Properties\<close>

lemma conj_ids_init_ok: "conj_inv tm lflow_conj_ids_init {} {}"
  by (simp add: conj_inv_def lflow_conj_ids_init_def hm.keyed_empty ranges_ok_def lists_ok_def)

lemma conj_ids_init_room: "conj_room lflow_conj_ids_init"
  by (simp add: conj_room_def lflow_conj_ids_init_def hmap_count_def hmap_init_def)

lemma alloc_ok:
  assumes "conj_ids_ok tm c" "conj_room c"
  shows "\<exists>r c'. lflow_conj_ids_alloc tm c l d n = Some (r, c') \<and> conj_ids_ok tm c' \<and>
    (if n = 0 then r = 0 \<and> c' = c
     else if r = 0 then conj_view tm c' = (conj_view tm c)((l, d) := None)
     else conj_added tm c c' (l, d) r n) \<and> ltd_dom c' \<subseteq> insert l (ltd_dom c)"
proof (cases "n = 0")
  case True
  then show ?thesis using assms by (auto simp: lflow_conj_ids_alloc_def)
next
  case False
  obtain c1 L T where c1: "lflow_conj_ids_free_for_lflow_dp tm c l d = Some c1" "conj_inv tm c1 L T"
    "card T < 2 ^ 64 - 1" "\<And>nd. nd \<in> L \<Longrightarrow> node_key nd \<noteq> (l, d)"
    "\<And>k. k \<noteq> (l, d) \<Longrightarrow> conj_view tm c1 k = conj_view tm c k" "conj_view tm c1 (l, d) = None"
    "ltd_dom c1 = ltd_dom c"
    using alloc_start [OF assms] by metis
  define i where "i = (if hash_lflow_dp tm l d = 0 then hash_lflow_dp tm l d + 1 else hash_lflow_dp tm l d)"
  have "i \<noteq> 0" unfolding i_def by (rule first_id_nonzero)
  from alloc_search_ok [OF this False] obtain r where r: "alloc_search (id_taken c1) n i True i = Some r"
    "search_result (id_taken c1) n i r" by blast
  have alloc: "lflow_conj_ids_alloc tm c l d n =
      (if r = 0 then Some (0, c1)
       else Option.bind (lflow_conj_ids_insert' tm c1 l d r n) (\<lambda>c. Some (r, c)))"
    unfolding lflow_conj_ids_alloc_def using False c1(1) r(1) by (simp add: i_def Let_def)
  show ?thesis
  proof (cases "r = 0")
    case True
    have "conj_view tm c1 = (conj_view tm c)((l, d) := None)" using c1(5,6) by (intro ext) simp
    with alloc True c1(2,7) False show ?thesis by (auto simp: conj_ids_ok_def)
  next
    case r0: False
    then have "clear_upto (id_taken c1) r (unat n)" using r(2) by (simp add: search_result_def)
    from insert'_view [OF c1(2,3,4) False this] obtain c' where c':
      "lflow_conj_ids_insert' tm c1 l d r n = Some c'" "conj_ids_ok tm c'" "conj_added tm c1 c' (l, d) r n"
      "ltd_dom c' = insert l (ltd_dom c1)" by blast
    then show ?thesis using alloc r0 False conj_added_later [OF c'(3) c1(5)] c1(7) by simp
  qed
qed



text \<open>
  \<^bold>\<open>C9\<close>: For every set of taken ids, the search of \<open>lflow_conj_ids_alloc\<close> for \<open>n\<close> ids ends. It
  returns the first id of a free range, or 0; then every range of \<open>n\<close> ids contains 0 or a
  taken id, or runs over the id where the search began. A search for one id gives up only if
  all ids are taken.
\<close>

theorem alloc_search_complete:
  assumes "initial_id \<noteq> 0" "n \<noteq> 0"
  shows "\<exists>r. alloc_search taken n initial_id True initial_id = Some r \<and>
    (if r = 0
     then (\<forall>s. 0 \<in> conj_range s (unat n) \<or> (\<exists>j \<in> conj_range s (unat n). taken j) \<or>
             s \<noteq> initial_id \<and> initial_id \<in> conj_range s (unat n)) \<and>
          (n = 1 \<longrightarrow> (\<forall>i. i \<noteq> 0 \<longrightarrow> taken i))
     else 0 \<notin> conj_range r (unat n) \<and> (\<forall>i \<in> conj_range r (unat n). \<not> taken i))"
proof -
  obtain r where r: "alloc_search taken n initial_id True initial_id = Some r"
    "search_result taken n initial_id r" using alloc_search_ok [OF assms] by blast
  have one: "conj_range s (Suc 0) = {s}" for s by (simp add: conj_range_Suc)
  show ?thesis
  proof (cases "r = 0")
    case True
    then have c: "\<forall>s. covered taken initial_id (unat n) s" using r(2) by (simp add: search_result_def)
    then have "taken i" if "n = 1" "i \<noteq> 0" for i
      using spec [OF c, of i] that by (auto simp: covered_def one)
    moreover have "\<forall>s. 0 \<in> conj_range s (unat n) \<or> (\<exists>j \<in> conj_range s (unat n). taken j) \<or>
        s \<noteq> initial_id \<and> initial_id \<in> conj_range s (unat n)"
      using c unfolding covered_def .
    ultimately show ?thesis using r(1) True by simp
  next
    case False
    then show ?thesis using r by (auto simp: search_result_def clear_upto_def)
  qed
qed

theorem alloc_search_complete_witness:
  "\<exists>r. alloc_search (\<lambda>i. i < 7) 3 5 True 5 = Some r \<and> (r = 0 \<or> 0 \<notin> conj_range r 3)"
  using alloc_search_complete [of 5 3 "\<lambda>i. i < 7"] by (auto split: if_splits)

lemma alloc_specified_ok:
  assumes "conj_ids_ok tm c" "conj_room c"
  shows "\<exists>r c'. lflow_conj_ids_alloc_specified tm c l d s n = Some (r, c') \<and> conj_ids_ok tm c' \<and>
    (if n = 0 then \<not> r \<and> c' = c
     else if r then conj_added tm c c' (l, d) s n
     else conj_view tm c' = (conj_view tm c)((l, d) := None) \<and>
       (0 \<in> conj_range s (unat n) \<or> (\<exists>i \<in> conj_range s (unat n). id_taken c' i))) \<and>
    ltd_dom c' \<subseteq> insert l (ltd_dom c)"
proof (cases "n = 0")
  case True
  then show ?thesis
    using assms by (intro exI [of _ False] exI [of _ c]) (auto simp: lflow_conj_ids_alloc_specified_def)
next
  case False
  obtain c1 L T where c1: "lflow_conj_ids_free_for_lflow_dp tm c l d = Some c1" "conj_inv tm c1 L T"
    "card T < 2 ^ 64 - 1" "\<And>nd. nd \<in> L \<Longrightarrow> node_key nd \<noteq> (l, d)"
    "\<And>k. k \<noteq> (l, d) \<Longrightarrow> conj_view tm c1 k = conj_view tm c k" "conj_view tm c1 (l, d) = None"
    "ltd_dom c1 = ltd_dom c"
    using alloc_start [OF assms] by metis
  have alloc: "lflow_conj_ids_alloc_specified tm c l d s n =
      (if clear_upto (id_taken c1) s (unat n)
       then Option.bind (lflow_conj_ids_insert' tm c1 l d s n) (\<lambda>c. Some (True, c))
       else Some (False, c1))"
    unfolding lflow_conj_ids_alloc_specified_def using False c1(1)
    by (simp add: range_free_iff clear_upto_def)
  show ?thesis
  proof (cases "clear_upto (id_taken c1) s (unat n)")
    case True
    from insert'_view [OF c1(2,3,4) False True] obtain c' where c':
      "lflow_conj_ids_insert' tm c1 l d s n = Some c'" "conj_ids_ok tm c'" "conj_added tm c1 c' (l, d) s n"
      "ltd_dom c' = insert l (ltd_dom c1)" by blast
    then have "lflow_conj_ids_alloc_specified tm c l d s n = Some (True, c')" using alloc True by simp
    moreover have "conj_added tm c c' (l, d) s n" by (rule conj_added_later [OF c'(3) c1(5)])
    ultimately show ?thesis using c'(2,4) c1(7) False by (intro exI [of _ True] exI [of _ c']) simp
  next
    case no: False
    have "conj_view tm c1 = (conj_view tm c)((l, d) := None)" using c1(5,6) by (intro ext) simp
    moreover have "conj_ids_ok tm c1" using c1(2) by (auto simp: conj_ids_ok_def)
    ultimately show ?thesis
      using alloc no False c1(7) by (intro exI [of _ False] exI [of _ c1]) (auto simp: clear_upto_def)
  qed
qed

text \<open>
  \<^bold>\<open>C11\<close>: \<open>lflow_conj_ids_alloc_specified\<close> keeps the maps consistent. It returns true exactly if the
  range contains neither 0 nor an id of another owner, and then the flow owns the range.
\<close>

theorem lflow_conj_ids_alloc_specified_correct:
  assumes "conj_ids_ok tm c" "conj_room c"
  shows "\<exists>r c'. lflow_conj_ids_alloc_specified tm c l d s n = Some (r, c') \<and> conj_ids_ok tm c' \<and>
    (if n = 0 then \<not> r \<and> c' = c
     else if r then conj_added tm c c' (l, d) s n
     else conj_view tm c' = (conj_view tm c)((l, d) := None) \<and>
       (0 \<in> conj_range s (unat n) \<or> (\<exists>i \<in> conj_range s (unat n). id_taken c' i)))"
  using alloc_specified_ok [OF assms, of l d s n] by blast

theorem lflow_conj_ids_alloc_specified_correct_witness:
  "\<exists>r c'. lflow_conj_ids_alloc_specified True lflow_conj_ids_init uuid_zero uuid_zero 7 2 = Some (r, c') \<and>
    conj_ids_ok True c'"
  using lflow_conj_ids_alloc_specified_correct [of True lflow_conj_ids_init uuid_zero uuid_zero 7 2]
    conj_ids_init_ok [of True] conj_ids_init_room by (auto simp: conj_ids_ok_def)

lemma free_view:
  assumes "conj_ids_ok tm c"
  shows "\<exists>c'. lflow_conj_ids_free tm c l = Some c' \<and> conj_ids_ok tm c' \<and>
    conj_view tm c' = (\<lambda>k. if fst k = l then None else conj_view tm c k) \<and>
    (\<forall>i. id_taken c' i \<longleftrightarrow> (\<exists>k s n. conj_view tm c' k = Some (s, n) \<and> i \<in> conj_range s (unat n))) \<and>
    ltd_dom c' \<subseteq> ltd_dom c"
proof -
  from assms obtain L T where inv: "conj_inv tm c L T" by (auto simp: conj_ids_ok_def)
  from free_ok [OF inv, of l] obtain c' T' where c': "lflow_conj_ids_free tm c l = Some c'"
    "conj_inv tm c' {nd \<in> L. lflow_uuid nd \<noteq> l} T'" "ltd_uuid ` T' = ltd_uuid ` T - {l}" by blast
  have "conj_view tm c' k = None" if "fst k = l" for k
    by (rule conj_view_NoneI [OF c'(2)]) (use that in \<open>auto simp: node_key_def\<close>)
  moreover have "conj_view tm c' k = conj_view tm c k" if "fst k \<noteq> l" for k
    by (rule conj_view_eqI [OF inv c'(2)]) (use that in \<open>auto simp: node_key_def\<close>)
  ultimately have "conj_view tm c' = (\<lambda>k. if fst k = l then None else conj_view tm c k)"
    by (intro ext) simp
  moreover have "id_taken c' i \<longleftrightarrow> (\<exists>k s n. conj_view tm c' k = Some (s, n) \<and> i \<in> conj_range s (unat n))" for i
    using conj_view_taken [OF c'(2)] by blast
  moreover have "ltd_dom c' \<subseteq> ltd_dom c" unfolding ltd_dom_eq [OF inv] ltd_dom_eq [OF c'(2)] c'(3) by (rule Diff_subset)
  ultimately show ?thesis using c'(1,2) by (auto simp: conj_ids_ok_def)
qed

text \<open>
  \<^bold>\<open>C10\<close>: \<open>lflow_conj_ids_free\<close> takes all ranges away from a logical flow, on whatever datapath, and
  no range from any other flow; an id is taken afterwards exactly if one of the remaining
  ranges contains it.
\<close>

theorem lflow_conj_ids_free_correct:
  assumes "conj_ids_ok tm c"
  shows "\<exists>c'. lflow_conj_ids_free tm c l = Some c' \<and> conj_ids_ok tm c' \<and>
    conj_view tm c' = (\<lambda>k. if fst k = l then None else conj_view tm c k) \<and>
    (\<forall>i. id_taken c' i \<longleftrightarrow> (\<exists>k s n. conj_view tm c' k = Some (s, n) \<and> i \<in> conj_range s (unat n)))"
  using free_view [OF assms, of l] by (elim exE conjE) (intro exI conjI)

theorem lflow_conj_ids_free_correct_witness:
  "\<exists>c'. lflow_conj_ids_free True lflow_conj_ids_init uuid_zero = Some c' \<and> conj_ids_ok True c'"
proof -
  have "conj_ids_ok True lflow_conj_ids_init" using conj_ids_init_ok by (auto simp: conj_ids_ok_def)
  from lflow_conj_ids_free_correct [OF this, of uuid_zero] show ?thesis by blast
qed

subsection \<open>Everything removed, and the report\<close>

lemma unlink_all_ok:
  "holds node_key (node_hash tm) (lflow_conj_ids c) (set ns) \<Longrightarrow>
     holds ltd_uuid uuid_hash (lflow_to_dps c) T \<Longrightarrow> lists_ok (set ns) T \<Longrightarrow> distinct ns \<Longrightarrow>
     \<exists>c' T'. fold_opt (\<lambda>nd c. do {
              l \<leftarrow> hmap_remove (lflow_conj_ids c) nd;
              t \<leftarrow> unlink_dp c (snd nd);
              Some (c\<lparr>lflow_conj_ids := l, lflow_to_dps := t\<rparr>) })
         (map (\<lambda>nd. (node_hash tm (node_key nd), nd)) ns) c = Some c' \<and>
       conj_id_allocations c' = conj_id_allocations c \<and>
       holds node_key (node_hash tm) (lflow_conj_ids c') {} \<and>
       holds ltd_uuid uuid_hash (lflow_to_dps c') T'"
proof (induction ns arbitrary: c T)
  case (Cons nd ns)
  have s: "set (nd # ns) - {nd} = set ns" using Cons.prems(4) by auto
  from hm.keyed_rem [OF Cons.prems(1), of nd] obtain l where
    l: "hmap_remove (lflow_conj_ids c) (node_hash tm (node_key nd), nd) = Some l"
    "holds node_key (node_hash tm) l (set ns)" unfolding s by auto
  from unlink_dp_ok [OF Cons.prems(2,3), of nd] obtain t T' where
    t: "unlink_dp c nd = Some t" "holds ltd_uuid uuid_hash t T'" "lists_ok (set ns) T'"
    unfolding s by auto
  from Cons.IH [of "c\<lparr>lflow_conj_ids := l, lflow_to_dps := t\<rparr>" T'] l t Cons.prems(4) show ?case by auto
qed auto

lemma destroy_ok:
  assumes "conj_inv tm c L T"
  shows "\<exists>c'. lflow_conj_ids_destroy c = Some c' \<and> conj_inv tm c' {} {}"
proof -
  note D = conj_invD [OF assms]
  from hm.keyed_drain [OF D(1)] obtain ids a where a: "hmap_for_each (conj_id_allocations c) = Some ids"
    "fold_opt (\<lambda>nd h. hmap_remove h nd) ids (conj_id_allocations c) = Some a" "holds (\<lambda>i. i) ucast a {}" by blast
  from hm.keyed_each [OF D(2)] obtain ns where
    ns: "hmap_for_each (lflow_conj_ids c) = Some (map (\<lambda>nd. (node_hash tm (node_key nd), nd)) ns)"
    "distinct ns" "set ns = L" by blast
  from unlink_all_ok [of tm "c\<lparr>conj_id_allocations := a\<rparr>" ns T] D ns obtain c1 T1 where
    c1: "fold_opt (\<lambda>nd c. do {
              l \<leftarrow> hmap_remove (lflow_conj_ids c) nd;
              t \<leftarrow> unlink_dp c (snd nd);
              Some (c\<lparr>lflow_conj_ids := l, lflow_to_dps := t\<rparr>) })
         (map (\<lambda>nd. (node_hash tm (node_key nd), nd)) ns) (c\<lparr>conj_id_allocations := a\<rparr>) = Some c1"
      "conj_id_allocations c1 = a" "holds node_key (node_hash tm) (lflow_conj_ids c1) {}"
      "holds ltd_uuid uuid_hash (lflow_to_dps c1) T1" by auto
  from hm.keyed_drain [OF c1(4)] obtain ltds t where t: "hmap_for_each (lflow_to_dps c1) = Some ltds"
    "fold_opt (\<lambda>nd h. hmap_remove h nd) ltds (lflow_to_dps c1) = Some t" "holds ltd_uuid uuid_hash t {}" by blast
  have "lflow_conj_ids_destroy c = Some (c1\<lparr>lflow_to_dps := t\<rparr>)"
    unfolding lflow_conj_ids_destroy_def using a(1,2) ns(1) c1(1) t(1,2) by simp
  moreover have "conj_inv tm (c1\<lparr>lflow_to_dps := t\<rparr>) {} {}"
    using a(3) c1(2,3) t(3) by (simp add: conj_inv_def ranges_ok_def lists_ok_def)
  ultimately show ?thesis by blast
qed

lemma card_conj_range: "n < 2 ^ 32 \<Longrightarrow> card (conj_range s n) = n"
proof -
  assume n: "n < 2 ^ 32"
  have "inj_on (\<lambda>m. s + (of_nat m :: u32)) {..<n}"
  proof (rule inj_onI)
    fix x y assume "x \<in> {..<n}" "y \<in> {..<n}" "s + (of_nat x :: u32) = s + of_nat y"
    then show "x = y" using n of_nat_u32_inj [of x y] by simp
  qed
  then show ?thesis unfolding conj_range_def by (simp add: card_image)
qed

lemma conj_count:
  assumes inv: "conj_inv tm c L T"
  shows "unat (hmap_count (conj_id_allocations c)) = (\<Sum>nd \<in> L. unat (n_conjs nd))"
proof -
  note D = conj_invD [OF inv]
  have fin: "finite L" using D(2) by (rule holds_finite)
  have "unat (hmap_count (conj_id_allocations c)) = card (\<Union> (node_range ` L))"
    using D(1) size_hmap_bag [of "conj_id_allocations c"] by (simp add: keyed_def hmap_count_def)
  also have "\<dots> = (\<Sum>nd \<in> L. card (node_range nd))"
    by (rule card_UN_disjoint [OF fin]) (use D(4) in \<open>auto simp: ranges_ok_def\<close>)
  also have "\<dots> = (\<Sum>nd \<in> L. unat (n_conjs nd))"
    using unsigned_less [where ?'a = nat and ?'b = 32]
    by (intro sum.cong) (simp_all add: node_range_def card_conj_range)
  finally show ?thesis .
qed

lemma dump_ok:
  assumes inv: "conj_inv tm c L T"
  shows "\<exists>r. lflow_conj_ids_dump c = Some (r, hmap_count (conj_id_allocations c), None)"
proof -
  from hm.keyed_each [OF conj_invD(2) [OF inv]] obtain ns where
    ns: "hmap_for_each (lflow_conj_ids c) = Some (map (\<lambda>nd. (node_hash tm (node_key nd), nd)) ns)"
    "distinct ns" "set ns = L" by blast
  have "sum_list (map (\<lambda>nd. ucast (n_conjs nd) :: u64) ns) = of_nat (\<Sum>nd \<leftarrow> ns. unat (n_conjs nd))" for ns
    by (induction ns) simp_all
  also have "(\<Sum>nd \<leftarrow> ns. unat (n_conjs nd)) = unat (hmap_count (conj_id_allocations c))"
    unfolding conj_count [OF inv] ns(3) [symmetric] by (rule sum_list_distinct_conv_sum_set [OF ns(2)])
  finally have "sum_list (map (\<lambda>nd. ucast (n_conjs nd)) ns) = hmap_count (conj_id_allocations c)" by simp
  with ns(1) show ?thesis by (simp add: lflow_conj_ids_dump_def comp_def)
qed

subsection \<open>Runs\<close>

text \<open>
  The public operations as steps; a step that allocates needs room for one more list.
\<close>

inductive conj_step :: "bool \<Rightarrow> conj_ids \<Rightarrow> conj_ids \<Rightarrow> bool" for tm where
  alloc: "conj_room c \<Longrightarrow> lflow_conj_ids_alloc tm c l d n = Some (r, c') \<Longrightarrow> conj_step tm c c'"
| specified: "conj_room c \<Longrightarrow> lflow_conj_ids_alloc_specified tm c l d s n = Some (b, c') \<Longrightarrow> conj_step tm c c'"
| free: "lflow_conj_ids_free tm c l = Some c' \<Longrightarrow> conj_step tm c c'"
| clear: "lflow_conj_ids_clear c = Some c' \<Longrightarrow> conj_step tm c c'"

inductive conj_reachable :: "bool \<Rightarrow> conj_ids \<Rightarrow> bool" for tm where
  init: "conj_reachable tm lflow_conj_ids_init"
| step: "conj_reachable tm c \<Longrightarrow> conj_step tm c c' \<Longrightarrow> conj_reachable tm c'"

lemma conj_step_ok: "conj_step tm c c' \<Longrightarrow> conj_ids_ok tm c \<Longrightarrow> conj_ids_ok tm c'"
proof (induction rule: conj_step.induct)
  case (alloc c l d n r c')
  then obtain r' c2 where "lflow_conj_ids_alloc tm c l d n = Some (r', c2)" "conj_ids_ok tm c2"
    using alloc_ok [of tm c l d n] by blast
  with alloc(2) show ?case by simp
next
  case (specified c l d s n b c')
  then obtain b' c2 where "lflow_conj_ids_alloc_specified tm c l d s n = Some (b', c2)" "conj_ids_ok tm c2"
    using alloc_specified_ok [of tm c l d s n] by blast
  with specified(2) show ?case by simp
next
  case (free c l c')
  then obtain L T where "conj_inv tm c L T" by (auto simp: conj_ids_ok_def)
  from free_ok [OF this, of l] free(1) show ?case by (auto simp: conj_ids_ok_def)
next
  case (clear c c')
  then have "c' = lflow_conj_ids_init"
    by (cases "lflow_conj_ids_destroy c") (auto simp: lflow_conj_ids_clear_def)
  then show ?case using conj_ids_init_ok by (auto simp: conj_ids_ok_def)
qed

lemma conj_reachable_ok: "conj_reachable tm c \<Longrightarrow> conj_ids_ok tm c"
proof (induction rule: conj_reachable.induct)
  case init
  then show ?case using conj_ids_init_ok by (auto simp: conj_ids_ok_def)
qed (rule conj_step_ok)

lemma view_disjoint:
  assumes inv: "conj_inv tm c L T"
    and "conj_view tm c k = Some (s, n)" "conj_view tm c k' = Some (s', n')" "k \<noteq> k'"
  shows "conj_range s (unat n) \<inter> conj_range s' (unat n') = {}"
proof -
  let ?nd = "\<lambda>k s n. \<lparr>lflow_uuid = fst k, dp_uuid = snd k, start_conj_id = s, n_conjs = n\<rparr>"
  have "?nd k s n \<in> L" "?nd k' s' n' \<in> L"
    using conj_view_iff [OF inv, of "fst k" "snd k" s n] conj_view_iff [OF inv, of "fst k'" "snd k'" s' n'] assms
    by simp_all
  moreover have "?nd k s n \<noteq> ?nd k' s' n'" using assms(4) by (auto simp: prod_eq_iff)
  ultimately have "node_range (?nd k s n) \<inter> node_range (?nd k' s' n') = {}"
    using conj_invD(4) [OF inv] unfolding ranges_ok_def by blast
  then show ?thesis by (simp add: node_range_def)
qed

text \<open>
  \<^bold>\<open>C8\<close>: In every state that the public operations reach from the initial one, the ranges of two
  owners never overlap, an id is taken exactly if some owner has it, 0 is never taken, and the
  report never finds a mismatch between the maps.
\<close>

theorem conj_reachable_invariant:
  assumes "conj_reachable tm c"
  shows "(\<forall>k k' s n s' n'. conj_view tm c k = Some (s, n) \<and> conj_view tm c k' = Some (s', n') \<and> k \<noteq> k' \<longrightarrow>
      conj_range s (unat n) \<inter> conj_range s' (unat n') = {}) \<and>
    (\<forall>i. id_taken c i \<longleftrightarrow> (\<exists>k s n. conj_view tm c k = Some (s, n) \<and> i \<in> conj_range s (unat n))) \<and>
    \<not> id_taken c 0 \<and>
    (\<exists>r count. lflow_conj_ids_dump c = Some (r, count, None))"
proof -
  obtain L T where inv: "conj_inv tm c L T"
    using conj_reachable_ok [OF assms] by (auto simp: conj_ids_ok_def)
  have "\<not> id_taken c 0"
    using conj_invD(4) [OF inv] by (auto simp: id_taken_iff [OF inv] ranges_ok_def)
  then show ?thesis
    using view_disjoint [OF inv] conj_view_taken [OF inv] dump_ok [OF inv] by blast
qed

theorem conj_reachable_invariant_witness:
  "\<not> id_taken lflow_conj_ids_init 0 \<and> (\<exists>r count. lflow_conj_ids_dump lflow_conj_ids_init = Some (r, count, None))"
  using conj_reachable_invariant [OF conj_reachable.init [of True]] by blast

text \<open>
  \<^bold>\<open>C13\<close>: No public operation aborts in a reachable state: allocations always return, and freeing
  a flow and clearing everything never fail an assertion or remove a node that is not in its
  map.
\<close>

theorem conj_operations_return:
  assumes "conj_reachable tm c" "conj_room c"
  shows "(\<exists>r c'. lflow_conj_ids_alloc tm c l d n = Some (r, c')) \<and>
    (\<exists>b c'. lflow_conj_ids_alloc_specified tm c l d s n = Some (b, c')) \<and>
    (\<exists>c'. lflow_conj_ids_free tm c l = Some c') \<and>
    lflow_conj_ids_clear c = Some lflow_conj_ids_init"
proof -
  have ok: "conj_ids_ok tm c" by (rule conj_reachable_ok [OF assms(1)])
  then obtain L T where inv: "conj_inv tm c L T" by (auto simp: conj_ids_ok_def)
  have "lflow_conj_ids_clear c = Some lflow_conj_ids_init"
    using destroy_ok [OF inv] by (auto simp: lflow_conj_ids_clear_def)
  with alloc_ok [OF ok assms(2), of l d n] alloc_specified_ok [OF ok assms(2), of l d s n]
    free_ok [OF inv, of l] show ?thesis by blast
qed

theorem conj_operations_return_witness:
  "\<exists>r c'. lflow_conj_ids_alloc True lflow_conj_ids_init uuid_zero uuid_zero 2 = Some (r, c')"
  using conj_operations_return [OF conj_reachable.init [of True] conj_ids_init_room] by blast

subsection \<open>When the ids run out\<close>

text \<open>
  No range of \<open>n\<close> ids is left: each has 0 or a taken id in it, or runs over the one id \<open>i\<close> where the
  search began. At least one id in about \<open>n\<close> is then taken.
\<close>

definition ids_exhausted :: "(u32 \<Rightarrow> bool) \<Rightarrow> u32 \<Rightarrow> bool" where
  "ids_exhausted taken n \<longleftrightarrow> (\<exists>i. \<forall>s. 0 \<in> conj_range s (unat n) \<or> (\<exists>j \<in> conj_range s (unat n). taken j) \<or>
     s \<noteq> i \<and> i \<in> conj_range s (unat n))"

lemma alloc_exhausted:
  assumes c: "conj_ids_ok tm c" "conj_room c" and n: "n \<noteq> 0"
    and al: "lflow_conj_ids_alloc tm c l d n = Some (0, c')"
  shows "ids_exhausted (id_taken c') n"
proof -
  obtain c1 L T where c1: "lflow_conj_ids_free_for_lflow_dp tm c l d = Some c1" "conj_inv tm c1 L T"
    "card T < 2 ^ 64 - 1" "\<And>nd. nd \<in> L \<Longrightarrow> node_key nd \<noteq> (l, d)" using alloc_start [OF c] by metis
  define i where "i = (if hash_lflow_dp tm l d = 0 then hash_lflow_dp tm l d + 1 else hash_lflow_dp tm l d)"
  have "i \<noteq> 0" unfolding i_def by (rule first_id_nonzero)
  from alloc_search_ok [OF this n] obtain r where r: "alloc_search (id_taken c1) n i True i = Some r"
    "search_result (id_taken c1) n i r" by blast
  have alloc: "lflow_conj_ids_alloc tm c l d n =
      (if r = 0 then Some (0, c1)
       else Option.bind (lflow_conj_ids_insert' tm c1 l d r n) (\<lambda>c. Some (r, c)))"
    unfolding lflow_conj_ids_alloc_def using n c1(1) r(1) by (simp add: i_def Let_def)
  have "r = 0" "c' = c1" using al unfolding alloc by (auto split: if_splits Option.bind_splits)
  then have "covered (id_taken c') i (unat n) s" for s using r(2) by (simp add: search_result_def)
  then show ?thesis unfolding ids_exhausted_def covered_def by blast
qed

lemma exhausted_count:
  assumes "ids_exhausted taken n"
  shows "2 ^ 32 \<le> (card {j. taken j} + 2) * unat n"
proof -
  obtain i where i: "0 \<in> conj_range s (unat n) \<or> (\<exists>j \<in> conj_range s (unat n). taken j) \<or>
      s \<noteq> i \<and> i \<in> conj_range s (unat n)" for s using assms unfolding ids_exhausted_def by blast
  let ?B = "insert 0 (insert i {j. taken j})"
  let ?S = "\<lambda>j. (\<lambda>m. j - of_nat m) ` {..<unat n} :: u32 set"
  have "s \<in> (\<Union>j \<in> ?B. ?S j)" for s
  proof -
    obtain j where j: "j \<in> ?B" "j \<in> conj_range s (unat n)" using i [of s] by blast
    from j(2) obtain m where "m < unat n" "j = s + of_nat m" by (auto simp: conj_range_def)
    then have "m < unat n" "s = j - of_nat m" by simp_all
    with j(1) show ?thesis by blast
  qed
  then have "UNIV = (\<Union>j \<in> ?B. ?S j)" by blast
  then have "card (UNIV :: u32 set) \<le> (\<Sum>j \<in> ?B. card (?S j))" using card_UN_le [of ?B ?S] by simp
  also have "\<dots> \<le> card ?B * unat n"
  proof -
    have "card (?S j) \<le> unat n" for j using card_image_le [of "{..<unat n}" "\<lambda>m. j - of_nat m"] by simp
    then show ?thesis using sum_bounded_above [of ?B "\<lambda>j. card (?S j)" "unat n"] by (simp only: of_nat_id)
  qed
  also have "\<dots> \<le> (card {j. taken j} + 2) * unat n"
    by (intro mult_le_mono1) (simp add: card_insert_if)
  finally show ?thesis by (simp add: card_word)
qed

text \<open>The number of taken ids, if each owner is a flow in \<open>U\<close> on a datapath in \<open>D\<close> with at most \<open>N\<close> ids.\<close>

definition ids_within :: "uuid set \<Rightarrow> uuid set \<Rightarrow> (uuid \<Rightarrow> nat) \<Rightarrow> bool \<Rightarrow> conj_ids \<Rightarrow> bool" where
  "ids_within U D N tm c \<longleftrightarrow>
     (\<forall>l d s n. conj_view tm c (l, d) = Some (s, n) \<longrightarrow> l \<in> U \<and> d \<in> D \<and> unat n \<le> N l)"

lemma taken_count:
  assumes "conj_ids_ok tm c" "ids_within U D N tm c" "finite U" "finite D"
  shows "card {j. id_taken c j} \<le> card D * sum N U"
proof -
  obtain L T where inv: "conj_inv tm c L T" using assms(1) by (auto simp: conj_ids_ok_def)
  let ?R = "\<lambda>k. case conj_view tm c k of None \<Rightarrow> {} | Some (s, n) \<Rightarrow> conj_range s (unat n)"
  have sub: "{j. id_taken c j} \<subseteq> (\<Union>k \<in> U \<times> D. ?R k)"
  proof
    fix j assume "j \<in> {j. id_taken c j}"
    then obtain l d s n where v: "conj_view tm c (l, d) = Some (s, n)" "j \<in> conj_range s (unat n)"
      using conj_view_taken [OF inv, of j] by auto
    then have "(l, d) \<in> U \<times> D" using assms(2) unfolding ids_within_def by blast
    with v show "j \<in> (\<Union>k \<in> U \<times> D. ?R k)" by (intro UN_I [of "(l, d)"]) simp_all
  qed
  have each: "card (?R (l, d)) \<le> N l" for l d
    using assms(2) card_image_le [of "{..<unat n}" for n]
    by (cases "conj_view tm c (l, d)") (fastforce simp: ids_within_def conj_range_def intro: order_trans)+
  have "card {j. id_taken c j} \<le> card (\<Union>k \<in> U \<times> D. ?R k)" by (rule card_mono [OF _ sub]) simp
  also have "\<dots> \<le> (\<Sum>k \<in> U \<times> D. card (?R k))" using assms(3,4) by (intro card_UN_le) simp
  also have "\<dots> \<le> (\<Sum>(l, d) \<in> U \<times> D. N l)" using each by (intro sum_mono) auto
  also have "\<dots> = card D * sum N U" by (simp add: sum.cartesian_product [symmetric] sum_distrib_left)
  finally show ?thesis .
qed

lemma ids_not_exhausted:
  assumes "conj_ids_ok tm c" "ids_within U D N tm c" "finite U" "finite D"
    and "(card D * sum N U + 2) * m < 2 ^ 32" "unat n \<le> m"
  shows "\<not> ids_exhausted (id_taken c) n"
proof
  assume "ids_exhausted (id_taken c) n"
  then have "2 ^ 32 \<le> (card {j. id_taken c j} + 2) * unat n" by (rule exhausted_count)
  also have "\<dots> \<le> (card D * sum N U + 2) * m"
    using taken_count [OF assms(1-4)] assms(6) by (intro mult_le_mono) simp_all
  finally show False using assms(5) by simp
qed

end
