(* ===== verification/Bitwise.thy ===== *)
theory Bitwise
  imports Ovn_Prelude
begin

text \<open>
  The bit-array library of Open vSwitch (\<open>ovs/lib/util.c\<close>): an array of bytes read as one
  unsigned integer in network byte order, in which bit \<open>i\<close> has the value \<open>2 ^ i\<close>. The C
  functions walk over the bytes with pointers that move towards lower addresses; the
  model keeps the pointer arithmetic (a pointer is an \<open>int\<close> index) and every access is
  checked, so that \<open>None\<close> is an access outside the array. The theorems show that under
  the invariants the C comments require no access is outside, and that the byte-wise code
  computes the bit-wise function; a second group of definitions states the same operations on
  words, and the refinement theorems connect the two.
\<close>

type_synonym bytes = "u8 list"

section \<open>Checked access to a byte array\<close>

definition rd :: "bytes \<Rightarrow> int \<Rightarrow> u8 option" where
  "rd b i = (if 0 \<le> i \<and> i < int (length b) then Some (b ! nat i) else None)"

definition wr :: "bytes \<Rightarrow> int \<Rightarrow> u8 \<Rightarrow> bytes option" where
  "wr b i x = (if 0 \<le> i \<and> i < int (length b) then Some (b[nat i := x]) else None)"

definition memcpy :: "bytes \<Rightarrow> int \<Rightarrow> bytes \<Rightarrow> int \<Rightarrow> nat \<Rightarrow> bytes option" where
  "memcpy dst d src s n =
     (if 0 \<le> d \<and> d + int n \<le> int (length dst) \<and> 0 \<le> s \<and> s + int n \<le> int (length src)
      then Some (take (nat d) dst @ take n (drop (nat s) src) @ drop (nat d + n) dst)
      else None)"

text \<open>The pointer to the byte that holds bit \<open>ofs\<close>: \<open>p + len - (ofs / 8 + 1)\<close>.\<close>

definition byte_ptr :: "bytes \<Rightarrow> nat \<Rightarrow> int" where
  "byte_ptr b ofs = int (length b) - (int (ofs div 8) + 1)"

section \<open>The operations of util.c\<close>

fun is_all_byte :: "bytes \<Rightarrow> u8 \<Rightarrow> bool" where
  "is_all_byte [] byte = True"
| "is_all_byte (x # p) byte = (if x \<noteq> byte then False else is_all_byte p byte)"

definition is_all_zeros :: "bytes \<Rightarrow> bool" where
  "is_all_zeros p = is_all_byte p 0"

definition bitwise_get_bit :: "bytes \<Rightarrow> nat \<Rightarrow> bool option" where
  "bitwise_get_bit src ofs =
     do {
       x \<leftarrow> rd src (byte_ptr src ofs);
       Some (x AND push_bit (ofs mod 8) 1 \<noteq> 0)
     }"

definition bitwise_put0 :: "bytes \<Rightarrow> nat \<Rightarrow> bytes option" where
  "bitwise_put0 dst ofs =
     do {
       x \<leftarrow> rd dst (byte_ptr dst ofs);
       wr dst (byte_ptr dst ofs) (x AND NOT (push_bit (ofs mod 8) 1))
     }"

definition bitwise_put1 :: "bytes \<Rightarrow> nat \<Rightarrow> bytes option" where
  "bitwise_put1 dst ofs =
     do {
       x \<leftarrow> rd dst (byte_ptr dst ofs);
       wr dst (byte_ptr dst ofs) (x OR push_bit (ofs mod 8) 1)
     }"

definition bitwise_put_bit :: "bytes \<Rightarrow> nat \<Rightarrow> bool \<Rightarrow> bytes option" where
  "bitwise_put_bit dst ofs b = (if b then bitwise_put1 dst ofs else bitwise_put0 dst ofs)"

definition bitwise_toggle_bit :: "bytes \<Rightarrow> nat \<Rightarrow> bytes option" where
  "bitwise_toggle_bit dst ofs =
     do {
       x \<leftarrow> rd dst (byte_ptr dst ofs);
       wr dst (byte_ptr dst ofs) (x XOR push_bit (ofs mod 8) 1)
     }"

function bitwise_scan :: "bytes \<Rightarrow> bool \<Rightarrow> nat \<Rightarrow> nat \<Rightarrow> nat option" where
  "bitwise_scan p target ofs end' =
     (if ofs < end'
      then do {
        b \<leftarrow> bitwise_get_bit p ofs;
        if b = target then Some ofs else bitwise_scan p target (Suc ofs) end'
      }
      else Some ofs)"
  by pat_completeness auto
termination
  by (relation "measure (\<lambda>(p, target, ofs, end'). end' - ofs)") auto

declare bitwise_scan.simps [simp del]

text \<open>
  \<open>bitwise_zero\<close> and \<open>bitwise_one\<close> have the same shape: a partial byte at the low end, whole
  bytes while at least eight bits are left, a partial byte at the high end. \<open>upd\<close> is what they
  do to the bits of a mask within one byte, \<open>full\<close> the value they store into a whole byte.
\<close>

function bits_update_bytes ::
  "(u8 \<Rightarrow> u8 \<Rightarrow> u8) \<Rightarrow> u8 \<Rightarrow> bytes \<Rightarrow> int \<Rightarrow> nat \<Rightarrow> bytes option" where
  "bits_update_bytes upd full dst p n_bits =
     (if 8 \<le> n_bits
      then do { dst' \<leftarrow> wr dst p full; bits_update_bytes upd full dst' (p - 1) (n_bits - 8) }
      else if n_bits \<noteq> 0
      then do { x \<leftarrow> rd dst p; wr dst p (upd x (mask n_bits)) }
      else Some dst)"
  by pat_completeness auto
termination
  by (relation "measure (\<lambda>(upd, full, dst, p, n_bits). n_bits)") auto

declare bits_update_bytes.simps [simp del]

definition bits_update ::
  "(u8 \<Rightarrow> u8 \<Rightarrow> u8) \<Rightarrow> u8 \<Rightarrow> bytes \<Rightarrow> nat \<Rightarrow> nat \<Rightarrow> bytes option" where
  "bits_update upd full dst dst_ofs n_bits =
     (if n_bits = 0 then Some dst
      else
        let p = byte_ptr dst dst_ofs; ofs = dst_ofs mod 8 in
        if ofs \<noteq> 0 then
          let chunk = min n_bits (8 - ofs) in
          do {
            x \<leftarrow> rd dst p;
            dst' \<leftarrow> wr dst p (upd x (push_bit ofs (mask chunk)));
            if n_bits - chunk = 0 then Some dst'
            else bits_update_bytes upd full dst' (p - 1) (n_bits - chunk)
          }
        else bits_update_bytes upd full dst p n_bits)"

definition bitwise_zero :: "bytes \<Rightarrow> nat \<Rightarrow> nat \<Rightarrow> bytes option" where
  "bitwise_zero = bits_update (\<lambda>x m. x AND NOT m) 0"

definition bitwise_one :: "bytes \<Rightarrow> nat \<Rightarrow> nat \<Rightarrow> bytes option" where
  "bitwise_one = bits_update (\<lambda>x m. x OR m) 0xff"

function bitwise_is_all_zeros_bytes :: "bytes \<Rightarrow> int \<Rightarrow> nat \<Rightarrow> bool option" where
  "bitwise_is_all_zeros_bytes b p n_bits =
     (if 8 \<le> n_bits
      then do {
        x \<leftarrow> rd b p;
        if x \<noteq> 0 then Some False else bitwise_is_all_zeros_bytes b (p - 1) (n_bits - 8)
      }
      else if n_bits \<noteq> 0
      then do { x \<leftarrow> rd b p; Some (x AND mask n_bits = 0) }
      else Some True)"
  by pat_completeness auto
termination
  by (relation "measure (\<lambda>(b, p, n_bits). n_bits)") auto

declare bitwise_is_all_zeros_bytes.simps [simp del]

definition bitwise_is_all_zeros :: "bytes \<Rightarrow> nat \<Rightarrow> nat \<Rightarrow> bool option" where
  "bitwise_is_all_zeros b ofs' n_bits =
     (if n_bits = 0 then Some True
      else
        let p = byte_ptr b ofs'; ofs = ofs' mod 8 in
        if ofs \<noteq> 0 then
          let chunk = min n_bits (8 - ofs) in
          do {
            x \<leftarrow> rd b p;
            if x AND push_bit ofs (mask chunk) \<noteq> 0 then Some False
            else if n_bits - chunk = 0 then Some True
            else bitwise_is_all_zeros_bytes b (p - 1) (n_bits - chunk)
          }
        else bitwise_is_all_zeros_bytes b p n_bits)"

text \<open>
  The loop of \<open>bitwise_copy\<close> for offsets that are not both at a byte boundary. Each round
  copies at least one bit, so \<open>n_bits\<close> rounds are always enough; the first argument counts them.
\<close>

definition bitwise_copy_chunk ::
  "bytes \<Rightarrow> int \<Rightarrow> nat \<Rightarrow> bytes \<Rightarrow> int \<Rightarrow> nat \<Rightarrow> nat \<Rightarrow> bytes option" where
  "bitwise_copy_chunk src sp src_ofs dst dp dst_ofs chunk =
     (let m = push_bit dst_ofs (mask chunk) in
      do {
        d \<leftarrow> rd dst dp;
        s \<leftarrow> rd src sp;
        wr dst dp ((d AND NOT m) OR (push_bit dst_ofs (drop_bit src_ofs s) AND m))
      })"

definition bitwise_advance :: "int \<Rightarrow> nat \<Rightarrow> nat \<Rightarrow> int \<times> nat" where
  "bitwise_advance p ofs chunk = (if ofs + chunk = 8 then (p - 1, 0) else (p, ofs + chunk))"

primrec bitwise_copy_loop ::
  "nat \<Rightarrow> bytes \<Rightarrow> int \<times> nat \<Rightarrow> bytes \<Rightarrow> int \<times> nat \<Rightarrow> nat \<Rightarrow> bytes option" where
  "bitwise_copy_loop 0 src sp dst dp n_bits = (if n_bits = 0 then Some dst else None)"
| "bitwise_copy_loop (Suc fuel) src sp dst dp n_bits =
     (if n_bits = 0 then Some dst
      else
        let max_copy = 8 - max (snd sp) (snd dp);
            chunk = min n_bits max_copy in
        do {
          dst' \<leftarrow> bitwise_copy_chunk src (fst sp) (snd sp) dst (fst dp) (snd dp) chunk;
          bitwise_copy_loop fuel src (bitwise_advance (fst sp) (snd sp) chunk)
            dst' (bitwise_advance (fst dp) (snd dp) chunk) (n_bits - chunk)
        })"

text \<open>The case where both offsets are at a byte boundary: the whole bytes with \<open>memcpy\<close>.\<close>

definition bitwise_copy_whole ::
  "bytes \<Rightarrow> int \<Rightarrow> bytes \<Rightarrow> int \<Rightarrow> nat \<Rightarrow> (bytes \<times> int \<times> int \<times> nat) option" where
  "bitwise_copy_whole src sp dst dp n_bits =
     (let n_bytes = n_bits div 8 in
      if n_bytes \<noteq> 0
      then do {
        dst' \<leftarrow> memcpy dst (dp - (int n_bytes - 1)) src (sp - (int n_bytes - 1)) n_bytes;
        Some (dst', sp - (int n_bytes - 1) - 1, dp - (int n_bytes - 1) - 1, n_bits mod 8)
      }
      else Some (dst, sp, dp, n_bits))"

definition bitwise_copy ::
  "bytes \<Rightarrow> nat \<Rightarrow> bytes \<Rightarrow> nat \<Rightarrow> nat \<Rightarrow> bytes option" where
  "bitwise_copy src src_ofs' dst dst_ofs' n_bits =
     (let sp = byte_ptr src src_ofs'; src_ofs = src_ofs' mod 8;
          dp = byte_ptr dst dst_ofs'; dst_ofs = dst_ofs' mod 8 in
      if src_ofs = 0 \<and> dst_ofs = 0 then
        do {
          (dst1, sp1, dp1, n1) \<leftarrow> bitwise_copy_whole src sp dst dp n_bits;
          if n1 \<noteq> 0
          then do {
            d \<leftarrow> rd dst1 dp1;
            s \<leftarrow> rd src sp1;
            wr dst1 dp1 ((d AND NOT (mask n1)) OR (s AND mask n1))
          }
          else Some dst1
        }
      else bitwise_copy_loop n_bits src (sp, src_ofs) dst (dp, dst_ofs) n_bits)"

section \<open>Bits of a byte array\<close>

definition bit_at :: "bytes \<Rightarrow> nat \<Rightarrow> bool" where
  "bit_at b i \<longleftrightarrow> i < 8 * length b \<and> bit (b ! (length b - Suc (i div 8))) (i mod 8)"

lemma bit_at_len: "bit_at b i \<Longrightarrow> i < 8 * length b"
  by (simp add: bit_at_def)

text \<open>Every index that the pointer arithmetic reaches is \<open>len - (k + 1)\<close> for a byte number \<open>k\<close>.\<close>

definition kptr :: "bytes \<Rightarrow> nat \<Rightarrow> int" where
  "kptr b k = int (length b) - (int k + 1)"

lemma byte_ptr_kptr: "byte_ptr b ofs = kptr b (ofs div 8)"
  by (simp add: byte_ptr_def kptr_def)

lemma kptr_pred: "kptr b k - 1 = kptr b (Suc k)"
  by (simp add: kptr_def)

lemma kptr_len: "length b' = length b \<Longrightarrow> kptr b' k = kptr b k"
  by (simp add: kptr_def)

lemma kptr_update [simp]: "kptr (b[j := x]) k = kptr b k"
  by (simp add: kptr_def)

lemma nat_kptr: "k < length b \<Longrightarrow> nat (kptr b k) = length b - Suc k"
  by (simp add: kptr_def nat_diff_distrib' flip: of_nat_Suc)

lemma rd_kptr [simp]: "k < length b \<Longrightarrow> rd b (kptr b k) = Some (b ! (length b - Suc k))"
  by (simp add: rd_def nat_kptr) (simp add: kptr_def)

lemma wr_kptr [simp]: "k < length b \<Longrightarrow> wr b (kptr b k) x = Some (b[length b - Suc k := x])"
  by (simp add: wr_def nat_kptr) (simp add: kptr_def)

text \<open>
  One store into byte \<open>k\<close>: the bits of that byte are those of the value stored, the
  others do not change. The second form is for read-modify-write, where the new bit \<open>j\<close>
  depends on \<open>j\<close> and the old bit only.
\<close>

lemma bit_at_update:
  assumes "k < length b"
  shows "bit_at (b[length b - Suc k := x]) i =
    (if i div 8 = k then bit x (i mod 8) else bit_at b i)"
proof (cases "i < 8 * length b")
  case True
  then have i: "i div 8 < length b" by auto
  have "length b - Suc (i div 8) = length b - Suc k \<longleftrightarrow> i div 8 = k"
    using i assms by auto
  then show ?thesis
    using True assms by (auto simp: bit_at_def nth_list_update)
next
  case False
  then have "i div 8 \<noteq> k" using assms by auto
  with False show ?thesis by (simp add: bit_at_def)
qed

lemma bit_at_nth:
  "i < 8 * length b \<Longrightarrow> bit (b ! (length b - Suc (i div 8))) (i mod 8) = bit_at b i"
  by (simp add: bit_at_def)

lemma bit_at_byte:
  "k < length b \<Longrightarrow> j < 8 \<Longrightarrow> bit_at b (8 * k + j) = bit (b ! (length b - Suc k)) j"
  by (simp add: bit_at_def)

lemma bit_at_modify:
  assumes k: "k < length b"
    and f: "\<And>j x. j < 8 \<Longrightarrow> bit (f x) j = h j (bit x j)"
  shows "bit_at (b[length b - Suc k := f (b ! (length b - Suc k))]) i =
    (if i div 8 = k then h (i mod 8) (bit_at b i) else bit_at b i)"
proof (cases "i div 8 = k")
  case True
  then have "i < 8 * length b" using k by auto
  then have "bit (b ! (length b - Suc k)) (i mod 8) = bit_at b i"
    using bit_at_nth [of i b] True by simp
  then show ?thesis using True k f [of "i mod 8"] by (simp add: bit_at_update)
next
  case False
  then show ?thesis using k by (simp add: bit_at_update)
qed

lemma bit_u8_mask: "bit (push_bit o' (mask c) :: u8) j \<longleftrightarrow> o' \<le> j \<and> j < o' + c \<and> j < 8"
  by (auto simp: bit_simps)

lemma and_exp_neq_0: "j < 8 \<Longrightarrow> (x :: u8) AND 2 ^ j \<noteq> 0 \<longleftrightarrow> bit x j"
  by (simp add: bit_iff_and_push_bit_not_eq_0)

lemma same_div_8: "(i :: nat) div 8 = k div 8 \<Longrightarrow> i mod 8 = k mod 8 \<longleftrightarrow> i = k"
  by (metis div_mult_mod_eq)

lemma in_byte_iff:
  fixes i :: nat
  assumes "r + c \<le> 8"
  shows "i div 8 = k \<and> r \<le> i mod 8 \<and> i mod 8 < r + c \<longleftrightarrow> 8 * k + r \<le> i \<and> i < 8 * k + r + c"
proof -
  define q m where "q = i div 8" and "m = i mod 8"
  have "i = 8 * q + m" "m < 8" by (simp_all add: q_def m_def)
  moreover have "q = k" if "8 * k + r \<le> i" "i < 8 * k + r + c"
    unfolding q_def using that assms by (intro div_nat_eqI) auto
  ultimately show ?thesis unfolding q_def [symmetric] m_def [symmetric] by auto
qed

section \<open>Single bits\<close>

lemma bitwise_get_bit_eq [bits_simps]:
  assumes "ofs < 8 * length src"
  shows "bitwise_get_bit src ofs = Some (bit_at src ofs)"
proof -
  have "ofs div 8 < length src" using assms by auto
  then show ?thesis
    using assms by (simp add: bitwise_get_bit_def byte_ptr_kptr and_exp_neq_0 bit_at_nth)
qed

lemma bitwise_put_bit_eq:
  assumes "ofs < 8 * length dst"
  obtains dst' where "bitwise_put_bit dst ofs v = Some dst'" "length dst' = length dst"
    "\<And>i. bit_at dst' i = (if i = ofs then v else bit_at dst i)"
proof -
  have k: "ofs div 8 < length dst" using assms by auto
  let ?f = "\<lambda>x :: u8. if v then x OR 2 ^ (ofs mod 8) else x AND NOT (2 ^ (ofs mod 8))"
  let ?d = "dst[length dst - Suc (ofs div 8) := ?f (dst ! (length dst - Suc (ofs div 8)))]"
  have "bit_at ?d i = (if i div 8 = ofs div 8
      then (if i mod 8 = ofs mod 8 then v else bit_at dst i) else bit_at dst i)" for i
    by (rule bit_at_modify [OF k, where f = ?f and h = "\<lambda>j b. if j = ofs mod 8 then v else b"])
      (auto simp: bit_simps)
  then have "bit_at ?d i = (if i = ofs then v else bit_at dst i)" for i
    using same_div_8 [of i ofs] by auto
  moreover have "bitwise_put_bit dst ofs v = Some ?d"
    using k by (simp add: bitwise_put_bit_def bitwise_put1_def bitwise_put0_def byte_ptr_kptr)
  ultimately show thesis using that by simp
qed

lemma bitwise_toggle_bit_eq:
  assumes "ofs < 8 * length dst"
  obtains dst' where "bitwise_toggle_bit dst ofs = Some dst'" "length dst' = length dst"
    "\<And>i. bit_at dst' i = (bit_at dst i \<noteq> (i = ofs))"
proof -
  have k: "ofs div 8 < length dst" using assms by auto
  let ?f = "\<lambda>x :: u8. x XOR 2 ^ (ofs mod 8)"
  let ?d = "dst[length dst - Suc (ofs div 8) := ?f (dst ! (length dst - Suc (ofs div 8)))]"
  have "bit_at ?d i = (if i div 8 = ofs div 8
      then (bit_at dst i \<noteq> (i mod 8 = ofs mod 8)) else bit_at dst i)" for i
    by (rule bit_at_modify [OF k, where f = ?f and h = "\<lambda>j b. b \<noteq> (j = ofs mod 8)"])
      (auto simp: bit_simps)
  then have "bit_at ?d i = (bit_at dst i \<noteq> (i = ofs))" for i
    using same_div_8 [of i ofs] by auto
  moreover have "bitwise_toggle_bit dst ofs = Some ?d"
    using k by (simp add: bitwise_toggle_bit_def byte_ptr_kptr)
  ultimately show thesis using that by simp
qed

section \<open>Scanning\<close>

text \<open>The bit-wise function that \<open>bitwise_scan\<close> computes.\<close>

function scan_bits :: "(nat \<Rightarrow> bool) \<Rightarrow> bool \<Rightarrow> nat \<Rightarrow> nat \<Rightarrow> nat" where
  "scan_bits g target ofs end' =
     (if ofs < end' \<and> g ofs \<noteq> target then scan_bits g target (Suc ofs) end' else ofs)"
  by pat_completeness auto
termination
  by (relation "measure (\<lambda>(g, target, ofs, end'). end' - ofs)") auto

declare scan_bits.simps [simp del]

lemma bitwise_scan_eq:
  "end' \<le> 8 * length p \<Longrightarrow>
     bitwise_scan p target ofs end' = Some (scan_bits (bit_at p) target ofs end')"
proof (induction p target ofs end' rule: bitwise_scan.induct)
  case (1 p target ofs end')
  show ?case
  proof (cases "ofs < end'")
    case True
    then have "bitwise_get_bit p ofs = Some (bit_at p ofs)"
      using "1.prems" by (simp add: bits_simps)
    then show ?thesis
      using True "1.IH" [OF True] "1.prems"
      by (subst bitwise_scan.simps, subst scan_bits.simps) auto
  next
    case False
    then show ?thesis by (subst bitwise_scan.simps, subst scan_bits.simps) simp
  qed
qed

lemma scan_bits_props:
  "start \<le> end' \<Longrightarrow> (let k = scan_bits g target start end' in
     start \<le> k \<and> k \<le> end' \<and> (\<forall>i. start \<le> i \<and> i < k \<longrightarrow> g i \<noteq> target) \<and>
     (k < end' \<longrightarrow> g k = target))"
proof (induction g target start end' rule: scan_bits.induct)
  case (1 g target ofs end')
  show ?case
  proof (cases "ofs < end' \<and> g ofs \<noteq> target")
    case True
    then have "scan_bits g target ofs end' = scan_bits g target (Suc ofs) end'"
      by (subst scan_bits.simps) simp
    moreover have "Suc ofs \<le> end'" using True by simp
    note "1.IH" [OF True this]
    moreover have "ofs \<le> i \<Longrightarrow> g i = target \<Longrightarrow> Suc ofs \<le> i" for i
      using True by (cases "i = ofs") auto
    ultimately show ?thesis
      unfolding Let_def by (metis Suc_leD)
  next
    case False
    then have "scan_bits g target ofs end' = ofs"
      by (subst scan_bits.simps) auto
    then show ?thesis using False "1.prems" by (auto simp: Let_def)
  qed
qed

lemma scan_bits_unique:
  assumes "start \<le> k" "k \<le> end'" "\<And>i. start \<le> i \<Longrightarrow> i < k \<Longrightarrow> g i \<noteq> target"
    and "k < end' \<Longrightarrow> g k = target"
  shows "scan_bits g target start end' = k"
proof -
  have "start \<le> end'" using assms by simp
  note p = scan_bits_props [OF this, of g target, unfolded Let_def]
  show ?thesis
    by (rule antisym; rule ccontr) (use p assms in \<open>auto simp: not_le dest!: spec\<close>)
qed

section \<open>Runs of bits\<close>

text \<open>
  \<open>c\<close> is the value that \<open>upd\<close> gives to the bits of its mask and that all bits of \<open>full\<close> have.
\<close>

lemma bits_update_bytes_eq:
  assumes upd: "\<And>j x m. j < 8 \<Longrightarrow> bit (upd x m) j = (if bit m j then c else bit x j)"
    and full: "\<And>j. j < 8 \<Longrightarrow> bit full j = c"
    and bound: "8 * k + n \<le> 8 * length dst"
  shows "\<exists>dst'. bits_update_bytes upd full dst (kptr dst k) n = Some dst' \<and>
    length dst' = length dst \<and>
    (\<forall>i. bit_at dst' i = (if 8 * k \<le> i \<and> i < 8 * k + n then c else bit_at dst i))"
  using bound
proof (induction n arbitrary: dst k rule: less_induct)
  case (less n)
  consider "8 \<le> n" | "n < 8" "n \<noteq> 0" | "n = 0" by linarith
  then show ?case
  proof cases
    case 1
    then have k: "k < length dst" using less.prems by auto
    let ?d = "dst[length dst - Suc k := full]"
    have "8 * Suc k + (n - 8) \<le> 8 * length ?d" using 1 less.prems by simp
    with less.IH [of "n - 8" "Suc k" ?d] 1 obtain dst' where
      d': "bits_update_bytes upd full ?d (kptr ?d (Suc k)) (n - 8) = Some dst'"
        "length dst' = length dst"
        "\<And>i. bit_at dst' i = (if 8 * Suc k \<le> i \<and> i < 8 * Suc k + (n - 8) then c else bit_at ?d i)"
      by auto
    have "bit_at ?d i = (if i div 8 = k then c else bit_at dst i)" for i
      using k full by (simp add: bit_at_update)
    then have "bit_at dst' i = (if 8 * k \<le> i \<and> i < 8 * k + n then c else bit_at dst i)" for i
      unfolding d'(3) using 1 by auto
    moreover have "bits_update_bytes upd full dst (kptr dst k) n = Some dst'"
      using 1 k d'(1) by (subst bits_update_bytes.simps) (simp add: kptr_pred kptr_len [of ?d dst])
    ultimately show ?thesis using d'(2) by blast
  next
    case 2
    then have k: "k < length dst" using less.prems by auto
    let ?f = "\<lambda>x. upd x (mask n)"
    let ?d = "dst[length dst - Suc k := ?f (dst ! (length dst - Suc k))]"
    have "bit_at ?d i = (if i div 8 = k then (if i mod 8 < n then c else bit_at dst i) else bit_at dst i)"
      for i
      by (rule bit_at_modify [OF k, where f = ?f and h = "\<lambda>j b. if j < n then c else b"])
        (auto simp: upd bit_simps)
    then have "bit_at ?d i = (if 8 * k \<le> i \<and> i < 8 * k + n then c else bit_at dst i)" for i
      using 2 in_byte_iff [of 0 n i k] by auto
    moreover have "bits_update_bytes upd full dst (kptr dst k) n = Some ?d"
      using 2 k by (subst bits_update_bytes.simps) simp
    ultimately show ?thesis by auto
  next
    case 3
    then show ?thesis by (subst bits_update_bytes.simps) auto
  qed
qed

lemma bits_update_eq:
  assumes upd: "\<And>j x m. j < 8 \<Longrightarrow> bit (upd x m) j = (if bit m j then c else bit x j)"
    and full: "\<And>j. j < 8 \<Longrightarrow> bit full j = c"
    and bound: "ofs + n \<le> 8 * length dst"
  shows "\<exists>dst'. bits_update upd full dst ofs n = Some dst' \<and> length dst' = length dst \<and>
    (\<forall>i. bit_at dst' i = (if ofs \<le> i \<and> i < ofs + n then c else bit_at dst i))"
proof -
  define k r where "k = ofs div 8" and "r = ofs mod 8"
  have ofs: "ofs = 8 * k + r" and r: "r < 8" by (simp_all add: k_def r_def)
  consider "n = 0" | "n \<noteq> 0" "r = 0" | "n \<noteq> 0" "r \<noteq> 0" by blast
  then show ?thesis
  proof cases
    case 1
    then show ?thesis by (auto simp: bits_update_def)
  next
    case 2
    then have "bits_update upd full dst ofs n = bits_update_bytes upd full dst (kptr dst k) n"
      by (simp add: bits_update_def byte_ptr_kptr k_def r_def)
    with bits_update_bytes_eq [of upd c full k n dst, OF upd full] bound 2 ofs show ?thesis
      by simp
  next
    case 3
    define chunk where "chunk = min n (8 - r)"
    have k: "k < length dst" using bound ofs 3 by auto
    let ?f = "\<lambda>x. upd x (push_bit r (mask chunk))"
    let ?d = "dst[length dst - Suc k := ?f (dst ! (length dst - Suc k))]"
    have d0: "bit_at ?d i = (if i div 8 = k
        then (if r \<le> i mod 8 \<and> i mod 8 < r + chunk then c else bit_at dst i) else bit_at dst i)" for i
      by (rule bit_at_modify [OF k, where f = ?f and
            h = "\<lambda>j b. if r \<le> j \<and> j < r + chunk then c else b"])
        (auto simp: upd bit_u8_mask)
    have d: "bit_at ?d i = (if ofs \<le> i \<and> i < ofs + chunk then c else bit_at dst i)" for i
    proof -
      have "r + chunk \<le> 8" using r by (simp add: chunk_def)
      from in_byte_iff [OF this, of i k] d0 [of i] show ?thesis by (auto simp: ofs)
    qed
    have step: "bits_update upd full dst ofs n =
        (if n - chunk = 0 then Some ?d
         else bits_update_bytes upd full ?d (kptr ?d (Suc k)) (n - chunk))"
      using 3 k by (simp add: bits_update_def byte_ptr_kptr k_def [symmetric] r_def [symmetric]
          chunk_def Let_def kptr_pred kptr_len [of ?d dst])
    show ?thesis
    proof (cases "n - chunk = 0")
      case True
      then have "chunk = n" using chunk_def by simp
      with True step d show ?thesis by auto
    next
      case False
      then have c: "chunk = 8 - r" "ofs + chunk = 8 * Suc k" using chunk_def ofs r by auto
      then have "8 * Suc k + (n - chunk) \<le> 8 * length ?d" using bound False by simp
      from bits_update_bytes_eq [of upd c full, OF upd full this] obtain dst' where
        "bits_update_bytes upd full ?d (kptr ?d (Suc k)) (n - chunk) = Some dst'"
        "length dst' = length dst"
        and b: "\<And>i. bit_at dst' i =
          (if 8 * Suc k \<le> i \<and> i < 8 * Suc k + (n - chunk) then c else bit_at ?d i)"
        by auto
      moreover have "bit_at dst' i = (if ofs \<le> i \<and> i < ofs + n then c else bit_at dst i)" for i
        unfolding b d c(2) [symmetric] using False by auto
      ultimately show ?thesis using step False by auto
    qed
  qed
qed

lemma bitwise_zero_eq:
  assumes "ofs + n \<le> 8 * length dst"
  shows "\<exists>dst'. bitwise_zero dst ofs n = Some dst' \<and> length dst' = length dst \<and>
    (\<forall>i. bit_at dst' i = (if ofs \<le> i \<and> i < ofs + n then False else bit_at dst i))"
  unfolding bitwise_zero_def
  by (rule bits_update_eq) (use assms in \<open>auto simp: bit_simps\<close>)

lemma bitwise_one_eq:
  assumes "ofs + n \<le> 8 * length dst"
  shows "\<exists>dst'. bitwise_one dst ofs n = Some dst' \<and> length dst' = length dst \<and>
    (\<forall>i. bit_at dst' i = (if ofs \<le> i \<and> i < ofs + n then True else bit_at dst i))"
proof -
  have "bit (0xff :: u8) j" if "j < 8" for j
    using that by (auto simp: numeral_eq_Suc less_Suc_eq)
  then show ?thesis
    unfolding bitwise_one_def
    by (intro bits_update_eq) (use assms in \<open>auto simp: bit_simps\<close>)
qed

section \<open>Copying bits\<close>

text \<open>What \<open>bitwise_copy\<close> promises about bit \<open>i\<close> of the destination.\<close>

definition copied_bit :: "bytes \<Rightarrow> nat \<Rightarrow> bytes \<Rightarrow> nat \<Rightarrow> nat \<Rightarrow> nat \<Rightarrow> bool" where
  "copied_bit src s dst d n i =
     (if d \<le> i \<and> i < d + n then bit_at src (s + (i - d)) else bit_at dst i)"

lemma bitwise_copy_chunk_eq:
  assumes ks: "ks < length src" and kd: "kd < length dst"
    and so: "so + chunk \<le> 8" and d_o: "do' + chunk \<le> 8"
  shows "\<exists>dst'. bitwise_copy_chunk src (kptr src ks) so dst (kptr dst kd) do' chunk = Some dst' \<and>
    length dst' = length dst \<and>
    (\<forall>i. bit_at dst' i = copied_bit src (8 * ks + so) dst (8 * kd + do') chunk i)"
proof -
  let ?s = "src ! (length src - Suc ks)"
  let ?m = "push_bit do' (mask chunk) :: u8"
  let ?f = "\<lambda>x. (x AND NOT ?m) OR (push_bit do' (drop_bit so ?s) AND ?m)"
  let ?h = "\<lambda>j b. if do' \<le> j \<and> j < do' + chunk then bit ?s (so + (j - do')) else b"
  let ?d = "dst[length dst - Suc kd := ?f (dst ! (length dst - Suc kd))]"
  have "bit_at ?d i = (if i div 8 = kd then ?h (i mod 8) (bit_at dst i) else bit_at dst i)" for i
    by (rule bit_at_modify [OF kd, where f = ?f and h = ?h]) (auto simp: bit_u8_mask bit_simps)
  moreover have "bit ?s (so + (i mod 8 - do')) = bit_at src (8 * ks + so + (i - (8 * kd + do')))"
    if "i div 8 = kd" "do' \<le> i mod 8" "i mod 8 < do' + chunk" for i
  proof -
    have "i = 8 * kd + i mod 8" using that(1) by (metis mult_div_mod_eq)
    then have e: "8 * ks + so + (i - (8 * kd + do')) = 8 * ks + (so + (i mod 8 - do'))"
      using that(2) by simp
    have "so + (i mod 8 - do') < 8" using that so by simp
    then show ?thesis unfolding e using ks by (simp add: bit_at_def)
  qed
  ultimately have "bit_at ?d i = copied_bit src (8 * ks + so) dst (8 * kd + do') chunk i" for i
    using in_byte_iff [OF d_o, of i kd] by (auto simp: copied_bit_def)
  moreover have "bitwise_copy_chunk src (kptr src ks) so dst (kptr dst kd) do' chunk = Some ?d"
    using ks kd by (simp add: bitwise_copy_chunk_def Let_def)
  ultimately show ?thesis by auto
qed

lemma bitwise_advance_eq:
  assumes "o' + chunk \<le> 8" "o' < 8"
  obtains k' o'' where "bitwise_advance (kptr b k) o' chunk = (kptr b k', o'')"
    "8 * k' + o'' = 8 * k + o' + chunk" "o'' < 8"
proof (cases "o' + chunk = 8")
  case True
  then show ?thesis using that [of "Suc k" 0] by (simp add: bitwise_advance_def kptr_pred)
next
  case False
  then show ?thesis using that [of k "o' + chunk"] assms by (simp add: bitwise_advance_def)
qed

lemma copied_bit_step:
  assumes "c \<le> n" "\<And>i. bit_at dst' i = copied_bit src s dst d c i"
  shows "copied_bit src (s + c) dst' (d + c) (n - c) i = copied_bit src s dst d n i"
  using assms by (auto simp: copied_bit_def)

lemma bitwise_copy_loop_eq:
  assumes "n \<le> fuel" "8 * ks + so + n \<le> 8 * length src" "8 * kd + do' + n \<le> 8 * length dst"
    and "so < 8" "do' < 8"
  shows "\<exists>dst'. bitwise_copy_loop fuel src (kptr src ks, so) dst (kptr dst kd, do') n = Some dst' \<and>
    length dst' = length dst \<and>
    (\<forall>i. bit_at dst' i = copied_bit src (8 * ks + so) dst (8 * kd + do') n i)"
  using assms
proof (induction fuel arbitrary: ks so dst kd do' n)
  case 0
  then show ?case by (auto simp: copied_bit_def)
next
  case (Suc fuel)
  show ?case
  proof (cases "n = 0")
    case True
    then show ?thesis by (auto simp: copied_bit_def)
  next
    case False
    define chunk where "chunk = min n (8 - max so do')"
    have c: "chunk \<le> n" "0 < chunk" "so + chunk \<le> 8" "do' + chunk \<le> 8"
      using False Suc.prems by (auto simp: chunk_def)
    have k: "ks < length src" "kd < length dst" using False Suc.prems by auto
    obtain dst1 where d1: "bitwise_copy_chunk src (kptr src ks) so dst (kptr dst kd) do' chunk = Some dst1"
        "length dst1 = length dst"
        "\<And>i. bit_at dst1 i = copied_bit src (8 * ks + so) dst (8 * kd + do') chunk i"
      using bitwise_copy_chunk_eq [OF k c(3,4)] by blast
    obtain ks' so' where s': "bitwise_advance (kptr src ks) so chunk = (kptr src ks', so')"
        "8 * ks' + so' = 8 * ks + so + chunk" "so' < 8"
      using bitwise_advance_eq [OF c(3) Suc.prems(4)] by blast
    obtain kd' do'' where t': "bitwise_advance (kptr dst kd) do' chunk = (kptr dst kd', do'')"
        "8 * kd' + do'' = 8 * kd + do' + chunk" "do'' < 8"
      using bitwise_advance_eq [OF c(4) Suc.prems(5)] by blast
    have "n - chunk \<le> fuel" "8 * ks' + so' + (n - chunk) \<le> 8 * length src"
        "8 * kd' + do'' + (n - chunk) \<le> 8 * length dst1"
      using c Suc.prems s'(2) t'(2) d1(2) by auto
    from Suc.IH [OF this s'(3) t'(3)] obtain dst' where
      "bitwise_copy_loop fuel src (kptr src ks', so') dst1 (kptr dst1 kd', do'') (n - chunk) = Some dst'"
      "length dst' = length dst1"
      and b: "\<And>i. bit_at dst' i = copied_bit src (8 * ks' + so') dst1 (8 * kd' + do'') (n - chunk) i"
      by blast
    moreover have "bit_at dst' i = copied_bit src (8 * ks + so) dst (8 * kd + do') n i" for i
      unfolding b s'(2) t'(2) by (rule copied_bit_step [OF c(1) d1(3)])
    ultimately show ?thesis
      using False d1(1,2) s'(1) t'(1)
      by (simp add: chunk_def [symmetric] Let_def kptr_len [of dst1 dst])
  qed
qed

lemma memcpy_kptr_eq:
  assumes "ks + n \<le> length src" "kd + n \<le> length dst" "0 < n"
  shows "\<exists>dst'. memcpy dst (kptr dst kd - (int n - 1)) src (kptr src ks - (int n - 1)) n = Some dst' \<and>
    length dst' = length dst \<and>
    (\<forall>i. bit_at dst' i = copied_bit src (8 * ks) dst (8 * kd) (8 * n) i)"
proof -
  define s d where "s = length src - (ks + n)" and "d = length dst - (kd + n)"
  have ptr: "kptr dst kd - (int n - 1) = int d" "kptr src ks - (int n - 1) = int s"
    using assms by (simp_all add: kptr_def s_def d_def)
  define dst' where "dst' = take d dst @ take n (drop s src) @ drop (d + n) dst"
  have len: "length dst' = length dst" using assms by (simp add: dst'_def s_def d_def)
  have "bit_at dst' i = copied_bit src (8 * ks) dst (8 * kd) (8 * n) i" for i
  proof (cases "i < 8 * length dst")
    case False
    then show ?thesis using assms len bit_at_len [of dst' i] bit_at_len [of dst i]
      by (auto simp: copied_bit_def)
  next
    case True
    define q where "q = i div 8"
    have q: "q < length dst" using True by (auto simp: q_def)
    have nth: "dst' ! (length dst - Suc q) =
      (if kd \<le> q \<and> q < kd + n then src ! (length src - Suc (q - kd + ks)) else dst ! (length dst - Suc q))"
    proof -
      have "\<not> length dst - Suc q < d" "length dst - Suc q - d < n"
        "s + (length dst - Suc q - d) = length src - Suc (q - kd + ks)" if "kd \<le> q" "q < kd + n"
        using that assms q by (auto simp: d_def s_def)
      moreover have "length dst - Suc q < d" if "kd + n \<le> q"
        using that assms q by (auto simp: d_def)
      moreover have "d + n \<le> length dst - Suc q" if "q < kd"
        using that assms q by (auto simp: d_def)
      ultimately show ?thesis
        using assms by (auto simp: dst'_def nth_append s_def d_def not_le not_less)
    qed
    have rng: "8 * kd \<le> i \<and> i < 8 * kd + 8 * n \<longleftrightarrow> kd \<le> q \<and> q < kd + n"
      by (auto simp: q_def)
    show ?thesis
    proof (cases "kd \<le> q \<and> q < kd + n")
      case True
      have i: "i = 8 * q + i mod 8" by (simp add: q_def)
      have e: "8 * ks + (i - 8 * kd) = 8 * (q - kd + ks) + i mod 8"
        using True i by (simp add: diff_mult_distrib2)
      have "q - kd + ks < length src" using True assms by auto
      then have "bit_at src (8 * ks + (i - 8 * kd)) = bit (src ! (length src - Suc (q - kd + ks))) (i mod 8)"
        unfolding e by (intro bit_at_byte) simp_all
      then show ?thesis
        using True nth rng len \<open>i < 8 * length dst\<close>
        by (simp add: copied_bit_def bit_at_def [of dst'] q_def [symmetric])
    next
      case False
      then show ?thesis
        using nth rng len \<open>i < 8 * length dst\<close>
        by (auto simp: copied_bit_def bit_at_def [of dst'] bit_at_def [of dst] q_def [symmetric])
    qed
  qed
  moreover have "memcpy dst (int d) src (int s) n = Some dst'"
  proof -
    have "d + n \<le> length dst" "s + n \<le> length src"
      using assms by (simp_all add: s_def d_def)
    then show ?thesis by (simp add: memcpy_def dst'_def)
  qed
  ultimately show ?thesis using len ptr by auto
qed

lemma bitwise_copy_eq:
  assumes "src_ofs + n \<le> 8 * length src" "dst_ofs + n \<le> 8 * length dst"
  shows "\<exists>dst'. bitwise_copy src src_ofs dst dst_ofs n = Some dst' \<and> length dst' = length dst \<and>
    (\<forall>i. bit_at dst' i = copied_bit src src_ofs dst dst_ofs n i)"
proof -
  define ks so kd d where "ks = src_ofs div 8" and "so = src_ofs mod 8"
    and "kd = dst_ofs div 8" and "d = dst_ofs mod 8"
  have ofs: "src_ofs = 8 * ks + so" "dst_ofs = 8 * kd + d" "so < 8" "d < 8"
    by (simp_all add: ks_def so_def kd_def d_def)
  note ptrs = byte_ptr_kptr ks_def [symmetric] kd_def [symmetric] so_def [symmetric] d_def [symmetric]
  show ?thesis
  proof (cases "so = 0 \<and> d = 0")
    case False
    then have "bitwise_copy src src_ofs dst dst_ofs n =
        bitwise_copy_loop n src (kptr src ks, so) dst (kptr dst kd, d) n"
      unfolding bitwise_copy_def ptrs Let_def by (simp only: if_False)
    then show ?thesis
      using bitwise_copy_loop_eq [of n n ks so src kd d dst] ofs assms by simp
  next
    case True
    define nb r where "nb = n div 8" and "r = n mod 8"
    have n: "n = 8 * nb + r" "r < 8" by (simp_all add: nb_def r_def)
    obtain dst1 where whole: "bitwise_copy_whole src (kptr src ks) dst (kptr dst kd) n =
         Some (dst1, kptr src (ks + nb), kptr dst1 (kd + nb), r)"
      and d1: "length dst1 = length dst"
        "\<And>i. bit_at dst1 i = copied_bit src (8 * ks) dst (8 * kd) (8 * nb) i"
    proof (cases "nb = 0")
      case True
      moreover have "bit_at dst i = copied_bit src (8 * ks) dst (8 * kd) (8 * 0) i" for i
        by (auto simp: copied_bit_def)
      ultimately show ?thesis using n that [of dst] by (simp add: bitwise_copy_whole_def)
    next
      case False
      have "ks + nb \<le> length src" "kd + nb \<le> length dst" "0 < nb"
        using assms ofs n False by auto
      from memcpy_kptr_eq [OF this] show ?thesis
        using False that by (auto simp: bitwise_copy_whole_def nb_def r_def kptr_def Let_def)
    qed
    have step: "bitwise_copy src src_ofs dst dst_ofs n =
        (if r \<noteq> 0 then do {
            d \<leftarrow> rd dst1 (kptr dst1 (kd + nb));
            s \<leftarrow> rd src (kptr src (ks + nb));
            wr dst1 (kptr dst1 (kd + nb)) ((d AND NOT (mask r)) OR (s AND mask r))
          } else Some dst1)"
      unfolding bitwise_copy_def ptrs Let_def whole using True by simp
    show ?thesis
    proof (cases "r = 0")
      case True
      then show ?thesis using step d1 n ofs \<open>so = 0 \<and> d = 0\<close> by auto
    next
      case False
      have k: "ks + nb < length src" "kd + nb < length dst1"
        using False assms ofs n d1(1) by auto
      have "bitwise_copy src src_ofs dst dst_ofs n =
          bitwise_copy_chunk src (kptr src (ks + nb)) 0 dst1 (kptr dst1 (kd + nb)) 0 r"
        using False step by (simp add: bitwise_copy_chunk_def Let_def)
      moreover obtain dst2 where
        "bitwise_copy_chunk src (kptr src (ks + nb)) 0 dst1 (kptr dst1 (kd + nb)) 0 r = Some dst2"
        "length dst2 = length dst1"
        "\<And>i. bit_at dst2 i = copied_bit src (8 * ks + 8 * nb) dst1 (8 * kd + 8 * nb) (n - 8 * nb) i"
        using bitwise_copy_chunk_eq [OF k, of 0 r 0] n by (auto simp: algebra_simps)
      moreover note copied_bit_step [OF _ d1(2), of n]
      ultimately show ?thesis
        using n d1(1) ofs True by auto
    qed
  qed
qed

section \<open>All bits zero\<close>

lemma u8_and_mask_zero: "(x :: u8) AND push_bit r (mask c) = 0 \<longleftrightarrow> (\<forall>j. r \<le> j \<and> j < r + c \<and> j < 8 \<longrightarrow> \<not> bit x j)"
  by (auto simp: bit_eq_iff bit_u8_mask bit_simps)

lemma bitwise_is_all_zeros_bytes_eq:
  "8 * k + n \<le> 8 * length b \<Longrightarrow> bitwise_is_all_zeros_bytes b (kptr b k) n =
     Some (\<forall>i. 8 * k \<le> i \<and> i < 8 * k + n \<longrightarrow> \<not> bit_at b i)"
proof (induction n arbitrary: k rule: less_induct)
  case (less n)
  consider "8 \<le> n" | "n < 8" "n \<noteq> 0" | "n = 0" by linarith
  then show ?case
  proof cases
    case 1
    then have k: "k < length b" using less.prems by auto
    have byte: "b ! (length b - Suc k) = 0 \<longleftrightarrow> (\<forall>i. 8 * k \<le> i \<and> i < 8 * k + 8 \<longrightarrow> \<not> bit_at b i)"
      (is "?x = 0 \<longleftrightarrow> ?R")
    proof -
      have "?x = 0 \<longleftrightarrow> (\<forall>j < 8. \<not> bit ?x j)" by (auto simp: bit_eq_iff bit_simps)
      also have "\<dots> \<longleftrightarrow> (\<forall>j < 8. \<not> bit_at b (8 * k + j))"
        using k by (simp add: bit_at_byte)
      also have "\<dots> \<longleftrightarrow> ?R"
        by (metis add_less_cancel_left le_Suc_ex le_add1)
      finally show ?thesis .
    qed
    have "bitwise_is_all_zeros_bytes b (kptr b (Suc k)) (n - 8) =
        Some (\<forall>i. 8 * Suc k \<le> i \<and> i < 8 * Suc k + (n - 8) \<longrightarrow> \<not> bit_at b i)"
      using 1 less.prems by (intro less.IH) auto
    moreover have "(\<forall>i. 8 * k \<le> i \<and> i < 8 * k + n \<longrightarrow> \<not> bit_at b i) \<longleftrightarrow>
        ?R \<and> (\<forall>i. 8 * Suc k \<le> i \<and> i < 8 * Suc k + (n - 8) \<longrightarrow> \<not> bit_at b i)"
      using 1 by (auto simp: not_le) (metis add.commute not_le)
    ultimately show ?thesis
      using 1 k byte by (subst bitwise_is_all_zeros_bytes.simps) (simp add: kptr_pred)
  next
    case 2
    then have k: "k < length b" using less.prems by auto
    have "b ! (length b - Suc k) AND mask n = 0 \<longleftrightarrow> (\<forall>j < n. \<not> bit (b ! (length b - Suc k)) j)"
      using u8_and_mask_zero [of _ 0 n] 2 by (auto simp: push_bit_0_id)
    also have "\<dots> \<longleftrightarrow> (\<forall>j < n. \<not> bit_at b (8 * k + j))"
      using k 2 by (simp add: bit_at_byte)
    also have "\<dots> \<longleftrightarrow> (\<forall>i. 8 * k \<le> i \<and> i < 8 * k + n \<longrightarrow> \<not> bit_at b i)"
      by (metis add_less_cancel_left le_Suc_ex le_add1)
    finally show ?thesis
      using 2 k by (subst bitwise_is_all_zeros_bytes.simps) simp
  next
    case 3
    then show ?thesis by (subst bitwise_is_all_zeros_bytes.simps) auto
  qed
qed

lemma is_all_byte_iff: "is_all_byte p x \<longleftrightarrow> (\<forall>y \<in> set p. y = x)"
  by (induction p) auto

section \<open>The same operations on words\<close>

text \<open>
  A byte array of \<open>n\<close> bytes in network byte order is the word \<open>word_rcat\<close> of it. The model of
  the expression code works on words; the refinement lemmas below say that the byte code computes
  these functions.
\<close>

definition word_copy :: "'a::len word \<Rightarrow> nat \<Rightarrow> 'b::len word \<Rightarrow> nat \<Rightarrow> nat \<Rightarrow> 'b word" where
  "word_copy src s dst d n =
     (dst AND NOT (push_bit d (mask n))) OR push_bit d (take_bit n (ucast (drop_bit s src)))"

definition word_zero :: "'a::len word \<Rightarrow> nat \<Rightarrow> nat \<Rightarrow> 'a word" where
  "word_zero w ofs n = w AND NOT (push_bit ofs (mask n))"

definition word_one :: "'a::len word \<Rightarrow> nat \<Rightarrow> nat \<Rightarrow> 'a word" where
  "word_one w ofs n = w OR push_bit ofs (mask n)"

definition word_toggle :: "'a::len word \<Rightarrow> nat \<Rightarrow> 'a word" where
  "word_toggle w i = w XOR push_bit i 1"

definition word_scan :: "'a::len word \<Rightarrow> bool \<Rightarrow> nat \<Rightarrow> nat \<Rightarrow> nat" where
  "word_scan w = scan_bits (bit w)"

lemma bit_word_copy [bits_simps]:
  "bit (word_copy src s dst d n) i \<longleftrightarrow>
     (if d \<le> i \<and> i < d + n then i < LENGTH('b) \<and> bit src (s + (i - d)) else bit dst i)"
  for dst :: "'b::len word"
  by (auto simp: word_copy_def bit_simps dest: bit_imp_le_length)

lemma bit_word_zero [bits_simps]:
  "bit (word_zero w ofs n) i \<longleftrightarrow> bit w i \<and> \<not> (ofs \<le> i \<and> i < ofs + n)"
  by (auto simp: word_zero_def bit_simps dest: bit_imp_le_length)

lemma bit_word_one [bits_simps]:
  "bit (word_one w ofs n) i \<longleftrightarrow> bit w i \<or> (ofs \<le> i \<and> i < ofs + n \<and> i < LENGTH('a))"
  for w :: "'a::len word"
  by (auto simp: word_one_def bit_simps)

lemma bit_word_toggle [bits_simps]:
  "i < LENGTH('a) \<Longrightarrow> bit (word_toggle w j) i \<longleftrightarrow> (bit w i \<noteq> (i = j))"
  for w :: "'a::len word"
  by (auto simp: word_toggle_def bit_simps)

lemma bit_word_rcat [bits_simps]:
  "bit (word_rcat b :: 'a::len word) i \<longleftrightarrow> i < LENGTH('a) \<and> bit_at b i"
  for b :: bytes
proof -
  have "bit (horner_sum uint (2 ^ 8) (rev b)) i \<longleftrightarrow>
      i div 8 < length b \<and> bit (rev b ! (i div 8)) (i mod 8)"
    using bit_horner_sum_uint_exp_iff [of "rev b" i] by simp
  also have "\<dots> \<longleftrightarrow> bit_at b i"
    by (auto simp: bit_at_def rev_nth less_mult_imp_div_less mult.commute)
  finally show ?thesis
    by (simp add: word_rcat_def bit_word_of_int_iff)
qed

text \<open>
  \<^bold>\<open>C33\<close>. \<open>bitwise_copy\<close> is memory safe and correct: when the bit ranges lie within the two
  arrays, no byte outside of them is read or written (the result is not \<open>None\<close>), whatever the two
  offsets are, and the result, read as a big-endian integer, has the \<open>n\<close> bits from \<open>s\<close> of the
  source at \<open>d\<close> and all other bits of the destination unchanged.
\<close>
theorem bitwise_copy_refines:
  fixes src dst :: bytes
  assumes "8 * length src = LENGTH('a::len)" "8 * length dst = LENGTH('b::len)"
    and "s + n \<le> 8 * length src" "d + n \<le> 8 * length dst"
  shows "\<exists>dst'. bitwise_copy src s dst d n = Some dst' \<and> length dst' = length dst \<and>
    (word_rcat dst' :: 'b word) = word_copy (word_rcat src :: 'a word) s (word_rcat dst) d n"
proof -
  obtain dst' where d': "bitwise_copy src s dst d n = Some dst'" "length dst' = length dst"
    "\<And>i. bit_at dst' i = copied_bit src s dst d n i"
    using bitwise_copy_eq [OF assms(3,4)] by blast
  have "(word_rcat dst' :: 'b word) = word_copy (word_rcat src :: 'a word) s (word_rcat dst) d n"
    by (rule bit_word_eqI) (use assms in \<open>auto simp: bits_simps d'(3) copied_bit_def\<close>)
  with d'(1,2) show ?thesis by blast
qed

theorem bitwise_copy_refines_witness:
  "\<exists>dst'. bitwise_copy [0xab, 0xcd] 4 [0, 0, 0xff, 0xff] 9 8 = Some dst' \<and> length dst' = length [0, 0, 0xff, 0xff :: u8] \<and>
     (word_rcat dst' :: 32 word) = word_copy (0xabcd :: 16 word) 4 0xffff 9 8"
  using bitwise_copy_refines [where 'a = 16 and 'b = 32, of "[0xab, 0xcd]" "[0, 0, 0xff, 0xff]" 4 8 9]
  by (simp add: word_rcat_def)

text \<open>
  \<^bold>\<open>C34\<close>. \<open>bitwise_zero\<close> and \<open>bitwise_one\<close> stay within the array when the range does, and clear
  (set) exactly the bits of the range in the big-endian integer.
\<close>
theorem bitwise_fill_refines:
  fixes dst :: bytes
  assumes "8 * length dst = LENGTH('a::len)" "ofs + n \<le> 8 * length dst"
  shows "(\<exists>d. bitwise_zero dst ofs n = Some d \<and> length d = length dst \<and>
      (word_rcat d :: 'a word) = word_zero (word_rcat dst) ofs n) \<and>
    (\<exists>d. bitwise_one dst ofs n = Some d \<and> length d = length dst \<and>
      (word_rcat d :: 'a word) = word_one (word_rcat dst) ofs n)"
proof -
  obtain z where z: "bitwise_zero dst ofs n = Some z" "length z = length dst"
    "\<And>i. bit_at z i = (if ofs \<le> i \<and> i < ofs + n then False else bit_at dst i)"
    using bitwise_zero_eq [OF assms(2)] by blast
  obtain w where w: "bitwise_one dst ofs n = Some w" "length w = length dst"
    "\<And>i. bit_at w i = (if ofs \<le> i \<and> i < ofs + n then True else bit_at dst i)"
    using bitwise_one_eq [OF assms(2)] by blast
  have "(word_rcat z :: 'a word) = word_zero (word_rcat dst) ofs n"
    by (rule bit_word_eqI) (auto simp: bits_simps z(3))
  moreover have "(word_rcat w :: 'a word) = word_one (word_rcat dst) ofs n"
    by (rule bit_word_eqI) (auto simp: bits_simps w(3))
  ultimately show ?thesis using z w by blast
qed

theorem bitwise_fill_refines_witness:
  "(\<exists>d. bitwise_zero [0xff, 0xff, 0xff, 0xff] 5 20 = Some d \<and> length d = length [0xff, 0xff, 0xff, 0xff :: u8] \<and>
      (word_rcat d :: 32 word) = word_zero 0xffffffff 5 20) \<and>
    (\<exists>d. bitwise_one [0xff, 0xff, 0xff, 0xff] 5 20 = Some d \<and> length d = length [0xff, 0xff, 0xff, 0xff :: u8] \<and>
      (word_rcat d :: 32 word) = word_one 0xffffffff 5 20)"
  using bitwise_fill_refines [where 'a = 32, of "[0xff, 0xff, 0xff, 0xff]" 5 20]
  by (simp add: word_rcat_def)

text \<open>
  \<^bold>\<open>C35\<close>. \<open>bitwise_scan\<close> within the array returns the least offset in the range whose bit is
  \<open>target\<close>, or the end of the range when there is none.
\<close>
theorem bitwise_scan_least:
  assumes "start \<le> end'" "end' \<le> 8 * length p"
  shows "\<exists>k. bitwise_scan p target start end' = Some k \<and> start \<le> k \<and> k \<le> end' \<and>
    (\<forall>i. start \<le> i \<and> i < k \<longrightarrow> bit_at p i \<noteq> target) \<and> (k < end' \<longrightarrow> bit_at p k = target)"
  using bitwise_scan_eq [OF assms(2), of target start] scan_bits_props [OF assms(1), of "bit_at p" target]
  by (simp add: Let_def)

theorem bitwise_scan_least_witness:
  "\<exists>k. bitwise_scan [0x10, 0x00] True 3 16 = Some k \<and> 3 \<le> k \<and> k \<le> 16 \<and>
    (\<forall>i. 3 \<le> i \<and> i < k \<longrightarrow> bit_at [0x10, 0x00] i \<noteq> True) \<and> (k < 16 \<longrightarrow> bit_at [0x10, 0x00] k = True)"
  by (rule bitwise_scan_least) simp_all

end
