(* ===== verification/Expr_Tree.thy ===== *)
theory Expr_Tree
  imports Bitwise
begin

text \<open>
  The matching expressions of OVN (\<open>ovn/include/ovn/expr.h\<close>, \<open>ovn/lib/expr.c\<close>): symbols,
  relational operators, the abstract syntax tree, the operations that build and restructure it
  (\<open>expr_combine\<close>, \<open>expr_not\<close>, \<open>expr_fix\<close>), the invariant check
  \<open>expr_honors_invariants\<close>, and the evaluator \<open>expr_evaluate\<close>, which is the meaning every later
  stage has to preserve.

  A value of \<open>union mf_subvalue\<close> (128 bytes in network byte order) is a 1024-bit word. The
  untagged union inside a comparison (a string, or a value and a mask) is modelled as a record with
  all members: as in the C code, the width of the symbol says which of them are meaningful. A
  \<open>struct flow\<close> is a function from fields to their values: what \<open>mf_get_value\<close> returns. Only
  comparison nodes ever carry an address set name, so \<open>as_name\<close> is a member of the comparison.
\<close>

section \<open>Symbols\<close>

type_synonym mf_subvalue = "1024 word"

record mf_field =
  mf_id :: string
  n_bytes :: nat
  n_bits :: nat
  maskable_fully :: bool

datatype expr_level = L_NOMINAL | L_BOOLEAN | L_ORDINAL

datatype expr_symbol = Symbol
  (sym_name: string)
  (sym_width: nat)
  (sym_field: "mf_field option")
  (sym_parent: "expr_symbol option")
  (sym_parent_ofs: nat)
  (sym_predicate: "string option")
  (sym_level: expr_level)
  (sym_prereqs: "string option")
  (must_crossproduct: bool)

section \<open>Relational operators\<close>

datatype expr_relop = R_EQ | R_NE | R_LT | R_LE | R_GT | R_GE

fun expr_relop_turn :: "expr_relop \<Rightarrow> expr_relop" where
  "expr_relop_turn R_EQ = R_EQ"
| "expr_relop_turn R_NE = R_NE"
| "expr_relop_turn R_LT = R_GT"
| "expr_relop_turn R_LE = R_GE"
| "expr_relop_turn R_GT = R_LT"
| "expr_relop_turn R_GE = R_LE"

fun expr_relop_invert :: "expr_relop \<Rightarrow> expr_relop" where
  "expr_relop_invert R_EQ = R_NE"
| "expr_relop_invert R_NE = R_EQ"
| "expr_relop_invert R_LT = R_GE"
| "expr_relop_invert R_LE = R_GT"
| "expr_relop_invert R_GT = R_LE"
| "expr_relop_invert R_GE = R_LT"

fun expr_relop_test :: "expr_relop \<Rightarrow> int \<Rightarrow> bool" where
  "expr_relop_test R_EQ cmp = (cmp = 0)"
| "expr_relop_test R_NE cmp = (cmp \<noteq> 0)"
| "expr_relop_test R_LT cmp = (cmp < 0)"
| "expr_relop_test R_LE cmp = (cmp \<le> 0)"
| "expr_relop_test R_GT cmp = (cmp > 0)"
| "expr_relop_test R_GE cmp = (cmp \<ge> 0)"

text \<open>The three-way comparisons of the C code (\<open>memcmp\<close> on network byte order, and integers).\<close>

definition three_way :: "'a::linorder \<Rightarrow> 'a \<Rightarrow> int" where
  "three_way x y = (if x < y then -1 else if x > y then 1 else 0)"

section \<open>The syntax tree\<close>

record expr_cmp =
  as_name :: "string option"
  cmp_symbol :: expr_symbol
  cmp_relop :: expr_relop
  cmp_string :: string
  cmp_value :: mf_subvalue
  cmp_mask :: mf_subvalue
  mask_n_bits :: nat

datatype expr =
    Cmp expr_cmp
  | And "expr list"
  | Or "expr list"
  | Boolean bool
  | Condition (cond_not: bool) (cond_string: string)

datatype expr_type = T_CMP | T_AND | T_OR | T_BOOLEAN | T_CONDITION

fun expr_type_of :: "expr \<Rightarrow> expr_type" where
  "expr_type_of (Cmp c) = T_CMP"
| "expr_type_of (And es) = T_AND"
| "expr_type_of (Or es) = T_OR"
| "expr_type_of (Boolean b) = T_BOOLEAN"
| "expr_type_of (Condition n s) = T_CONDITION"

text \<open>The member \<open>andor\<close> of a node, and a node of a given type with given subexpressions.\<close>

fun andor :: "expr \<Rightarrow> expr list" where
  "andor (And es) = es"
| "andor (Or es) = es"
| "andor e = []"

definition expr_create_andor :: "expr_type \<Rightarrow> expr list \<Rightarrow> expr" where
  "expr_create_andor ty es = (if ty = T_AND then And es else Or es)"

section \<open>Constructing and restructuring\<close>

definition expr_combine :: "expr_type \<Rightarrow> expr option \<Rightarrow> expr option \<Rightarrow> expr option" where
  "expr_combine ty a b =
     (case a of
        None \<Rightarrow> b
      | Some a' \<Rightarrow>
         (case b of
            None \<Rightarrow> a
          | Some b' \<Rightarrow> Some (
              if expr_type_of a' = ty then
                (if expr_type_of b' = ty
                 then expr_create_andor ty (andor a' @ andor b')
                 else expr_create_andor ty (andor a' @ [b']))
              else if expr_type_of b' = ty then expr_create_andor ty (a' # andor b')
              else expr_create_andor ty [a', b'])))"

text \<open>
  \<open>expr_insert_andor\<close>: what is inserted into the list of a node of type \<open>ty\<close> for \<open>new\<close>, namely the
  elements of \<open>new\<close> when it has the same type, and \<open>new\<close> itself otherwise.
\<close>

definition expr_insert_andor :: "expr_type \<Rightarrow> expr \<Rightarrow> expr list" where
  "expr_insert_andor ty new = (if expr_type_of new = ty then andor new else [new])"

fun expr_not :: "expr \<Rightarrow> expr" where
  "expr_not (Cmp c) = Cmp (c\<lparr>cmp_relop := expr_relop_invert (cmp_relop c)\<rparr>)"
| "expr_not (And es) = Or (map expr_not es)"
| "expr_not (Or es) = And (map expr_not es)"
| "expr_not (Boolean b) = Boolean (\<not> b)"
| "expr_not (Condition n s) = Condition (\<not> n) s"

text \<open>The loop of \<open>expr_fix_andor\<close>: \<open>None\<close> when an operand decides the result.\<close>

fun expr_fix_loop :: "bool \<Rightarrow> expr list \<Rightarrow> expr list option" where
  "expr_fix_loop short [] = Some []"
| "expr_fix_loop short (e # es) =
     (case e of
        Boolean b \<Rightarrow> if b = short then None else expr_fix_loop short es
      | _ \<Rightarrow> map_option (Cons e) (expr_fix_loop short es))"

definition expr_fix_andor :: "expr_type \<Rightarrow> expr list \<Rightarrow> bool \<Rightarrow> expr" where
  "expr_fix_andor ty es short =
     (case expr_fix_loop short es of
        None \<Rightarrow> Boolean short
      | Some [] \<Rightarrow> Boolean (\<not> short)
      | Some [sub] \<Rightarrow> sub
      | Some es' \<Rightarrow> expr_create_andor ty es')"

fun expr_fix :: "expr \<Rightarrow> expr" where
  "expr_fix (Cmp c) = Cmp c"
| "expr_fix (And es) = expr_fix_andor T_AND es False"
| "expr_fix (Or es) = expr_fix_andor T_OR es True"
| "expr_fix (Boolean b) = Boolean b"
| "expr_fix (Condition n s) = Condition n s"

text \<open>The loop of \<open>expr_get_unique_symbol\<close> carries \<open>prev\<close>.\<close>

fun expr_get_unique_symbol :: "expr \<Rightarrow> expr_symbol option"
  and unique_symbol_loop :: "expr_symbol option \<Rightarrow> expr list \<Rightarrow> expr_symbol option" where
  "expr_get_unique_symbol (Cmp c) = Some (cmp_symbol c)"
| "expr_get_unique_symbol (And es) = unique_symbol_loop None es"
| "expr_get_unique_symbol (Or es) = unique_symbol_loop None es"
| "expr_get_unique_symbol (Boolean b) = None"
| "expr_get_unique_symbol (Condition n s) = None"
| "unique_symbol_loop prev [] = prev"
| "unique_symbol_loop prev (e # es) =
     (case expr_get_unique_symbol e of
        None \<Rightarrow> None
      | Some s \<Rightarrow> (if prev \<noteq> None \<and> Some s \<noteq> prev then None else unique_symbol_loop (Some s) es))"

fun expr_honors_invariants :: "expr \<Rightarrow> bool" where
  "expr_honors_invariants (Cmp c) =
     (if sym_width (cmp_symbol c) \<noteq> 0 then cmp_value c AND NOT (cmp_mask c) = 0 else True)"
| "expr_honors_invariants (And es) =
     (if length es \<le> 1 then False
      else \<forall>sub \<in> set es. \<not> (expr_type_of sub = T_AND \<or> \<not> expr_honors_invariants sub))"
| "expr_honors_invariants (Or es) =
     (if length es \<le> 1 then False
      else \<forall>sub \<in> set es. \<not> (expr_type_of sub = T_OR \<or> \<not> expr_honors_invariants sub))"
| "expr_honors_invariants (Boolean b) = True"
| "expr_honors_invariants (Condition n s) = True"

section \<open>Evaluation\<close>

type_synonym flow = "mf_field \<Rightarrow> mf_subvalue"
type_synonym ports = "string \<Rightarrow> u32 option"

text \<open>\<open>None\<close> is the dereference of a symbol's NULL field.\<close>

definition expr_evaluate_cmp :: "flow \<Rightarrow> ports \<Rightarrow> expr_cmp \<Rightarrow> bool option" where
  "expr_evaluate_cmp f lookup_port c =
     (case sym_field (cmp_symbol c) of
        None \<Rightarrow> None
      | Some field \<Rightarrow>
         (if sym_width (cmp_symbol c) \<noteq> 0 then
            let n = 8 * n_bytes field;
                cst = take_bit n (cmp_value c);
                value = take_bit n (f field) AND take_bit n (cmp_mask c)
            in Some (expr_relop_test (cmp_relop c) (three_way value cst))
          else
            let value = (ucast (take_bit (n_bits field) (f field)) :: u64) in
            case lookup_port (cmp_string c) of
              None \<Rightarrow> Some False
            | Some cst \<Rightarrow> Some (expr_relop_test (cmp_relop c) (three_way value (ucast cst)))))"

fun expr_evaluate :: "flow \<Rightarrow> ports \<Rightarrow> expr \<Rightarrow> bool option"
  and expr_evaluate_andor :: "flow \<Rightarrow> ports \<Rightarrow> bool \<Rightarrow> expr list \<Rightarrow> bool option" where
  "expr_evaluate f lookup_port (Cmp c) = expr_evaluate_cmp f lookup_port c"
| "expr_evaluate f lookup_port (And es) = expr_evaluate_andor f lookup_port False es"
| "expr_evaluate f lookup_port (Or es) = expr_evaluate_andor f lookup_port True es"
| "expr_evaluate f lookup_port (Boolean b) = Some b"
| "expr_evaluate f lookup_port (Condition n s) = Some (if n then False else True)"
| "expr_evaluate_andor f lookup_port short [] = Some (\<not> short)"
| "expr_evaluate_andor f lookup_port short (e # es) =
     do {
       b \<leftarrow> expr_evaluate f lookup_port e;
       if b = short then Some short else expr_evaluate_andor f lookup_port short es
     }"

section \<open>Meaning of an expression\<close>

text \<open>
  The abstract meaning of a tree, given the truth value of each comparison and of each
  chassis-residence condition. \<open>expr_evaluate\<close> computes it with all conditions taken as true.
\<close>

fun ev :: "(expr_cmp \<Rightarrow> bool) \<Rightarrow> (string \<Rightarrow> bool) \<Rightarrow> expr \<Rightarrow> bool" where
  "ev s r (Cmp c) = s c"
| "ev s r (And es) = (\<forall>e \<in> set es. ev s r e)"
| "ev s r (Or es) = (\<exists>e \<in> set es. ev s r e)"
| "ev s r (Boolean b) = b"
| "ev s r (Condition n x) = (r x \<noteq> n)"

fun cmps_of :: "expr \<Rightarrow> expr_cmp set" where
  "cmps_of (Cmp c) = {c}"
| "cmps_of (And es) = (\<Union>e \<in> set es. cmps_of e)"
| "cmps_of (Or es) = (\<Union>e \<in> set es. cmps_of e)"
| "cmps_of (Boolean b) = {}"
| "cmps_of (Condition n x) = {}"

definition cmp_sat :: "flow \<Rightarrow> ports \<Rightarrow> expr_cmp \<Rightarrow> bool" where
  "cmp_sat f lookup_port c \<longleftrightarrow> expr_evaluate_cmp f lookup_port c = Some True"

definition has_field :: "expr_cmp \<Rightarrow> bool" where
  "has_field c \<longleftrightarrow> sym_field (cmp_symbol c) \<noteq> None"

lemma expr_evaluate_cmp_sat:
  "has_field c \<Longrightarrow> expr_evaluate_cmp f lp c = Some (cmp_sat f lp c)"
  by (auto simp: has_field_def cmp_sat_def expr_evaluate_cmp_def Let_def split: option.splits)

lemma expr_evaluate_ev_aux:
  "(\<forall>c \<in> cmps_of e. has_field c) \<Longrightarrow>
     expr_evaluate f lp e = Some (ev (cmp_sat f lp) (\<lambda>_. True) e)"
  "(\<forall>e \<in> set es. \<forall>c \<in> cmps_of e. has_field c) \<Longrightarrow>
     expr_evaluate_andor f lp short es =
       Some (if short then \<exists>e \<in> set es. ev (cmp_sat f lp) (\<lambda>_. True) e
             else \<forall>e \<in> set es. ev (cmp_sat f lp) (\<lambda>_. True) e)"
  by (induction f lp e and f lp short es rule: expr_evaluate_expr_evaluate_andor.induct)
    (auto simp: expr_evaluate_cmp_sat)

lemmas expr_evaluate_ev = expr_evaluate_ev_aux(1)

lemma ev_cong:
  "(\<And>c. c \<in> cmps_of e \<Longrightarrow> s c = s' c) \<Longrightarrow> ev s r e = ev s' r e"
  by (induction e) auto

subsection \<open>Restructuring keeps the meaning\<close>

definition ev_list :: "expr_type \<Rightarrow> (expr_cmp \<Rightarrow> bool) \<Rightarrow> (string \<Rightarrow> bool) \<Rightarrow> expr list \<Rightarrow> bool" where
  "ev_list ty s r es = (if ty = T_AND then \<forall>e \<in> set es. ev s r e else \<exists>e \<in> set es. ev s r e)"

lemma ev_list_simps [simp]:
  "ev_list ty s r [e] = ev s r e"
  "ev_list T_AND s r (es @ fs) = (ev_list T_AND s r es \<and> ev_list T_AND s r fs)"
  "ev_list T_OR s r (es @ fs) = (ev_list T_OR s r es \<or> ev_list T_OR s r fs)"
  "ev_list T_AND s r (e # es) = (ev s r e \<and> ev_list T_AND s r es)"
  "ev_list T_OR s r (e # es) = (ev s r e \<or> ev_list T_OR s r es)"
  "ev_list T_AND s r []" "\<not> ev_list T_OR s r []"
  by (auto simp: ev_list_def)

lemma andor_type_cases:
  "expr_type_of e = T_AND \<Longrightarrow> e = And (andor e)" "expr_type_of e = T_OR \<Longrightarrow> e = Or (andor e)"
  by (cases e; simp)+

lemma ev_And_list: "ev s r (And es) = ev_list T_AND s r es"
  and ev_Or_list: "ev s r (Or es) = ev_list T_OR s r es"
  by (simp_all add: ev_list_def)

lemma ev_andor:
  "expr_type_of e = ty \<Longrightarrow> ty = T_AND \<or> ty = T_OR \<Longrightarrow> ev_list ty s r (andor e) = ev s r e"
  by (cases e) (auto simp: ev_list_def)

lemma ev_create_andor [sem_simps]: "ev s r (expr_create_andor ty es) = ev_list ty s r es"
  by (simp add: expr_create_andor_def ev_list_def)

lemma ev_insert_andor [sem_simps]:
  "ty = T_AND \<or> ty = T_OR \<Longrightarrow> ev_list ty s r (expr_insert_andor ty e) = ev s r e"
  by (auto simp: expr_insert_andor_def ev_andor)

lemma expr_combine_None [simp]: "expr_combine ty None b = b" "expr_combine ty a None = a"
  by (auto simp: expr_combine_def split: option.splits)

lemma expr_combine_list:
  "ty = T_AND \<or> ty = T_OR \<Longrightarrow> expr_combine ty (Some a) (Some b) =
     Some (expr_create_andor ty (expr_insert_andor ty a @ expr_insert_andor ty b))"
  by (auto simp: expr_combine_def expr_insert_andor_def)

lemma ev_expr_combine:
  "expr_combine T_AND (Some a) (Some b) = Some e \<Longrightarrow> ev s r e = (ev s r a \<and> ev s r b)"
  "expr_combine T_OR (Some a) (Some b) = Some e' \<Longrightarrow> ev s r e' = (ev s r a \<or> ev s r b)"
  by (auto simp: expr_combine_list sem_simps)

lemma expr_fix_loop_None: "expr_fix_loop short es = None \<longleftrightarrow> Boolean short \<in> set es"
  by (induction es) (auto split: expr.splits)

lemma expr_fix_loop_Some:
  "expr_fix_loop short es = Some es' \<Longrightarrow>
     es' = filter (\<lambda>e. expr_type_of e \<noteq> T_BOOLEAN) es \<and> Boolean short \<notin> set es"
  by (induction es arbitrary: es') (auto split: expr.splits if_splits)

lemma expr_type_Boolean: "expr_type_of e = T_BOOLEAN \<longleftrightarrow> (\<exists>b. e = Boolean b)"
  by (cases e) auto

lemma ev_expr_fix_andor:
  assumes "(ty = T_AND \<and> short = False) \<or> (ty = T_OR \<and> short = True)"
  shows "ev s r (expr_fix_andor ty es short) = ev_list ty s r es"
proof (cases "expr_fix_loop short es")
  case None
  then have "Boolean short \<in> set es" by (simp add: expr_fix_loop_None)
  then show ?thesis using assms None by (force simp: expr_fix_andor_def ev_list_def)
next
  case (Some es')
  note f = expr_fix_loop_Some [OF Some]
  have "ev_list ty s r es' = ev_list ty s r es"
  proof -
    have "ev s r e = (\<not> short)" if e: "e \<in> set es" "expr_type_of e = T_BOOLEAN" for e
    proof -
      obtain b where "e = Boolean b" using e(2) by (auto simp: expr_type_Boolean)
      then show ?thesis using e(1) f by (cases b; cases short) auto
    qed
    then show ?thesis using f assms by (auto simp: ev_list_def)
  qed
  then show ?thesis using Some assms
    by (auto simp: expr_fix_andor_def sem_simps split: list.splits)
qed

lemma ev_expr_fix [sem_simps]: "ev s r (expr_fix e) = ev s r e"
  by (cases e) (auto simp: ev_expr_fix_andor ev_list_def)

lemma ev_expr_not:
  "(\<And>c. c \<in> cmps_of e \<Longrightarrow> s (c\<lparr>cmp_relop := expr_relop_invert (cmp_relop c)\<rparr>) = (\<not> s c)) \<Longrightarrow>
     ev s r (expr_not e) = (\<not> ev s r e)"
  by (induction e) auto

subsection \<open>Restructuring keeps the comparisons\<close>

lemma cmps_create_andor [simp]: "cmps_of (expr_create_andor ty es) = (\<Union>e \<in> set es. cmps_of e)"
  by (simp add: expr_create_andor_def)

lemma cmps_insert_andor [simp]:
  "ty = T_AND \<or> ty = T_OR \<Longrightarrow> (\<Union>x \<in> set (expr_insert_andor ty e). cmps_of x) = cmps_of e"
  by (cases e) (auto simp: expr_insert_andor_def)

lemma cmps_expr_combine:
  "ty = T_AND \<or> ty = T_OR \<Longrightarrow> expr_combine ty (Some a) (Some b) = Some e \<Longrightarrow>
     cmps_of e = cmps_of a \<union> cmps_of b"
  using cmps_insert_andor [of ty a] cmps_insert_andor [of ty b]
  by (auto simp: expr_combine_list simp del: cmps_insert_andor)

lemma cmps_expr_fix: "cmps_of (expr_fix e) \<subseteq> cmps_of e"
proof -
  have "cmps_of (expr_fix_andor ty es short) \<subseteq> (\<Union>e \<in> set es. cmps_of e)" for ty es short
  proof (cases "expr_fix_loop short es")
    case None
    then show ?thesis by (simp add: expr_fix_andor_def)
  next
    case (Some es')
    then have "set es' \<subseteq> set es" by (auto dest: expr_fix_loop_Some)
    moreover have "cmps_of (expr_fix_andor ty es short) \<subseteq> (\<Union>e \<in> set es'. cmps_of e)"
      using Some by (auto simp: expr_fix_andor_def split: list.splits)
    ultimately show ?thesis by blast
  qed
  then show ?thesis by (cases e) auto
qed

subsection \<open>Shape\<close>

text \<open>
  \<open>tree q e\<close>: the shape that \<open>expr_honors_invariants\<close> asks for, without Boolean literals, and with
  conditions only if \<open>q\<close>. \<open>simple q e\<close>: a Boolean literal or such a tree.
\<close>

fun tree :: "bool \<Rightarrow> expr \<Rightarrow> bool" where
  "tree q (Cmp c) = True"
| "tree q (And es) = (2 \<le> length es \<and> (\<forall>e \<in> set es. tree q e \<and> expr_type_of e \<noteq> T_AND))"
| "tree q (Or es) = (2 \<le> length es \<and> (\<forall>e \<in> set es. tree q e \<and> expr_type_of e \<noteq> T_OR))"
| "tree q (Boolean b) = False"
| "tree q (Condition n x) = q"

definition simple :: "bool \<Rightarrow> expr \<Rightarrow> bool" where
  "simple q e \<longleftrightarrow> (\<exists>b. e = Boolean b) \<or> tree q e"

definition cmp_honors :: "expr_cmp \<Rightarrow> bool" where
  "cmp_honors c \<longleftrightarrow> (sym_width (cmp_symbol c) \<noteq> 0 \<longrightarrow> cmp_value c AND NOT (cmp_mask c) = 0)"

lemma tree_mono: "tree False e \<Longrightarrow> tree q e"
  by (induction e) auto

lemma tree_honors: "tree q e \<Longrightarrow> \<forall>c \<in> cmps_of e. cmp_honors c \<Longrightarrow> expr_honors_invariants e"
  by (induction e) (auto simp: cmp_honors_def)

lemma honors_cmps: "expr_honors_invariants e \<Longrightarrow> c \<in> cmps_of e \<Longrightarrow> cmp_honors c"
  by (induction e) (auto simp: cmp_honors_def split: if_splits)

lemma tree_insert_andor:
  "tree q e \<Longrightarrow> ty = T_AND \<or> ty = T_OR \<Longrightarrow> x \<in> set (expr_insert_andor ty e) \<Longrightarrow>
     tree q x \<and> expr_type_of x \<noteq> ty"
  by (cases e) (auto simp: expr_insert_andor_def split: if_splits)

lemma simple_insert_andor:
  "simple q e \<Longrightarrow> ty = T_AND \<or> ty = T_OR \<Longrightarrow> x \<in> set (expr_insert_andor ty e) \<Longrightarrow>
     simple q x \<and> expr_type_of x \<noteq> ty"
  using tree_insert_andor [of q e ty x]
  by (auto simp: simple_def expr_insert_andor_def split: if_splits)

lemma tree_create_andor:
  "ty = T_AND \<or> ty = T_OR \<Longrightarrow> 2 \<le> length es \<Longrightarrow> (\<And>e. e \<in> set es \<Longrightarrow> tree q e \<and> expr_type_of e \<noteq> ty) \<Longrightarrow>
     tree q (expr_create_andor ty es)"
  by (auto simp: expr_create_andor_def)

lemma expr_insert_andor_length:
  "tree q e \<Longrightarrow> ty = T_AND \<or> ty = T_OR \<Longrightarrow> 1 \<le> length (expr_insert_andor ty e)"
  by (cases e) (auto simp: expr_insert_andor_def)

lemma tree_expr_combine:
  assumes "ty = T_AND \<or> ty = T_OR" "tree q a" "tree q b" "expr_combine ty (Some a) (Some b) = Some e"
  shows "tree q e"
proof -
  have "2 \<le> length (expr_insert_andor ty a @ expr_insert_andor ty b)"
    using assms(1-3) expr_insert_andor_length [of q a ty] expr_insert_andor_length [of q b ty] by simp
  then show ?thesis
    using assms tree_insert_andor [of q _ ty] by (auto simp: expr_combine_list intro!: tree_create_andor)
qed

lemma simple_expr_fix_andor:
  assumes ty: "ty = T_AND \<or> ty = T_OR"
    and es: "\<And>e. e \<in> set es \<Longrightarrow> simple q e \<and> expr_type_of e \<noteq> ty"
  shows "simple q (expr_fix_andor ty es short)"
proof (cases "expr_fix_loop short es")
  case None
  then show ?thesis by (simp add: expr_fix_andor_def simple_def)
next
  case (Some es')
  have es': "tree q e \<and> expr_type_of e \<noteq> ty" if "e \<in> set es'" for e
    using that es [of e] expr_fix_loop_Some [OF Some] by (auto simp: simple_def)
  consider "es' = []" | x where "es' = [x]" | "2 \<le> length es'"
    by (cases es' rule: remdups_adj.cases) auto
  then show ?thesis
  proof cases
    case 3
    then have "expr_fix_andor ty es short = expr_create_andor ty es'"
      using Some by (auto simp: expr_fix_andor_def split: list.splits)
    moreover have "tree q (expr_create_andor ty es')"
      by (rule tree_create_andor [OF ty 3]) (rule es')
    ultimately show ?thesis by (simp add: simple_def)
  qed (use Some es' in \<open>auto simp: expr_fix_andor_def simple_def\<close>)
qed

section \<open>Properties\<close>

lemma expr_relop_test_invert [simp]: "expr_relop_test (expr_relop_invert r) x = (\<not> expr_relop_test r x)"
  by (cases r) auto

lemma expr_relop_invert_invert [simp]: "expr_relop_invert (expr_relop_invert r) = r"
  by (cases r) auto

lemma three_way_swap: "three_way y x = - three_way x y"
  by (auto simp: three_way_def)

lemma expr_relop_test_turn:
  "expr_relop_test (expr_relop_turn r) (three_way y x) = expr_relop_test r (three_way x y)"
  by (cases r) (auto simp: three_way_swap [of y x])

text \<open>A comparison whose port, if it names one, exists.\<close>

definition known_port :: "ports \<Rightarrow> expr_cmp \<Rightarrow> bool" where
  "known_port lp c \<longleftrightarrow> sym_width (cmp_symbol c) = 0 \<longrightarrow> lp (cmp_string c) \<noteq> None"

lemma cmp_sat_invert:
  "has_field c \<Longrightarrow> known_port lp c \<Longrightarrow>
     cmp_sat f lp (c\<lparr>cmp_relop := expr_relop_invert (cmp_relop c)\<rparr>) = (\<not> cmp_sat f lp c)"
  by (cases "sym_width (cmp_symbol c) = 0")
    (auto simp: cmp_sat_def has_field_def known_port_def expr_evaluate_cmp_def Let_def)

lemma cmps_expr_not:
  "cmps_of (expr_not e) = (\<lambda>c. c\<lparr>cmp_relop := expr_relop_invert (cmp_relop c)\<rparr>) ` cmps_of e"
  by (induction e) auto

lemma expr_not_not: "expr_not (expr_not e) = e"
  by (induction e) (auto simp: map_idI)

lemma expr_type_of_not:
  "expr_type_of (expr_not e) = T_AND \<longleftrightarrow> expr_type_of e = T_OR"
  "expr_type_of (expr_not e) = T_OR \<longleftrightarrow> expr_type_of e = T_AND"
  by (cases e; simp)+

lemma expr_honors_not: "expr_honors_invariants e \<Longrightarrow> expr_honors_invariants (expr_not e)"
  by (induction e) (auto simp: expr_type_of_not split: if_splits)

text \<open>
  \<^bold>\<open>C31\<close>: \<open>expr_not\<close> negates an expression: on every packet it evaluates to the opposite value
  (provided the logical ports named in it exist: a test of an unknown port is false whichever way it
  is written), it keeps the invariant of the tree, and negating twice gives the expression back.
\<close>

theorem expr_not_correct:
  assumes "expr_honors_invariants e" "\<forall>c \<in> cmps_of e. has_field c \<and> known_port lp c"
  shows "expr_evaluate f lp (expr_not e) = map_option Not (expr_evaluate f lp e) \<and>
    expr_honors_invariants (expr_not e) \<and> expr_not (expr_not e) = e"
proof -
  have "expr_evaluate f lp e = Some (ev (cmp_sat f lp) (\<lambda>_. True) e)"
    using assms by (intro expr_evaluate_ev) simp
  moreover have "expr_evaluate f lp (expr_not e) = Some (ev (cmp_sat f lp) (\<lambda>_. True) (expr_not e))"
    using assms by (intro expr_evaluate_ev) (auto simp: cmps_expr_not has_field_def)
  moreover have "ev (cmp_sat f lp) (\<lambda>_. True) (expr_not e) = (\<not> ev (cmp_sat f lp) (\<lambda>_. True) e)"
    using assms(2) by (intro ev_expr_not) (simp add: cmp_sat_invert)
  ultimately show ?thesis using expr_honors_not [OF assms(1)] expr_not_not by simp
qed

text \<open>Two fields and comparisons on them, for the examples.\<close>

abbreviation "ex_flags_field \<equiv> \<lparr>mf_id = ''MFF_NSH_FLAGS'', n_bytes = 1, n_bits = 8, maskable_fully = True\<rparr>"
abbreviation "ex_port_field \<equiv> \<lparr>mf_id = ''MFF_REG14'', n_bytes = 4, n_bits = 32, maskable_fully = True\<rparr>"
abbreviation "ex_flags \<equiv> Symbol ''nsh.flags'' 8 (Some ex_flags_field) None 0 None L_ORDINAL None False"
abbreviation "ex_inport \<equiv> Symbol ''inport'' 0 (Some ex_port_field) None 0 None L_NOMINAL None False"

abbreviation ex_flags_cmp :: "expr_relop \<Rightarrow> mf_subvalue \<Rightarrow> mf_subvalue \<Rightarrow> expr_cmp" where
  "ex_flags_cmp r v m \<equiv> \<lparr>as_name = None, cmp_symbol = ex_flags, cmp_relop = r, cmp_string = '''',
     cmp_value = v, cmp_mask = m, mask_n_bits = 0\<rparr>"

abbreviation ex_port_cmp :: "string \<Rightarrow> expr_cmp" where
  "ex_port_cmp p \<equiv> \<lparr>as_name = None, cmp_symbol = ex_inport, cmp_relop = R_EQ, cmp_string = p,
     cmp_value = 0, cmp_mask = 0, mask_n_bits = 0\<rparr>"

theorem expr_not_correct_witness:
  "let e = And [Cmp (ex_flags_cmp R_GT 5 255), Cmp (ex_port_cmp ''lp1''), Condition False ''lp1''];
       lp = (\<lambda>s. if s = ''lp1'' then Some 7 else None);
       f = (\<lambda>m. if m = ex_port_field then 7 else 4)
   in expr_honors_invariants e \<and> (\<forall>c \<in> cmps_of e. has_field c \<and> known_port lp c) \<and>
     expr_evaluate f lp (expr_not e) = map_option Not (expr_evaluate f lp e) \<and>
     expr_honors_invariants (expr_not e) \<and> expr_not (expr_not e) = e"
  using expr_not_correct
    [of "And [Cmp (ex_flags_cmp R_GT 5 255), Cmp (ex_port_cmp ''lp1''), Condition False ''lp1'']"
      "\<lambda>s. if s = ''lp1'' then Some 7 else None" "\<lambda>m. if m = ex_port_field then 7 else 4"]
  by (simp add: Let_def has_field_def known_port_def)

lemma honors_insert_andor:
  "expr_honors_invariants e \<Longrightarrow> ty = T_AND \<or> ty = T_OR \<Longrightarrow> x \<in> set (expr_insert_andor ty e) \<Longrightarrow>
     expr_honors_invariants x \<and> expr_type_of x \<noteq> ty"
  by (cases e) (auto simp: expr_insert_andor_def split: if_splits)

lemma honors_insert_length:
  "expr_honors_invariants e \<Longrightarrow> ty = T_AND \<or> ty = T_OR \<Longrightarrow> 1 \<le> length (expr_insert_andor ty e)"
  by (cases e) (auto simp: expr_insert_andor_def split: if_splits)

lemma honors_expr_combine:
  assumes "ty = T_AND \<or> ty = T_OR" "expr_honors_invariants a" "expr_honors_invariants b"
  shows "expr_honors_invariants (expr_create_andor ty (expr_insert_andor ty a @ expr_insert_andor ty b))"
proof -
  let ?es = "expr_insert_andor ty a @ expr_insert_andor ty b"
  have "1 < length ?es"
    using honors_insert_length [OF assms(2,1)] honors_insert_length [OF assms(3,1)] by simp
  moreover have "expr_honors_invariants x \<and> expr_type_of x \<noteq> ty" if "x \<in> set ?es" for x
    using that honors_insert_andor [of _ ty x] assms by fastforce
  ultimately show ?thesis using assms(1) by (auto simp: expr_create_andor_def)
qed

text \<open>
  \<^bold>\<open>C32\<close>: \<open>expr_combine\<close> builds the conjunction or disjunction of two expressions: the result
  evaluates to \<open>a \<and> b\<close> or \<open>a \<or> b\<close> on every packet, and it honors the invariants of the tree if
  both operands do, also when an operand already is a node of the same type.
\<close>

theorem expr_combine_correct:
  assumes "ty = T_AND \<or> ty = T_OR" "expr_honors_invariants a" "expr_honors_invariants b"
    and "\<forall>c \<in> cmps_of a \<union> cmps_of b. has_field c"
  shows "\<exists>e. expr_combine ty (Some a) (Some b) = Some e \<and> expr_honors_invariants e \<and>
    (\<forall>f lp. \<exists>x y. expr_evaluate f lp a = Some x \<and> expr_evaluate f lp b = Some y \<and>
       expr_evaluate f lp e = Some (if ty = T_AND then x \<and> y else x \<or> y))"
proof -
  let ?e = "expr_create_andor ty (expr_insert_andor ty a @ expr_insert_andor ty b)"
  have e: "expr_combine ty (Some a) (Some b) = Some ?e" by (rule expr_combine_list [OF assms(1)])
  have f: "\<forall>c \<in> cmps_of ?e. has_field c"
    using assms(4) cmps_expr_combine [OF assms(1) e] by simp
  have eval: "expr_evaluate f lp x = Some (ev (cmp_sat f lp) (\<lambda>_. True) x)"
    if "x = a \<or> x = b \<or> x = ?e" for f lp x
    using that f assms(4) by (intro expr_evaluate_ev) blast
  have "ev s r ?e = (if ty = T_AND then ev s r a \<and> ev s r b else ev s r a \<or> ev s r b)" for s r
    using e assms(1) ev_expr_combine by auto
  with eval e honors_expr_combine [OF assms(1-3)] show ?thesis by (intro exI [of _ ?e]) simp
qed

theorem expr_combine_correct_witness:
  "\<exists>e. expr_combine T_AND (Some (And [Cmp (ex_flags_cmp R_GT 5 255), Boolean True]))
       (Some (Cmp (ex_port_cmp ''lp1''))) = Some e \<and> expr_honors_invariants e \<and>
    (\<forall>f lp. \<exists>x y. expr_evaluate f lp (And [Cmp (ex_flags_cmp R_GT 5 255), Boolean True]) = Some x \<and>
       expr_evaluate f lp (Cmp (ex_port_cmp ''lp1'')) = Some y \<and>
       expr_evaluate f lp e = Some (x \<and> y))"
  using expr_combine_correct [of T_AND "And [Cmp (ex_flags_cmp R_GT 5 255), Boolean True]"
      "Cmp (ex_port_cmp ''lp1'')"]
  by (simp add: has_field_def)

end
