(* ===== verification/Expr_Simplify.thy ===== *)
theory Expr_Simplify
  imports Expr_Tree
begin

text \<open>
  Simplification (\<open>expr_simplify\<close>, \<open>expr_evaluate_condition\<close> of \<open>ovn/lib/expr.c\<close>): every
  comparison becomes a disjunction of masked equality tests, and conditions on the chassis are
  replaced by their values. The theorems show that simplification never aborts on the
  expressions the parser builds, keeps the value of \<open>expr_evaluate\<close> on every packet, and that
  its result has only equality tests with a nonzero mask.
\<close>

section \<open>Definitions\<close>

definition find_bitwise_range :: "mf_subvalue \<Rightarrow> nat \<Rightarrow> nat \<times> nat" where
  "find_bitwise_range sv width =
     (let start = word_scan sv True 0 width in
      if start < width then
        let end' = word_scan sv False start width in
        if end' \<ge> width \<or> word_scan sv True end' width \<ge> width
        then (start, end' - start)
        else (0, 0)
      else (0, 0))"

definition expr_simplify_eq :: "expr_cmp \<Rightarrow> expr" where
  "expr_simplify_eq c = (if cmp_mask c = 0 then Boolean True else Cmp c)"

text \<open>
  Both \<open>expr_simplify_ne\<close> and \<open>expr_simplify_relational\<close> step with \<open>bitwise_scan\<close> through the bits
  of a value that equal \<open>target\<close>, and add one comparison \<open>mk z\<close> to the disjunction \<open>new\<close> for each.
\<close>

lemma scan_bits_ge: "ofs \<le> scan_bits g target ofs end'"
  by (induction g target ofs end' rule: scan_bits.induct) (subst scan_bits.simps, auto)

function simplify_scan ::
  "mf_subvalue \<Rightarrow> bool \<Rightarrow> (nat \<Rightarrow> expr_cmp) \<Rightarrow> nat \<Rightarrow> nat \<Rightarrow> expr option \<Rightarrow> expr option" where
  "simplify_scan w target mk i end' new =
     (let z = word_scan w target i end' in
      if z < end'
      then simplify_scan w target mk (Suc z) end' (expr_combine T_OR new (Some (Cmp (mk z))))
      else new)"
  by pat_completeness auto
termination
  by (relation "measure (\<lambda>(w, target, mk, i, end', new). end' - i)")
    (auto simp: word_scan_def Let_def intro!: diff_less_mono2 le_imp_less_Suc scan_bits_ge
      intro: le_less_trans [OF scan_bits_ge])

declare simplify_scan.simps [simp del]

definition ne_cmp :: "expr_cmp \<Rightarrow> nat \<Rightarrow> expr_cmp" where
  "ne_cmp c i =
     (let w = sym_width (cmp_symbol c) in
      \<lparr>as_name = None, cmp_symbol = cmp_symbol c, cmp_relop = R_EQ, cmp_string = '''',
       cmp_value = word_toggle (word_copy (cmp_value c) i 0 i (w - i)) i,
       cmp_mask = word_copy (cmp_mask c) i 0 i (w - i),
       mask_n_bits = 0\<rparr>)"

definition expr_simplify_ne :: "expr_cmp \<Rightarrow> expr" where
  "expr_simplify_ne c =
     (let w = sym_width (cmp_symbol c) in
      case simplify_scan (cmp_mask c) True (ne_cmp c) 0 w None of
        None \<Rightarrow> Boolean False
      | Some new \<Rightarrow> new)"

definition rel_cmp :: "expr_cmp \<Rightarrow> nat \<Rightarrow> nat \<Rightarrow> expr_cmp" where
  "rel_cmp c start z =
     c\<lparr>cmp_relop := R_EQ,
       cmp_value := word_zero (word_toggle (cmp_value c) z) start (z - start),
       cmp_mask := word_zero (cmp_mask c) start (z - start)\<rparr>"

definition expr_simplify_relational :: "expr_cmp \<Rightarrow> expr option" where
  "expr_simplify_relational c =
     (let value = cmp_value c;
          (start, n_bits) = find_bitwise_range (cmp_mask c) (sym_width (cmp_symbol c)) in
      if \<not> n_bits > 0 then None
      else
        let end' = start + n_bits;
            lt = (cmp_relop c = R_LT \<or> cmp_relop c = R_LE);
            eq = (cmp_relop c = R_LE \<or> cmp_relop c = R_GE) in
        if word_scan value (\<not> lt) start end' = end' then
          (if eq then Some (Boolean True) else Some (expr_simplify_ne c))
        else
          let new = (if eq then Some (Cmp (c\<lparr>cmp_relop := R_EQ\<rparr>)) else None) in
          case simplify_scan value lt (rel_cmp c start) start end' new of
            None \<Rightarrow> Some (Boolean False)
          | Some e \<Rightarrow> Some e)"

definition expr_simplify_cmp :: "expr_cmp \<Rightarrow> expr option" where
  "expr_simplify_cmp c =
     (if sym_width (cmp_symbol c) = 0 then Some (Cmp c)
      else if cmp_relop c = R_EQ then Some (expr_simplify_eq c)
      else if cmp_relop c = R_NE then Some (expr_simplify_ne c)
      else expr_simplify_relational c)"

fun expr_simplify :: "expr \<Rightarrow> expr option"
  and simplify_subs :: "expr_type \<Rightarrow> expr list \<Rightarrow> expr list option" where
  "expr_simplify (Cmp c) = expr_simplify_cmp c"
| "expr_simplify (And es) = map_option (\<lambda>es'. expr_fix (And es')) (simplify_subs T_AND es)"
| "expr_simplify (Or es) = map_option (\<lambda>es'. expr_fix (Or es')) (simplify_subs T_OR es)"
| "expr_simplify (Boolean b) = Some (Boolean b)"
| "expr_simplify (Condition n s) = Some (Condition n s)"
| "simplify_subs ty [] = Some []"
| "simplify_subs ty (sub # es) =
     do {
       e \<leftarrow> expr_simplify sub;
       es' \<leftarrow> simplify_subs ty es;
       Some (expr_insert_andor ty e @ es')
     }"

definition expr_evaluate_condition_node :: "(string \<Rightarrow> bool) \<Rightarrow> bool \<Rightarrow> string \<Rightarrow> expr" where
  "expr_evaluate_condition_node is_chassis_resident n s = Boolean (is_chassis_resident s \<noteq> n)"

fun expr_evaluate_condition :: "(string \<Rightarrow> bool) \<Rightarrow> expr \<Rightarrow> expr" where
  "expr_evaluate_condition r (And es) =
     expr_fix (And (concat (map (\<lambda>sub.
       expr_insert_andor T_AND (expr_fix (expr_evaluate_condition r sub))) es)))"
| "expr_evaluate_condition r (Or es) =
     expr_fix (Or (concat (map (\<lambda>sub.
       expr_insert_andor T_OR (expr_fix (expr_evaluate_condition r sub))) es)))"
| "expr_evaluate_condition r (Condition n s) = expr_evaluate_condition_node r n s"
| "expr_evaluate_condition r (Cmp c) = Cmp c"
| "expr_evaluate_condition r (Boolean b) = Boolean b"

section \<open>Numeric comparisons, bit by bit\<close>

text \<open>
  Two words differ, or are in the order \<open><\<close>, exactly if there is a position where they
  differ and above which they agree.
\<close>

definition top_diff :: "'a::len word \<Rightarrow> 'a word \<Rightarrow> nat \<Rightarrow> bool" where
  "top_diff x y z \<longleftrightarrow> bit x z \<noteq> bit y z \<and> (\<forall>j > z. bit x j = bit y j)"

lemma top_diff_exists: "x \<noteq> y \<Longrightarrow> \<exists>z. top_diff x y z"
proof -
  assume "x \<noteq> y"
  let ?D = "{z. bit x z \<noteq> bit y z}"
  have "finite ?D"
    by (rule finite_subset [of _ "{..<LENGTH('a)}"]) (auto dest: bit_imp_le_length)
  moreover have "?D \<noteq> {}" using \<open>x \<noteq> y\<close> by (auto simp: bit_eq_iff)
  ultimately obtain m where m: "m \<in> ?D" and le: "\<And>z. z \<in> ?D \<Longrightarrow> z \<le> m"
    using Max_in [of ?D] Max_ge [of ?D] by blast
  have "bit x j = bit y j" if "m < j" for j
    using that le [of j] by fastforce
  with m have "top_diff x y m" by (simp add: top_diff_def)
  then show ?thesis ..
qed

lemma top_diff_neq: "top_diff x y z \<Longrightarrow> x \<noteq> y"
  by (auto simp: top_diff_def)

lemma top_diff_less:
  fixes x y :: "'a::len word"
  assumes "top_diff x y z" "bit y z"
  shows "x < y"
proof -
  have z: "z < LENGTH('a)" using assms(2) by (rule bit_imp_le_length)
  have "drop_bit (Suc z) (unat x) = drop_bit (Suc z) (unat y)"
    using assms(1) by (auto simp: bit_eq_iff bit_simps top_diff_def)
  moreover have "take_bit (Suc z) (unat x) < take_bit (Suc z) (unat y)"
  proof -
    have "\<not> bit (unat x) z" "bit (unat y) z"
      using assms z by (auto simp: top_diff_def bit_unsigned_iff)
    then show ?thesis
      by (simp add: take_bit_Suc_from_most trans_less_add1)
  qed
  ultimately have "unat x < unat y"
    by (metis bits_ident nat_add_left_cancel_less)
  then show ?thesis by (simp add: word_less_nat_alt)
qed

lemma word_neq_top_diff: "x \<noteq> y \<longleftrightarrow> (\<exists>z. top_diff x y z)"
  using top_diff_exists top_diff_neq by blast

lemma top_diff_sym: "top_diff x y z = top_diff y x z"
  by (auto simp: top_diff_def)

lemma word_less_top_diff: "x < y \<longleftrightarrow> (\<exists>z. top_diff x y z \<and> bit y z)"
proof
  assume "x < y"
  then have "x \<noteq> y" by auto
  then obtain z where z: "top_diff x y z" using top_diff_exists by blast
  have "bit y z"
  proof (rule ccontr)
    assume "\<not> bit y z"
    then have "bit x z" using z by (auto simp: top_diff_def)
    with z have "y < x" by (intro top_diff_less [of y x z]) (auto simp: top_diff_sym)
    with \<open>x < y\<close> show False by simp
  qed
  with z show "\<exists>z. top_diff x y z \<and> bit y z" by blast
qed (auto intro: top_diff_less)

lemma sv_eq_iff: "x = y \<longleftrightarrow> (\<forall>i. bit x i = bit y i)" for x y :: mf_subvalue
  by (auto intro: bit_word_eqI)

lemma sv_bit_len: "bit x i \<Longrightarrow> i < 1024" for x :: mf_subvalue
  using bit_imp_le_length [of x i] by simp

section \<open>Well-formed comparisons\<close>

text \<open>
  What the parser guarantees of a comparison: its symbol is a field, the mask of a numeric
  comparison lies within the width of the symbol and the value within the mask (the invariant of
  \<open>expr_honors_invariants\<close>), the symbol is not wider than its field, and a string does not come from an
  address set; and the mask of a relational test is one run of bits.
\<close>

definition wf_cmp :: "expr_cmp \<Rightarrow> bool" where
  "wf_cmp c \<longleftrightarrow>
     (case sym_field (cmp_symbol c) of
        None \<Rightarrow> False
      | Some field \<Rightarrow> sym_width (cmp_symbol c) \<le> 8 * n_bytes field \<and> n_bytes field \<le> 128) \<and>
     (sym_width (cmp_symbol c) \<noteq> 0 \<longrightarrow> take_bit (sym_width (cmp_symbol c)) (cmp_mask c) = cmp_mask c) \<and>
     (sym_width (cmp_symbol c) = 0 \<longrightarrow> as_name c = None) \<and>
     cmp_honors c"

definition contiguous :: "expr_cmp \<Rightarrow> bool" where
  "contiguous c \<longleftrightarrow>
     (\<exists>start \<le> sym_width (cmp_symbol c). \<exists>n \<le> sym_width (cmp_symbol c).
        0 < n \<and> start + n \<le> sym_width (cmp_symbol c) \<and> cmp_mask c = push_bit start (mask n))"

text \<open>
  Some fields can only be matched as a whole. The predicates below take the set \<open>X\<close> of the symbols on
  such fields: a comparison on one of them has to be a test for equality under the full mask. Every
  lemma holds for all \<open>X\<close>; with the empty set nothing is asked for.
\<close>

definition whole_mask :: "expr_symbol set \<Rightarrow> expr_cmp \<Rightarrow> bool" where
  "whole_mask X c \<longleftrightarrow> (cmp_symbol c \<in> X \<longrightarrow> cmp_mask c = mask (sym_width (cmp_symbol c)))"

definition parsed_cmp :: "expr_symbol set \<Rightarrow> expr_cmp \<Rightarrow> bool" where
  "parsed_cmp X c \<longleftrightarrow> wf_cmp c \<and>
     (if sym_width (cmp_symbol c) = 0 then cmp_relop c = R_EQ
      else (cmp_relop c \<noteq> R_EQ \<and> cmp_relop c \<noteq> R_NE \<longrightarrow> contiguous c) \<and>
        (cmp_symbol c \<in> X \<longrightarrow> cmp_relop c = R_EQ) \<and> whole_mask X c)"

text \<open>What simplification leaves: equality tests, with a nonzero mask if numeric.\<close>

definition eq_cmp :: "expr_symbol set \<Rightarrow> expr_cmp \<Rightarrow> bool" where
  "eq_cmp X c \<longleftrightarrow> wf_cmp c \<and> cmp_relop c = R_EQ \<and>
     (sym_width (cmp_symbol c) \<noteq> 0 \<longrightarrow> cmp_mask c \<noteq> 0 \<and> whole_mask X c)"

definition cmp_field :: "expr_cmp \<Rightarrow> mf_field" where
  "cmp_field c = the (sym_field (cmp_symbol c))"

lemma wf_cmp_has_field: "wf_cmp c \<Longrightarrow> has_field c"
  by (auto simp: wf_cmp_def has_field_def split: option.splits)

lemma wf_cmp_bits:
  assumes "wf_cmp c" "sym_width (cmp_symbol c) \<noteq> 0"
  shows "bit (cmp_mask c) i \<Longrightarrow> i < sym_width (cmp_symbol c)"
    and "bit (cmp_value c) i \<Longrightarrow> bit (cmp_mask c) i"
    and "sym_width (cmp_symbol c) \<le> 8 * n_bytes (cmp_field c)"
    and "sym_field (cmp_symbol c) = Some (cmp_field c)"
    and "n_bytes (cmp_field c) \<le> 128"
proof -
  have "take_bit (sym_width (cmp_symbol c)) (cmp_mask c) = cmp_mask c"
    using assms by (simp add: wf_cmp_def)
  then show "bit (cmp_mask c) i \<Longrightarrow> i < sym_width (cmp_symbol c)"
    by (metis bit_take_bit_iff)
  show "bit (cmp_value c) i \<Longrightarrow> bit (cmp_mask c) i"
    using assms sv_bit_len [of "cmp_value c" i]
    by (auto simp: wf_cmp_def cmp_honors_def sv_eq_iff bit_simps)
qed (use assms in \<open>auto simp: wf_cmp_def cmp_field_def split: option.splits\<close>)

lemma wf_cmpI:
  assumes "sym_field (cmp_symbol c) = Some field" "sym_width (cmp_symbol c) \<le> 8 * n_bytes field"
    and "n_bytes field \<le> 128"
    and "\<And>i. bit (cmp_mask c) i \<Longrightarrow> i < sym_width (cmp_symbol c)"
    and "\<And>i. bit (cmp_value c) i \<Longrightarrow> bit (cmp_mask c) i"
    and "sym_width (cmp_symbol c) \<noteq> 0"
  shows "wf_cmp c"
  using assms by (auto simp: wf_cmp_def cmp_honors_def sv_eq_iff bit_simps)

lemma cmp_sat_num:
  assumes "wf_cmp c" "sym_width (cmp_symbol c) \<noteq> 0"
  shows "cmp_sat f lp c =
    expr_relop_test (cmp_relop c) (three_way (f (cmp_field c) AND cmp_mask c) (cmp_value c))"
proof -
  let ?n = "8 * n_bytes (cmp_field c)"
  note b = wf_cmp_bits [OF assms]
  have m: "i < ?n" if "bit (cmp_mask c) i" for i
    using b(1) [OF that] b(3) by simp
  have "take_bit ?n (cmp_value c) = cmp_value c"
    using b(2) m by (auto simp: sv_eq_iff bit_simps)
  moreover have "take_bit ?n (f (cmp_field c)) AND take_bit ?n (cmp_mask c) = f (cmp_field c) AND cmp_mask c"
    using m by (auto simp: sv_eq_iff bit_simps)
  ultimately show ?thesis
    using assms(2) b(4) by (simp add: cmp_sat_def expr_evaluate_cmp_def)
qed

lemma three_way_eq_0 [simp]: "three_way x y = 0 \<longleftrightarrow> x = y"
  and three_way_less_0 [simp]: "three_way x y < 0 \<longleftrightarrow> x < y"
  and three_way_le_0 [simp]: "three_way x y \<le> 0 \<longleftrightarrow> x \<le> y"
  and three_way_gt_0 [simp]: "0 < three_way x y \<longleftrightarrow> y < x"
  and three_way_ge_0 [simp]: "0 \<le> three_way x y \<longleftrightarrow> y \<le> x"
  by (auto simp: three_way_def)

lemma cmp_sat_eq:
  assumes "wf_cmp c" "sym_width (cmp_symbol c) \<noteq> 0" "cmp_relop c = R_EQ"
  shows "cmp_sat f lp c \<longleftrightarrow> (\<forall>i. (bit (f (cmp_field c)) i \<and> bit (cmp_mask c) i) = bit (cmp_value c) i)"
  by (auto simp: cmp_sat_num [OF assms(1,2)] assms(3) sv_eq_iff bit_simps dest: bit_imp_le_length)

section \<open>The disjunctions that simplification builds\<close>

fun or_all :: "expr_cmp list \<Rightarrow> expr option" where
  "or_all [] = None"
| "or_all [c] = Some (Cmp c)"
| "or_all cs = Some (Or (map Cmp cs))"

lemma or_all_snoc: "expr_combine T_OR (or_all cs) (Some (Cmp c)) = or_all (cs @ [c])"
  by (cases cs rule: or_all.cases) (auto simp: expr_combine_def expr_create_andor_def)

lemma filter_upt_scan:
  "filter (\<lambda>z. g z = target) [i..<end'] =
     (let z = scan_bits g target i end' in
      if z < end' then z # filter (\<lambda>z. g z = target) [Suc z..<end'] else [])"
proof (induction g target i end' rule: scan_bits.induct)
  case (1 g target i end')
  show ?case
  proof (cases "i < end'")
    case True
    then have u: "[i..<end'] = i # [Suc i..<end']" by (rule upt_conv_Cons)
    show ?thesis
    proof (cases "g i = target")
      case True
      then have "scan_bits g target i end' = i" by (subst scan_bits.simps) simp
      then show ?thesis using True \<open>i < end'\<close> u by simp
    next
      case False
      then have "scan_bits g target i end' = scan_bits g target (Suc i) end'"
        using True by (subst scan_bits.simps) simp
      then show ?thesis using "1.IH" True False u by simp
    qed
  next
    case False
    then show ?thesis by (subst scan_bits.simps) simp
  qed
qed

lemma simplify_scan_or_all:
  "simplify_scan w target mk i end' (or_all cs) =
     or_all (cs @ map mk (filter (\<lambda>z. bit w z = target) [i..<end']))"
proof (induction "end' - i" arbitrary: i cs rule: less_induct)
  case less
  let ?z = "word_scan w target i end'"
  note f = filter_upt_scan [of "bit w" target i end', folded word_scan_def, unfolded Let_def]
  show ?case
  proof (cases "?z < end'")
    case True
    have "i \<le> ?z" by (simp add: word_scan_def scan_bits_ge)
    then have "end' - Suc ?z < end' - i" using True by simp
    from less.hyps [OF this, of "cs @ [mk ?z]"] show ?thesis
      using True f by (subst simplify_scan.simps) (simp add: or_all_snoc Let_def)
  next
    case False
    then show ?thesis using f by (subst simplify_scan.simps) simp
  qed
qed

lemma or_all_props:
  assumes "or_all cs = Some e"
  shows "ev s r e = (\<exists>c \<in> set cs. s c)" "cmps_of e = set cs" "tree q e"
  using assms by (cases cs rule: or_all.cases; auto)+

section \<open>Inequality and order\<close>

lemma ne_cmp_simps [simp]:
  "cmp_symbol (ne_cmp c z) = cmp_symbol c" "cmp_relop (ne_cmp c z) = R_EQ"
  "cmp_field (ne_cmp c z) = cmp_field c"
  by (simp_all add: ne_cmp_def cmp_field_def Let_def)

lemma rel_cmp_simps [simp]:
  "cmp_symbol (rel_cmp c start z) = cmp_symbol c" "cmp_relop (rel_cmp c start z) = R_EQ"
  "cmp_field (rel_cmp c start z) = cmp_field c"
  by (simp_all add: rel_cmp_def cmp_field_def)

lemma bit_ne_cmp:
  assumes "wf_cmp c" "sym_width (cmp_symbol c) \<noteq> 0" "bit (cmp_mask c) z"
  shows "bit (cmp_mask (ne_cmp c z)) i \<longleftrightarrow> z \<le> i \<and> bit (cmp_mask c) i"
    and "bit (cmp_value (ne_cmp c z)) i \<longleftrightarrow> z \<le> i \<and> (bit (cmp_value c) i \<noteq> (i = z))"
proof -
  note b = wf_cmp_bits [OF assms(1,2)]
  show "bit (cmp_mask (ne_cmp c z)) i \<longleftrightarrow> z \<le> i \<and> bit (cmp_mask c) i"
    using b(1) [OF assms(3)] b(1) [of i] sv_bit_len [of "cmp_mask c" i]
    by (auto simp: ne_cmp_def Let_def bits_simps)
  show "bit (cmp_value (ne_cmp c z)) i \<longleftrightarrow> z \<le> i \<and> (bit (cmp_value c) i \<noteq> (i = z))"
  proof (cases "i < 1024")
    case True
    then show ?thesis
      using b(1) [OF assms(3)] b(1) [OF b(2), of i]
      by (auto simp: ne_cmp_def Let_def bits_simps)
  next
    case False
    then have "\<not> bit (cmp_value (ne_cmp c z)) i" "\<not> bit (cmp_value c) i" "i \<noteq> z"
      using sv_bit_len assms(3) by auto
    then show ?thesis by simp
  qed
qed

lemma bit_rel_cmp:
  assumes "wf_cmp c" "sym_width (cmp_symbol c) \<noteq> 0" "bit (cmp_mask c) z"
    and "start \<le> z" "\<And>i. bit (cmp_mask c) i \<Longrightarrow> start \<le> i"
  shows "bit (cmp_mask (rel_cmp c start z)) i \<longleftrightarrow> z \<le> i \<and> bit (cmp_mask c) i"
    and "bit (cmp_value (rel_cmp c start z)) i \<longleftrightarrow> z \<le> i \<and> (bit (cmp_value c) i \<noteq> (i = z))"
proof -
  note b = wf_cmp_bits [OF assms(1,2)]
  show "bit (cmp_mask (rel_cmp c start z)) i \<longleftrightarrow> z \<le> i \<and> bit (cmp_mask c) i"
    using assms(4,5) by (auto simp: rel_cmp_def bits_simps)
  show "bit (cmp_value (rel_cmp c start z)) i \<longleftrightarrow> z \<le> i \<and> (bit (cmp_value c) i \<noteq> (i = z))"
  proof (cases "i < 1024")
    case True
    then show ?thesis
      using assms(4) assms(5) [OF b(2), of i] by (auto simp: rel_cmp_def bits_simps)
  next
    case False
    then have "\<not> bit (cmp_value (rel_cmp c start z)) i" "\<not> bit (cmp_value c) i" "i \<noteq> z"
      using sv_bit_len assms(3) by auto
    then show ?thesis by simp
  qed
qed

text \<open>
  A comparison that keeps the bits from \<open>z\<close> upwards and flips bit \<open>z\<close> of the value holds exactly
  where the topmost difference to the original value is at \<open>z\<close>.
\<close>

lemma flipped_cmp:
  assumes wf: "wf_cmp c" "sym_width (cmp_symbol c) \<noteq> 0" "bit (cmp_mask c) z"
    and d: "cmp_symbol d = cmp_symbol c" "cmp_relop d = R_EQ"
      "\<And>i. bit (cmp_mask d) i \<longleftrightarrow> z \<le> i \<and> bit (cmp_mask c) i"
      "\<And>i. bit (cmp_value d) i \<longleftrightarrow> z \<le> i \<and> (bit (cmp_value c) i \<noteq> (i = z))"
  shows "cmp_symbol c \<notin> X \<Longrightarrow> eq_cmp X d"
    and "cmp_sat f lp d \<longleftrightarrow> top_diff (f (cmp_field c) AND cmp_mask c) (cmp_value c) z"
proof -
  note b = wf_cmp_bits [OF wf(1,2)]
  have fld: "cmp_field d = cmp_field c" by (simp add: cmp_field_def d(1))
  have wd: "wf_cmp d"
    by (rule wf_cmpI [where field = "cmp_field c"]) (use b d wf(2,3) in auto)
  moreover have "cmp_mask d \<noteq> 0"
    using d(3) [of z] wf(3) by (auto simp: sv_eq_iff)
  ultimately show "eq_cmp X d" if "cmp_symbol c \<notin> X" using that by (simp add: eq_cmp_def whole_mask_def d)
  show "cmp_sat f lp d \<longleftrightarrow> top_diff (f (cmp_field c) AND cmp_mask c) (cmp_value c) z"
    using wd wf(2,3) b(2)
    by (auto simp: cmp_sat_eq d fld top_diff_def bit_simps le_less dest: spec [of _ z])
qed

text \<open>\<open>simplified_to X c e\<close>: what one simplified comparison promises.\<close>

definition simplified_to :: "expr_symbol set \<Rightarrow> expr_cmp \<Rightarrow> expr \<Rightarrow> bool" where
  "simplified_to X c e \<longleftrightarrow> simple False e \<and>
     (\<forall>d \<in> cmps_of e. eq_cmp X d \<and> cmp_symbol d = cmp_symbol c) \<and>
     (\<forall>f lp r. ev (cmp_sat f lp) r e = cmp_sat f lp c)"

lemma simplified_to_or_all:
  assumes "or_all cs = Some e" "\<And>d. d \<in> set cs \<Longrightarrow> eq_cmp X d \<and> cmp_symbol d = cmp_symbol c"
    and "\<And>f lp. (\<exists>d \<in> set cs. cmp_sat f lp d) = cmp_sat f lp c"
  shows "simplified_to X c e"
  using or_all_props [OF assms(1)] assms(2,3) by (auto simp: simplified_to_def simple_def)

lemma simplified_to_Boolean:
  "(\<And>f lp. cmp_sat f lp c = b) \<Longrightarrow> simplified_to X c (Boolean b)"
  by (simp add: simplified_to_def simple_def)

lemma expr_simplify_ne_ok:
  assumes wf: "wf_cmp c" "sym_width (cmp_symbol c) \<noteq> 0"
    and free: "cmp_symbol c \<notin> X"
    and sat: "\<And>f lp. cmp_sat f lp c \<longleftrightarrow> f (cmp_field c) AND cmp_mask c \<noteq> cmp_value c"
  shows "simplified_to X c (expr_simplify_ne c)"
proof -
  let ?w = "sym_width (cmp_symbol c)"
  let ?cs = "map (ne_cmp c) (filter (\<lambda>z. bit (cmp_mask c) z) [0..<?w])"
  note b = wf_cmp_bits [OF wf]
  have scan: "simplify_scan (cmp_mask c) True (ne_cmp c) 0 ?w None = or_all ?cs"
    using simplify_scan_or_all [of "cmp_mask c" True "ne_cmp c" 0 ?w "[]"] by simp
  have eq: "eq_cmp X (ne_cmp c z)" and sat_z: "cmp_sat f lp (ne_cmp c z) \<longleftrightarrow>
      top_diff (f (cmp_field c) AND cmp_mask c) (cmp_value c) z" if "bit (cmp_mask c) z" for z f lp
    using flipped_cmp [OF wf that, of "ne_cmp c z"] bit_ne_cmp [OF wf that] free by auto
  have top: "bit (cmp_mask c) z" if "top_diff (f (cmp_field c) AND cmp_mask c) (cmp_value c) z" for f z
    using that b(2) by (auto simp: top_diff_def bit_simps)
  have ex: "(\<exists>d \<in> set ?cs. cmp_sat f lp d) = cmp_sat f lp c" for f lp
  proof -
    have "(\<exists>d \<in> set ?cs. cmp_sat f lp d) \<longleftrightarrow> (\<exists>z < ?w. bit (cmp_mask c) z \<and>
        top_diff (f (cmp_field c) AND cmp_mask c) (cmp_value c) z)"
      using sat_z by auto
    also have "\<dots> \<longleftrightarrow> (\<exists>z. top_diff (f (cmp_field c) AND cmp_mask c) (cmp_value c) z)"
      using b(1) top by blast
    finally show ?thesis by (simp add: sat word_neq_top_diff)
  qed
  show ?thesis
  proof (cases "or_all ?cs")
    case None
    then have "?cs = []" by (cases ?cs rule: or_all.cases) auto
    then have "\<not> cmp_sat f lp c" for f lp using ex [of f lp] by simp
    with None show ?thesis by (simp add: expr_simplify_ne_def scan Let_def simplified_to_Boolean)
  next
    case (Some e)
    moreover from this have "simplified_to X c e"
      by (rule simplified_to_or_all) (use eq ex in auto)
    ultimately show ?thesis by (simp add: expr_simplify_ne_def scan Let_def)
  qed
qed

lemma find_bitwise_range_contiguous:
  assumes "0 < n" "start + n \<le> width" "width \<le> 1024" "m = push_bit start (mask n)"
  shows "find_bitwise_range m width = (start, n)"
proof -
  have bit: "bit m i \<longleftrightarrow> start \<le> i \<and> i < start + n" for i
    using assms by (auto simp: bit_simps)
  have s: "word_scan m True 0 width = start"
    unfolding word_scan_def by (rule scan_bits_unique) (use assms bit in auto)
  have e: "word_scan m False start width = start + n"
    unfolding word_scan_def by (rule scan_bits_unique) (use assms bit in auto)
  have "word_scan m True (start + n) width = width"
    unfolding word_scan_def by (rule scan_bits_unique) (use assms bit in auto)
  then show ?thesis using s e assms by (simp add: find_bitwise_range_def Let_def)
qed

text \<open>
  The general step of \<open>expr_simplify_relational\<close>: \<open>cs\<close> is the list of comparisons it collects for
  a strict order, followed by the case for equality.
\<close>

lemma rel_cmps_ok:
  assumes wf: "wf_cmp c" "sym_width (cmp_symbol c) \<noteq> 0"
    and free: "cmp_symbol c \<notin> X"
    and rng: "\<And>i. bit (cmp_mask c) i \<longleftrightarrow> start \<le> i \<and> i < end'"
    and d: "d \<in> set (map (rel_cmp c start) (filter (\<lambda>z. bit (cmp_value c) z = lt) [start..<end']))"
  shows "eq_cmp X d" "cmp_symbol d = cmp_symbol c"
proof -
  obtain z where z: "d = rel_cmp c start z" "start \<le> z" "z < end'" using d by auto
  then have "bit (cmp_mask c) z" by (simp add: rng)
  from flipped_cmp(1) [OF wf this, of d] bit_rel_cmp [OF wf this z(2)] rng z free
  show "eq_cmp X d" by auto
  show "cmp_symbol d = cmp_symbol c" by (simp add: z(1))
qed

lemma rel_cmps_sat:
  assumes wf: "wf_cmp c" "sym_width (cmp_symbol c) \<noteq> 0"
    and rng: "\<And>i. bit (cmp_mask c) i \<longleftrightarrow> start \<le> i \<and> i < end'"
  shows "(\<exists>d \<in> set (map (rel_cmp c start) (filter (\<lambda>z. bit (cmp_value c) z = lt) [start..<end'])).
      cmp_sat f lp d) \<longleftrightarrow>
    (let x = f (cmp_field c) AND cmp_mask c in if lt then x < cmp_value c else cmp_value c < x)"
proof -
  let ?x = "f (cmp_field c) AND cmp_mask c" and ?v = "cmp_value c"
  note b = wf_cmp_bits [OF wf]
  have sat: "cmp_sat f lp (rel_cmp c start z) \<longleftrightarrow> top_diff ?x ?v z" if "start \<le> z" "z < end'" for z
  proof -
    have "bit (cmp_mask c) z" using that by (simp add: rng)
    from flipped_cmp(2) [OF wf this, of "rel_cmp c start z"] bit_rel_cmp [OF wf this that(1)] rng
    show ?thesis by auto
  qed
  have z: "start \<le> z \<and> z < end'" if "top_diff ?x ?v z" for z
    using that b(2) rng by (auto simp: top_diff_def bit_simps)
  have "(\<exists>d \<in> set (map (rel_cmp c start) (filter (\<lambda>z. bit ?v z = lt) [start..<end'])). cmp_sat f lp d)
      \<longleftrightarrow> (\<exists>z. start \<le> z \<and> z < end' \<and> bit ?v z = lt \<and> top_diff ?x ?v z)"
    using sat by auto
  also have "\<dots> \<longleftrightarrow> (\<exists>z. top_diff ?x ?v z \<and> bit ?v z = lt)" using z by blast
  also have "\<dots> \<longleftrightarrow> (if lt then ?x < ?v else ?v < ?x)"
  proof (cases lt)
    case True
    then show ?thesis by (simp add: word_less_top_diff)
  next
    case False
    have "bit ?v z = lt \<longleftrightarrow> bit ?x z" if "top_diff ?x ?v z" for z
      using that False by (auto simp: top_diff_def)
    then show ?thesis using False by (auto simp: word_less_top_diff [of ?v] top_diff_sym [of ?v])
  qed
  finally show ?thesis by (simp add: Let_def)
qed

lemma eq_relop_cmp:
  assumes wf: "wf_cmp c" "sym_width (cmp_symbol c) \<noteq> 0" "cmp_mask c \<noteq> 0"
  shows "cmp_symbol c \<notin> X \<Longrightarrow> eq_cmp X (c\<lparr>cmp_relop := R_EQ\<rparr>)"
    and "cmp_sat f lp (c\<lparr>cmp_relop := R_EQ\<rparr>) \<longleftrightarrow> f (cmp_field c) AND cmp_mask c = cmp_value c"
proof -
  have "wf_cmp (c\<lparr>cmp_relop := R_EQ\<rparr>)" using wf(1)
    by (simp add: wf_cmp_def cmp_honors_def split: option.splits)
  with wf show "cmp_symbol c \<notin> X \<Longrightarrow> eq_cmp X (c\<lparr>cmp_relop := R_EQ\<rparr>)"
    and "cmp_sat f lp (c\<lparr>cmp_relop := R_EQ\<rparr>) \<longleftrightarrow> f (cmp_field c) AND cmp_mask c = cmp_value c"
    by (auto simp: eq_cmp_def whole_mask_def cmp_sat_num cmp_field_def)
qed

definition strict_lt :: "expr_relop \<Rightarrow> bool" where
  "strict_lt r = (r = R_LT \<or> r = R_LE)"

definition non_strict :: "expr_relop \<Rightarrow> bool" where
  "non_strict r = (r = R_LE \<or> r = R_GE)"

lemma expr_simplify_relational_eval:
  assumes range: "find_bitwise_range (cmp_mask c) (sym_width (cmp_symbol c)) = (start, n)" "0 < n"
  shows "expr_simplify_relational c =
    (if word_scan (cmp_value c) (\<not> strict_lt (cmp_relop c)) start (start + n) = start + n
     then Some (if non_strict (cmp_relop c) then Boolean True else expr_simplify_ne c)
     else Some (case or_all ((if non_strict (cmp_relop c) then [c\<lparr>cmp_relop := R_EQ\<rparr>] else []) @
         map (rel_cmp c start) (filter (\<lambda>z. bit (cmp_value c) z = strict_lt (cmp_relop c))
           [start..<start + n])) of None \<Rightarrow> Boolean False | Some e \<Rightarrow> e))"
proof -
  have "(if b then Some (Cmp d) else None) = or_all (if b then [d] else [])" for b d by simp
  note new = this [of "non_strict (cmp_relop c)" "c\<lparr>cmp_relop := R_EQ\<rparr>"]
  show ?thesis
    unfolding expr_simplify_relational_def range(1) Let_def prod.case strict_lt_def [symmetric]
      non_strict_def [symmetric] new simplify_scan_or_all
    using range(2) by (simp split: option.split)
qed

lemma expr_simplify_relational_ok:
  assumes wf: "wf_cmp c" "sym_width (cmp_symbol c) \<noteq> 0" "contiguous c"
    and relop: "cmp_relop c \<noteq> R_EQ" "cmp_relop c \<noteq> R_NE"
    and free: "cmp_symbol c \<notin> X"
  shows "\<exists>e. expr_simplify_relational c = Some e \<and> simplified_to X c e"
proof -
  let ?w = "sym_width (cmp_symbol c)" and ?v = "cmp_value c" and ?m = "cmp_mask c"
  let ?lt = "strict_lt (cmp_relop c)" and ?eq = "non_strict (cmp_relop c)"
  note b = wf_cmp_bits [OF wf(1,2)]
  obtain start n where r: "0 < n" "start + n \<le> ?w" "?m = push_bit start (mask n)"
    using wf(3) by (auto simp: contiguous_def)
  define end' where "end' = start + n"
  have w: "?w \<le> 1024" using b(3,5) by simp
  have rng: "bit ?m i \<longleftrightarrow> start \<le> i \<and> i < end'" for i
    unfolding r(3) end'_def using r(1,2) w by (auto simp: bit_simps)
  have range: "find_bitwise_range ?m ?w = (start, n)"
    by (rule find_bitwise_range_contiguous [OF r(1,2) w r(3)])
  have m0: "?m \<noteq> 0" using rng [of start] r(1) by (auto simp: sv_eq_iff end'_def)
  note eval = expr_simplify_relational_eval [OF range r(1), folded end'_def]
  have sat: "cmp_sat f lp c \<longleftrightarrow> (let x = f (cmp_field c) AND ?m in
      (if ?lt then x < ?v else ?v < x) \<or> (?eq \<and> x = ?v))" for f lp
    using relop unfolding cmp_sat_num [OF wf(1,2)]
    by (cases "cmp_relop c") (auto simp: Let_def strict_lt_def non_strict_def)
  show ?thesis
  proof (cases "word_scan ?v (\<not> ?lt) start end' = end'")
    case True
    have "bit ?v i = ?lt" if "start \<le> i" "i < end'" for i
      using that True scan_bits_props [of start end' "bit ?v" "\<not> ?lt"] r(1)
      by (auto simp: Let_def word_scan_def end'_def)
    then have v: "?v = (if ?lt then ?m else 0)"
      using b(2) rng by (auto simp: sv_eq_iff)
    have strict: "cmp_sat f lp c \<longleftrightarrow> ?eq \<or> f (cmp_field c) AND ?m \<noteq> ?v" for f lp
    proof -
      have "x < ?m \<longleftrightarrow> x \<noteq> ?m" if "x \<le> ?m" for x using that by (simp add: order.strict_iff_order)
      from this [OF word_and_le1] show ?thesis
        by (cases ?lt) (auto simp: sat v Let_def word_gt_0)
    qed
    show ?thesis
    proof (cases ?eq)
      case True
      then have "cmp_sat f lp c" for f lp by (simp add: strict)
      with True \<open>word_scan _ _ _ _ = _\<close> show ?thesis by (simp add: eval simplified_to_Boolean)
    next
      case False
      then have "cmp_sat f lp c \<longleftrightarrow> f (cmp_field c) AND ?m \<noteq> ?v" for f lp by (simp add: strict)
      with False \<open>word_scan _ _ _ _ = _\<close> show ?thesis
        using expr_simplify_ne_ok [OF wf(1,2) free] by (simp add: eval)
    qed
  next
    case False
    let ?rel = "map (rel_cmp c start) (filter (\<lambda>z. bit ?v z = ?lt) [start..<end'])"
    let ?cs = "(if ?eq then [c\<lparr>cmp_relop := R_EQ\<rparr>] else []) @ ?rel"
    have ex: "(\<exists>d \<in> set ?cs. cmp_sat f lp d) = cmp_sat f lp c" for f lp
      unfolding set_append bex_Un rel_cmps_sat [OF wf(1,2) rng] sat Let_def
      using eq_relop_cmp(2) [OF wf(1,2) m0, of f lp] by auto
    have ok: "eq_cmp X d \<and> cmp_symbol d = cmp_symbol c" if "d \<in> set ?cs" for d
    proof (cases "d \<in> set ?rel")
      case True
      show ?thesis using rel_cmps_ok [OF wf(1,2) free rng True] by simp
    next
      case False
      with that have "d = c\<lparr>cmp_relop := R_EQ\<rparr>" by (simp split: if_splits)
      then show ?thesis using eq_relop_cmp(1) [OF wf(1,2) m0 free] by simp
    qed
    show ?thesis
    proof (cases "or_all ?cs")
      case None
      then have "?cs = []" by (cases ?cs rule: or_all.cases) auto
      then have "\<not> cmp_sat f lp c" for f lp using ex [of f lp] by simp
      with None False show ?thesis by (simp add: eval simplified_to_Boolean)
    next
      case (Some e)
      have "simplified_to X c e" by (rule simplified_to_or_all [OF Some ok ex])
      with Some False show ?thesis by (simp add: eval)
    qed
  qed
qed

section \<open>Correctness of simplification\<close>

lemma expr_simplify_eq_ok:
  assumes wf: "wf_cmp c" "sym_width (cmp_symbol c) \<noteq> 0" "cmp_relop c = R_EQ"
    and whole: "whole_mask X c"
  shows "simplified_to X c (expr_simplify_eq c)"
proof (cases "cmp_mask c = 0")
  case True
  then have "cmp_value c = 0" using wf_cmp_bits(2) [OF wf(1,2)] by (auto simp: sv_eq_iff)
  then have "cmp_sat f lp c" for f lp using True wf(3) by (simp add: cmp_sat_num [OF wf(1,2)])
  with True show ?thesis by (simp add: expr_simplify_eq_def simplified_to_Boolean)
next
  case False
  with wf whole show ?thesis by (simp add: expr_simplify_eq_def simplified_to_def simple_def eq_cmp_def)
qed

lemma expr_simplify_cmp_ok:
  assumes "parsed_cmp X c"
  shows "\<exists>e. expr_simplify_cmp c = Some e \<and> simplified_to X c e"
proof (cases "sym_width (cmp_symbol c) = 0")
  case True
  with assms show ?thesis
    by (simp add: expr_simplify_cmp_def parsed_cmp_def simplified_to_def simple_def eq_cmp_def)
next
  case False
  with assms have wf: "wf_cmp c" and
    rel: "cmp_relop c \<noteq> R_EQ \<Longrightarrow> cmp_relop c \<noteq> R_NE \<Longrightarrow> contiguous c" and
    whole: "whole_mask X c" and free: "cmp_relop c \<noteq> R_EQ \<Longrightarrow> cmp_symbol c \<notin> X"
    by (auto simp: parsed_cmp_def)
  consider "cmp_relop c = R_EQ" | "cmp_relop c = R_NE" | "cmp_relop c \<noteq> R_EQ" "cmp_relop c \<noteq> R_NE"
    by blast
  then show ?thesis
  proof cases
    case 1
    with False show ?thesis by (simp add: expr_simplify_cmp_def expr_simplify_eq_ok [OF wf _ _ whole])
  next
    case 2
    have "cmp_sat f lp c \<longleftrightarrow> f (cmp_field c) AND cmp_mask c \<noteq> cmp_value c" for f lp
      by (simp add: cmp_sat_num [OF wf False] 2)
    with 2 False show ?thesis by (simp add: expr_simplify_cmp_def expr_simplify_ne_ok [OF wf _ free])
  next
    case 3
    with False expr_simplify_relational_ok [OF wf False rel [OF 3] 3 free [OF 3(1)]] show ?thesis
      by (simp add: expr_simplify_cmp_def)
  qed
qed

text \<open>
  \<open>simplified\<close>: the outcome of a pass over a whole expression, with the residence conditions still
  in place if \<open>q\<close>.
\<close>

definition simplified :: "expr_symbol set \<Rightarrow> bool \<Rightarrow> expr \<Rightarrow> bool" where
  "simplified X q e \<longleftrightarrow> simple q e \<and> (\<forall>d \<in> cmps_of e. eq_cmp X d)"

lemma simplified_Boolean [simp]: "simplified X q (Boolean b)"
  by (simp add: simplified_def simple_def)

lemma simple_mono: "simple False e \<Longrightarrow> simple q e"
  by (auto simp: simple_def tree_mono)

lemma simplified_insert_andor:
  assumes "simplified X q e" "ty = T_AND \<or> ty = T_OR" "x \<in> set (expr_insert_andor ty e)"
  shows "simplified X q x \<and> expr_type_of x \<noteq> ty"
  using assms simple_insert_andor [of q e ty x] cmps_insert_andor [OF assms(2), of e]
  by (auto simp: simplified_def simp del: cmps_insert_andor)

lemma simplified_fix_andor:
  assumes "ty = T_AND \<or> ty = T_OR" "\<And>e. e \<in> set es \<Longrightarrow> simplified X q e \<and> expr_type_of e \<noteq> ty"
  shows "simplified X q (expr_fix (expr_create_andor ty es))"
proof -
  have "simple q (expr_fix (expr_create_andor ty es))"
    using assms simple_expr_fix_andor [of ty es q]
    by (auto simp: expr_create_andor_def simplified_def)
  moreover have "eq_cmp X d" if "d \<in> cmps_of (expr_fix (expr_create_andor ty es))" for d
    using that cmps_expr_fix [of "expr_create_andor ty es"] assms(2) by (auto simp: simplified_def)
  ultimately show ?thesis by (simp add: simplified_def)
qed

lemma fix_And:
  "(\<And>e. e \<in> set es \<Longrightarrow> simplified X q e \<and> expr_type_of e \<noteq> T_AND) \<Longrightarrow> simplified X q (expr_fix (And es))"
  using simplified_fix_andor [of T_AND es X q] by (simp add: expr_create_andor_def del: expr_fix.simps)

lemma fix_Or:
  "(\<And>e. e \<in> set es \<Longrightarrow> simplified X q e \<and> expr_type_of e \<noteq> T_OR) \<Longrightarrow> simplified X q (expr_fix (Or es))"
  using simplified_fix_andor [of T_OR es X q] by (simp add: expr_create_andor_def del: expr_fix.simps)

lemma simplified_sub:
  "simplified X q (And es) \<Longrightarrow> e \<in> set es \<Longrightarrow> simplified X q e \<and> expr_type_of e \<noteq> T_AND"
  "simplified X q (Or es) \<Longrightarrow> e \<in> set es \<Longrightarrow> simplified X q e \<and> expr_type_of e \<noteq> T_OR"
  by (auto simp: simplified_def simple_def)

lemma simplified_expr_fix: "simplified X q e \<Longrightarrow> simplified X q (expr_fix e)"
  by (cases e) (auto simp del: expr_fix.simps(2,3) dest: simplified_sub intro!: fix_And fix_Or)

lemma expr_simplify_ok_aux:
  "(\<forall>c \<in> cmps_of e. parsed_cmp X c) \<Longrightarrow>
     \<exists>e'. expr_simplify e = Some e' \<and> simplified X True e' \<and>
          (\<forall>f lp r. ev (cmp_sat f lp) r e' = ev (cmp_sat f lp) r e)"
  "ty = T_AND \<or> ty = T_OR \<Longrightarrow> (\<forall>e \<in> set es. \<forall>c \<in> cmps_of e. parsed_cmp X c) \<Longrightarrow>
     \<exists>es'. simplify_subs ty es = Some es' \<and>
           (\<forall>e \<in> set es'. simplified X True e \<and> expr_type_of e \<noteq> ty) \<and>
           (\<forall>f lp r. ev_list ty (cmp_sat f lp) r es' = ev_list ty (cmp_sat f lp) r es)"
proof (induction e and ty es rule: expr_simplify_simplify_subs.induct)
  case (1 c)
  then have "parsed_cmp X c" by simp
  from expr_simplify_cmp_ok [OF this] show ?case
    by (auto simp: simplified_to_def simplified_def intro: simple_mono)
next
  case (2 es)
  then obtain es' where "simplify_subs T_AND es = Some es'"
    "\<forall>e \<in> set es'. simplified X True e \<and> expr_type_of e \<noteq> T_AND"
    "\<forall>f lp r. ev_list T_AND (cmp_sat f lp) r es' = ev_list T_AND (cmp_sat f lp) r es" by auto
  then show ?case
    by (auto simp: ev_expr_fix ev_And_list simp del: expr_fix.simps ev.simps intro!: fix_And)
next
  case (3 es)
  then obtain es' where "simplify_subs T_OR es = Some es'"
    "\<forall>e \<in> set es'. simplified X True e \<and> expr_type_of e \<noteq> T_OR"
    "\<forall>f lp r. ev_list T_OR (cmp_sat f lp) r es' = ev_list T_OR (cmp_sat f lp) r es" by auto
  then show ?case
    by (auto simp: ev_expr_fix ev_Or_list simp del: expr_fix.simps ev.simps intro!: fix_Or)
next
  case (7 ty sub es)
  obtain e' where e': "expr_simplify sub = Some e'" "simplified X True e'"
    "\<forall>f lp r. ev (cmp_sat f lp) r e' = ev (cmp_sat f lp) r sub" using 7 by auto
  obtain es' where es': "simplify_subs ty es = Some es'"
    "\<forall>e \<in> set es'. simplified X True e \<and> expr_type_of e \<noteq> ty"
    "\<forall>f lp r. ev_list ty (cmp_sat f lp) r es' = ev_list ty (cmp_sat f lp) r es" using 7 e'(1) by auto
  have "ev_list ty (cmp_sat f lp) r (expr_insert_andor ty e' @ es') =
      ev_list ty (cmp_sat f lp) r (sub # es)" for f lp r
    using 7(3) ev_insert_andor [OF 7(3), of "cmp_sat f lp" r e'] e'(3) es'(3) by auto
  moreover have "\<forall>x \<in> set (expr_insert_andor ty e' @ es'). simplified X True x \<and> expr_type_of x \<noteq> ty"
    using simplified_insert_andor [OF e'(2) 7(3)] es'(2) unfolding set_append ball_Un by blast
  ultimately show ?case using e'(1) es'(1) by simp
qed (auto simp: simplified_def simple_def)

lemmas expr_simplify_ok = expr_simplify_ok_aux(1)

text \<open>Rebuilding the list of a node from transformed subexpressions.\<close>

lemma simplified_insert_map:
  assumes "ty = T_AND \<or> ty = T_OR" "\<And>e. e \<in> set es \<Longrightarrow> simplified X q (g e)"
    and "x \<in> set (concat (map (\<lambda>e. expr_insert_andor ty (g e)) es))"
  shows "simplified X q x \<and> expr_type_of x \<noteq> ty"
proof -
  obtain e where "e \<in> set es" "x \<in> set (expr_insert_andor ty (g e))" using assms(3) by auto
  with assms(1,2) simplified_insert_andor show ?thesis by blast
qed

lemma ev_insert_map:
  assumes "ty = T_AND \<or> ty = T_OR"
  shows "ev_list ty s r (concat (map (\<lambda>e. expr_insert_andor ty (g e)) es)) = ev_list ty s r (map g es)"
  using assms by (induction es) (auto simp: sem_simps)

lemma expr_evaluate_condition_ok:
  "simplified X True e \<Longrightarrow> simplified X False (expr_evaluate_condition r e) \<and>
     (\<forall>s r'. ev s r' (expr_evaluate_condition r e) = ev s r e)"
proof (induction e)
  case (And es)
  have sub: "simplified X True e" if "e \<in> set es" for e
    using that And.prems simplified_sub by blast
  have "simplified X False (expr_evaluate_condition r (And es))"
    unfolding expr_evaluate_condition.simps
    by (rule fix_And, rule simplified_insert_map [where ty = T_AND])
      (use sub And.IH in \<open>auto intro: simplified_expr_fix\<close>)
  moreover have "ev s r' (expr_evaluate_condition r (And es)) = ev s r (And es)" for s r'
    unfolding expr_evaluate_condition.simps ev_expr_fix ev_And_list
    using sub And.IH by (subst ev_insert_map) (auto simp: ev_list_def ev_expr_fix)
  ultimately show ?case by blast
next
  case (Or es)
  have sub: "simplified X True e" if "e \<in> set es" for e
    using that Or.prems simplified_sub by blast
  have "simplified X False (expr_evaluate_condition r (Or es))"
    unfolding expr_evaluate_condition.simps
    by (rule fix_Or, rule simplified_insert_map [where ty = T_OR])
      (use sub Or.IH in \<open>auto intro: simplified_expr_fix\<close>)
  moreover have "ev s r' (expr_evaluate_condition r (Or es)) = ev s r (Or es)" for s r'
    unfolding expr_evaluate_condition.simps ev_expr_fix ev_Or_list
    using sub Or.IH by (subst ev_insert_map) (auto simp: ev_list_def ev_expr_fix)
  ultimately show ?case by blast
qed (auto simp: simplified_def simple_def expr_evaluate_condition_node_def)

lemma eq_cmp_has_field: "eq_cmp X c \<Longrightarrow> has_field c"
  by (simp add: eq_cmp_def wf_cmp_has_field)

lemma parsed_cmp_has_field: "parsed_cmp X c \<Longrightarrow> has_field c"
  by (simp add: parsed_cmp_def wf_cmp_has_field)

lemma simplified_honors: "simplified X q e \<Longrightarrow> expr_honors_invariants e"
  by (auto simp: simplified_def simple_def eq_cmp_def wf_cmp_def intro: tree_honors)

lemma simplified_evaluate:
  "simplified X q e \<Longrightarrow> expr_evaluate f lp e = Some (ev (cmp_sat f lp) (\<lambda>_. True) e)"
  by (rule expr_evaluate_ev) (auto simp: simplified_def eq_cmp_has_field)

text \<open>
  \<^bold>\<open>C27\<close>: \<open>expr_simplify\<close> is correct. On every expression whose comparisons are as the parser
  builds them it does not abort; the result honors the invariants of the tree, tests fields only for
  equality under a nonzero mask, and evaluates like the original expression on every packet. This
  covers the rewriting of inequalities and of the four order comparisons into masked equalities.
\<close>

theorem expr_simplify_correct:
  assumes "\<forall>c \<in> cmps_of e. parsed_cmp X c"
  shows "\<exists>e'. expr_simplify e = Some e' \<and> simplified X True e' \<and> expr_honors_invariants e' \<and>
    (\<forall>f lp. expr_evaluate f lp e' = expr_evaluate f lp e)"
proof -
  obtain e' where e': "expr_simplify e = Some e'" "simplified X True e'"
    "\<forall>f lp r. ev (cmp_sat f lp) r e' = ev (cmp_sat f lp) r e"
    using expr_simplify_ok [OF assms] by blast
  have "expr_evaluate f lp e = Some (ev (cmp_sat f lp) (\<lambda>_. True) e)" for f lp
    using assms by (intro expr_evaluate_ev) (auto intro: parsed_cmp_has_field)
  with e' show ?thesis by (simp add: simplified_evaluate simplified_honors)
qed

lemma ex_flags_parsed [simp]: "parsed_cmp {} (ex_flags_cmp R_GT 5 255)" "parsed_cmp {} (ex_flags_cmp R_EQ 7 15)"
  "parsed_cmp {} (ex_port_cmp p)"
proof -
  have "(255 :: mf_subvalue) = push_bit 0 (mask 8)" by (simp add: mask_eq_exp_minus_1)
  then have "contiguous (ex_flags_cmp R_GT 5 255)"
    unfolding contiguous_def by (intro exI [of _ 0] exI [of _ 8] conjI) simp_all
  then show "parsed_cmp {} (ex_flags_cmp R_GT 5 255)"
    by (simp add: parsed_cmp_def whole_mask_def wf_cmp_def cmp_honors_def take_bit_eq_mod)
qed (simp_all add: parsed_cmp_def whole_mask_def wf_cmp_def cmp_honors_def take_bit_eq_mod)

theorem expr_simplify_correct_witness:
  "\<exists>e'. expr_simplify (And [Cmp (ex_flags_cmp R_GT 5 255), Condition True ''lp1'']) = Some e' \<and>
     simplified {} True e' \<and> expr_honors_invariants e' \<and>
     (\<forall>f lp. expr_evaluate f lp e' =
        expr_evaluate f lp (And [Cmp (ex_flags_cmp R_GT 5 255), Condition True ''lp1'']))"
  by (rule expr_simplify_correct) (simp del: One_nat_def)

text \<open>
  \<^bold>\<open>C30\<close>: \<open>expr_evaluate_condition\<close> replaces every residence condition of a simplified expression by
  its value: the result has no conditions and no Boolean literals below the root, honors the
  invariants, and evaluates on every packet to the meaning of the expression for the given chassis.
\<close>

theorem expr_evaluate_condition_correct:
  assumes "simplified X True e"
  shows "simplified X False (expr_evaluate_condition r e) \<and>
    expr_honors_invariants (expr_evaluate_condition r e) \<and>
    expr_evaluate f lp (expr_evaluate_condition r e) = Some (ev (cmp_sat f lp) r e)"
  using expr_evaluate_condition_ok [OF assms, of r] by (auto simp: simplified_evaluate simplified_honors)

theorem expr_evaluate_condition_correct_witness:
  "let e = Or [And [Cmp (ex_flags_cmp R_EQ 7 15), Condition True ''lp1''], Cmp (ex_port_cmp ''lp2'')];
       r = (\<lambda>s. s = ''lp1'') in
   simplified {} True e \<and> simplified {} False (expr_evaluate_condition r e) \<and>
   expr_honors_invariants (expr_evaluate_condition r e) \<and>
   expr_evaluate (\<lambda>_. 0) (\<lambda>_. None) (expr_evaluate_condition r e) =
     Some (ev (cmp_sat (\<lambda>_. 0) (\<lambda>_. None)) r e)"
proof -
  have "simplified {} True (Or [And [Cmp (ex_flags_cmp R_EQ 7 15), Condition True ''lp1''],
      Cmp (ex_port_cmp ''lp2'')])"
    by (simp add: simplified_def simple_def eq_cmp_def whole_mask_def wf_cmp_def cmp_honors_def take_bit_eq_mod)
  with expr_evaluate_condition_correct [OF this, of "\<lambda>s. s = ''lp1''" "\<lambda>_. 0" "\<lambda>_. None"]
  show ?thesis unfolding Let_def by blast
qed

end
