(* ===== verification/Mf_Subvalue.thy ===== *)
theory Mf_Subvalue
  imports Expr_Simplify
begin

text \<open>
  Operations on pairs of a value and a mask: \<open>mf_subvalue_intersect\<close> of \<open>ovs/lib/meta-flow.c\<close>, and
  the bitmap functions (\<open>ovs/lib/bitmap.h\<close> and \<open>expr_bitmap_intersect_check\<close> of
  \<open>ovn/lib/expr.c\<close>) that compare two such pairs. The 16 members \<open>be64\<close> of a subvalue are the
  64-bit pieces of the word, here counted from its least significant end.

  What the later stages need of these operations is the interface \<open>match_algebra\<close>; its lemmas on
  lists of value/mask pairs carry the proofs about \<open>crush_and_numeric\<close>.
\<close>

section \<open>Definitions\<close>

definition be64 :: "mf_subvalue \<Rightarrow> nat \<Rightarrow> u64" where
  "be64 w i = ucast (drop_bit (64 * i) w)"

definition bitmap_n_longs :: "nat \<Rightarrow> nat" where
  "bitmap_n_longs n = (n + 63) div 64"

definition count_1bits :: "u64 \<Rightarrow> nat" where
  "count_1bits x = length (filter (bit x) [0..<64])"

definition bitmap_count1 :: "mf_subvalue \<Rightarrow> nat \<Rightarrow> nat" where
  "bitmap_count1 bitmap n = sum_list (map (\<lambda>i. count_1bits (be64 bitmap i)) [0..<bitmap_n_longs n])"

definition bitmap_is_superset :: "mf_subvalue \<Rightarrow> mf_subvalue \<Rightarrow> nat \<Rightarrow> bool" where
  "bitmap_is_superset super sub n =
     (\<forall>i < bitmap_n_longs n. be64 super i AND be64 sub i = be64 sub i)"

definition expr_bitmap_intersect_check ::
  "mf_subvalue \<Rightarrow> mf_subvalue \<Rightarrow> mf_subvalue \<Rightarrow> mf_subvalue \<Rightarrow> nat \<Rightarrow> bool" where
  "expr_bitmap_intersect_check a_value a_mask b_value b_mask bit_width =
     (\<forall>i < bitmap_n_longs bit_width.
        \<not> ((be64 a_value i XOR be64 b_value i) AND (be64 a_mask i AND be64 b_mask i)) \<noteq> 0)"

type_synonym value_mask = "mf_subvalue \<times> mf_subvalue"

text \<open>\<open>None\<close> is the result \<open>false\<close>, where the destination is not to be used.\<close>

fun mf_subvalue_intersect :: "value_mask \<Rightarrow> value_mask \<Rightarrow> value_mask option" where
  "mf_subvalue_intersect (a_value, a_mask) (b_value, b_mask) =
     (if \<exists>i < 16. (be64 a_value i XOR be64 b_value i) AND (be64 a_mask i AND be64 b_mask i) \<noteq> 0
      then None
      else Some (a_value OR b_value, a_mask OR b_mask))"

section \<open>Lemmas on bitmaps\<close>

lemma bit_be64 [bits_simps]: "bit (be64 w i) j \<longleftrightarrow> j < 64 \<and> bit w (64 * i + j)"
  by (simp add: be64_def bit_ucast_iff bit_drop_bit_eq)

lemma be64_all_bits:
  "(\<forall>i < n. \<forall>j. bit (be64 w i) j \<longrightarrow> P (64 * i + j)) \<longleftrightarrow> (\<forall>k < 64 * n. bit w k \<longrightarrow> P k)"
proof (intro iffI allI impI)
  fix k assume a: "\<forall>i < n. \<forall>j. bit (be64 w i) j \<longrightarrow> P (64 * i + j)" and k: "k < 64 * n" "bit w k"
  have "k div 64 < n" using k(1) by (simp add: div_less_iff_less_mult mult.commute)
  moreover have "bit (be64 w (k div 64)) (k mod 64)" using k(2) by (simp add: bit_be64)
  ultimately have "P (64 * (k div 64) + k mod 64)" using a by blast
  then show "P k" by simp
qed (auto simp: bit_be64)

lemma be64_zero_iff: "(\<forall>i < n. be64 w i = 0) \<longleftrightarrow> (\<forall>k < 64 * n. \<not> bit w k)"
proof -
  have "be64 w i = 0 \<longleftrightarrow> (\<forall>j. \<not> bit (be64 w i) j)" for i by (auto intro: bit_word_eqI)
  then show ?thesis using be64_all_bits [of n w "\<lambda>_. False"] by simp
qed

lemma be64_ops: "be64 a i AND be64 b i = be64 (a AND b) i" "be64 a i XOR be64 b i = be64 (a XOR b) i"
  by (rule bit_word_eqI; auto simp: bit_be64 bit_simps)+

lemma bitmap_n_longs_ge: "n \<le> 64 * bitmap_n_longs n"
  unfolding bitmap_n_longs_def by presburger

lemma bitmap_n_longs_round: "bitmap_n_longs (64 * bitmap_n_longs n) = bitmap_n_longs n"
  by (simp add: bitmap_n_longs_def)

lemma bitmap_is_superset_iff:
  assumes "\<And>i. bit sub i \<Longrightarrow> i < n"
  shows "bitmap_is_superset super sub n \<longleftrightarrow> (\<forall>i. bit sub i \<longrightarrow> bit super i)"
proof -
  have "bitmap_is_superset super sub n \<longleftrightarrow>
      (\<forall>i < bitmap_n_longs n. \<forall>j. bit (be64 sub i) j \<longrightarrow> bit super (64 * i + j))"
    unfolding bitmap_is_superset_def be64_ops by (auto simp: bit_eq_iff bit_be64 bit_simps)
  also have "\<dots> \<longleftrightarrow> (\<forall>k < 64 * bitmap_n_longs n. bit sub k \<longrightarrow> bit super k)"
    by (rule be64_all_bits)
  also have "\<dots> \<longleftrightarrow> (\<forall>i. bit sub i \<longrightarrow> bit super i)"
    using assms bitmap_n_longs_ge [of n] by (meson less_le_trans)
  finally show ?thesis .
qed

lemma intersect_check_iff:
  assumes "\<And>i. bit am i \<Longrightarrow> i < n"
  shows "expr_bitmap_intersect_check av am bv bm n \<longleftrightarrow>
    (\<forall>i. bit am i \<longrightarrow> bit bm i \<longrightarrow> bit av i = bit bv i)"
proof -
  have "expr_bitmap_intersect_check av am bv bm n \<longleftrightarrow>
      (\<forall>k < 64 * bitmap_n_longs n. \<not> bit ((av XOR bv) AND (am AND bm)) k)"
    unfolding expr_bitmap_intersect_check_def be64_ops not_not by (rule be64_zero_iff)
  also have "\<dots> \<longleftrightarrow> (\<forall>i. bit am i \<longrightarrow> bit bm i \<longrightarrow> bit av i = bit bv i)"
    using assms bitmap_n_longs_ge [of n] by (auto simp: bit_simps) (meson less_le_trans)+
  finally show ?thesis .
qed

lemma intersect_conflict_iff:
  "(\<exists>i < 16. (be64 av i XOR be64 bv i) AND (be64 am i AND be64 bm i) \<noteq> 0) \<longleftrightarrow>
     (\<exists>i. bit am i \<and> bit bm i \<and> bit av i \<noteq> bit bv i)"
proof -
  have "(\<forall>i < 16. (be64 av i XOR be64 bv i) AND (be64 am i AND be64 bm i) = 0) \<longleftrightarrow>
      (\<forall>k < 1024. \<not> bit ((av XOR bv) AND (am AND bm)) k)"
    unfolding be64_ops using be64_zero_iff [of 16] by simp
  then show ?thesis using sv_bit_len [of am] by (auto simp: bit_simps)
qed

section \<open>Matching a value under a mask\<close>

text \<open>\<open>vm_ok\<close>: a 1-bit in the value has a 1-bit in the mask. \<open>vm_holds x\<close>: the field value \<open>x\<close> matches.\<close>

definition vm_ok :: "value_mask \<Rightarrow> bool" where
  "vm_ok vm \<longleftrightarrow> (\<forall>i. bit (fst vm) i \<longrightarrow> bit (snd vm) i)"

definition vm_holds :: "mf_subvalue \<Rightarrow> value_mask \<Rightarrow> bool" where
  "vm_holds x vm \<longleftrightarrow> x AND snd vm = fst vm"

lemma vm_holds_bits:
  "vm_ok vm \<Longrightarrow> vm_holds x vm \<longleftrightarrow> (\<forall>i. bit (snd vm) i \<longrightarrow> bit x i = bit (fst vm) i)"
  by (auto simp: vm_ok_def vm_holds_def sv_eq_iff bit_simps)

lemma mf_subvalue_intersect_Some:
  assumes "mf_subvalue_intersect a b = Some c" "vm_ok a" "vm_ok b"
  shows "vm_ok c" "snd c = snd a OR snd b" "vm_holds x c \<longleftrightarrow> vm_holds x a \<and> vm_holds x b"
proof -
  have c: "c = (fst a OR fst b, snd a OR snd b)"
    and agree: "bit (snd a) i \<Longrightarrow> bit (snd b) i \<Longrightarrow> bit (fst a) i = bit (fst b) i" for i
    using assms(1) by (cases a; cases b; auto simp: intersect_conflict_iff split: if_splits)+
  show ok: "vm_ok c" using assms(2,3) by (auto simp: c vm_ok_def bit_simps)
  show "snd c = snd a OR snd b" by (simp add: c)
  have "bit (snd a) i \<Longrightarrow> bit (fst a OR fst b) i = bit (fst a) i"
    "bit (snd b) i \<Longrightarrow> bit (fst a OR fst b) i = bit (fst b) i" for i
    using agree [of i] assms(2,3) by (auto simp: vm_ok_def bit_or_iff)
  moreover have "fst c = fst a OR fst b" "bit (snd c) i \<longleftrightarrow> bit (snd a) i \<or> bit (snd b) i" for i
    by (simp_all add: c bit_or_iff)
  ultimately show "vm_holds x c \<longleftrightarrow> vm_holds x a \<and> vm_holds x b"
    unfolding vm_holds_bits [OF ok] vm_holds_bits [OF assms(2)] vm_holds_bits [OF assms(3)]
    by metis
qed

lemma mf_subvalue_intersect_None:
  assumes "mf_subvalue_intersect a b = None" "vm_ok a" "vm_ok b"
  shows "\<not> (vm_holds x a \<and> vm_holds x b)"
  using assms
  by (cases a; cases b) (auto simp: intersect_conflict_iff vm_holds_bits split: if_splits)

text \<open>
  The interface: a partial intersection of matches. \<open>meet_all\<close> and \<open>meet_product\<close> are the loops of
  \<open>crush_and_numeric\<close> over one list of matches, and over two.
\<close>

definition meet_all :: "('v \<Rightarrow> 'v \<Rightarrow> 'v option) \<Rightarrow> 'v \<Rightarrow> 'v list \<Rightarrow> 'v list" where
  "meet_all meet a bs = List.map_filter (meet a) bs"

definition meet_product :: "('v \<Rightarrow> 'v \<Rightarrow> 'v option) \<Rightarrow> 'v \<Rightarrow> 'v list \<Rightarrow> 'v list \<Rightarrow> 'v list" where
  "meet_product meet v as bs = concat (map (\<lambda>a. meet_all meet a bs) (meet_all meet v as))"

locale match_algebra =
  fixes meet :: "'v \<Rightarrow> 'v \<Rightarrow> 'v option"
    and ok :: "'v \<Rightarrow> bool"
    and holds :: "'x \<Rightarrow> 'v \<Rightarrow> bool"
  assumes meet_ok: "meet a b = Some c \<Longrightarrow> ok a \<Longrightarrow> ok b \<Longrightarrow> ok c"
    and meet_holds: "meet a b = Some c \<Longrightarrow> ok a \<Longrightarrow> ok b \<Longrightarrow> holds x c \<longleftrightarrow> holds x a \<and> holds x b"
    and meet_disjoint: "meet a b = None \<Longrightarrow> ok a \<Longrightarrow> ok b \<Longrightarrow> \<not> (holds x a \<and> holds x b)"
begin

lemma meet_all_iff: "c \<in> set (meet_all meet a bs) \<longleftrightarrow> (\<exists>b \<in> set bs. meet a b = Some c)"
  by (force simp: meet_all_def List.map_filter_def)

lemma meet_all_ok: "ok a \<Longrightarrow> \<forall>b \<in> set bs. ok b \<Longrightarrow> c \<in> set (meet_all meet a bs) \<Longrightarrow> ok c"
  by (auto simp: meet_all_iff intro: meet_ok)

lemma meet_all_holds:
  assumes "ok a" "\<forall>b \<in> set bs. ok b"
  shows "(\<exists>c \<in> set (meet_all meet a bs). holds x c) \<longleftrightarrow> holds x a \<and> (\<exists>b \<in> set bs. holds x b)"
proof -
  have "(\<exists>c. meet a b = Some c \<and> holds x c) \<longleftrightarrow> holds x a \<and> holds x b" if "b \<in> set bs" for b
    using that assms meet_holds [of a b] meet_disjoint [of a b x] by (cases "meet a b") auto
  then show ?thesis unfolding Bex_def meet_all_iff by blast
qed

lemma meet_product_holds:
  assumes "ok v" "\<forall>a \<in> set as. ok a" "\<forall>b \<in> set bs. ok b"
  shows "(\<exists>c \<in> set (meet_product meet v as bs). holds x c) \<longleftrightarrow>
    holds x v \<and> (\<exists>a \<in> set as. holds x a) \<and> (\<exists>b \<in> set bs. holds x b)"
proof -
  have "(\<exists>c \<in> set (meet_product meet v as bs). holds x c) \<longleftrightarrow>
      (\<exists>a \<in> set (meet_all meet v as). \<exists>c \<in> set (meet_all meet a bs). holds x c)"
    by (simp add: meet_product_def)
  also have "\<dots> \<longleftrightarrow> (\<exists>a \<in> set (meet_all meet v as). holds x a) \<and> (\<exists>b \<in> set bs. holds x b)"
    using meet_all_holds [OF _ assms(3)] meet_all_ok [OF assms(1,2)] by auto
  finally show ?thesis using meet_all_holds [OF assms(1,2)] by auto
qed

lemma meet_product_ok:
  assumes "ok v" "\<forall>a \<in> set as. ok a" "\<forall>b \<in> set bs. ok b" "c \<in> set (meet_product meet v as bs)"
  shows "ok c"
proof -
  obtain a where a: "a \<in> set (meet_all meet v as)" "c \<in> set (meet_all meet a bs)"
    using assms(4) by (auto simp: meet_product_def)
  show ?thesis by (rule meet_all_ok [OF meet_all_ok [OF assms(1,2) a(1)] assms(3) a(2)])
qed

end

interpretation sv: match_algebra mf_subvalue_intersect vm_ok vm_holds
  by unfold_locales
    (erule (2) mf_subvalue_intersect_Some(1) | erule (2) mf_subvalue_intersect_Some(3)
      | erule (2) mf_subvalue_intersect_None)+

end
