(* ===== verification/Crush_Supersets.thy ===== *)
theory Crush_Supersets
  imports Mf_Subvalue
begin

text \<open>
  \<open>crush_or_supersets\<close> of \<open>ovn/lib/expr.c\<close>: it takes a disjunction of comparisons on one
  field, sorts it, drops duplicates, and drops every comparison that is implied by another one. The
  C code works on three arrays: \<open>subs\<close> (the sorted comparisons, NULL once dropped), \<open>next\<close> (links that
  skip dropped entries) and \<open>mask_index\<close> (where the comparisons with at least a given number of mask
  bits start). The model keeps all three. The value \<open>SIZE_MAX\<close> in \<open>mask_index\<close> is \<open>None\<close>.

  The lemmas show that the loops end within the given fuel, that the assertion \<open>i != j\<close> and the array
  bounds hold, and that the disjunction keeps its meaning.
\<close>

section \<open>Definitions\<close>

definition compare_cmps_3way :: "expr_cmp \<Rightarrow> expr_cmp \<Rightarrow> int option" where
  "compare_cmps_3way a b =
     (if cmp_symbol a \<noteq> cmp_symbol b then None
      else if sym_width (cmp_symbol a) = 0 then Some (strcmp (cmp_string a) (cmp_string b))
      else if mask_n_bits a \<noteq> mask_n_bits b then Some (if mask_n_bits a < mask_n_bits b then -1 else 1)
      else
        let d = three_way (cmp_value a) (cmp_value b) in
        Some (if d = 0 then three_way (cmp_mask a) (cmp_mask b) else d))"

text \<open>
  The callback of \<open>qsort\<close>. A sorting algorithm has to compare elements across every partition of its
  input, so the assertion in \<open>compare_cmps_3way\<close> fails during the sort exactly if the symbols are not
  all the same; \<open>crush_or_supersets\<close> tests that first.
\<close>

definition compare_cmps_cb :: "expr_cmp \<Rightarrow> expr_cmp \<Rightarrow> int" where
  "compare_cmps_cb a b = (case compare_cmps_3way a b of None \<Rightarrow> 0 | Some d \<Rightarrow> d)"

record superset_st =
  subs :: "expr_cmp option list"
  nxt :: "nat list"
  mask_index :: "nat option list"

fun size_min :: "nat option \<Rightarrow> nat option \<Rightarrow> nat option" where
  "size_min None y = y"
| "size_min x None = x"
| "size_min (Some x) (Some y) = Some (min x y)"

definition size_gt :: "nat option \<Rightarrow> nat \<Rightarrow> bool" where
  "size_gt x n = (case x of None \<Rightarrow> True | Some k \<Rightarrow> k > n)"

text \<open>"Eliminate duplicates."\<close>

definition dedup_step :: "nat \<Rightarrow> superset_st \<times> nat \<Rightarrow> (superset_st \<times> nat) option" where
  "dedup_step i = (\<lambda>(st, last').
     case (subs st ! last', subs st ! i) of
       (Some a, Some b) \<Rightarrow>
         (case compare_cmps_3way a b of
            None \<Rightarrow> None
          | Some d \<Rightarrow>
             (if d \<noteq> 0 then Some (st\<lparr>nxt := (nxt st)[last' := i]\<rparr>, i)
              else Some (st\<lparr>subs := (subs st)[last' := Some (a\<lparr>as_name := None\<rparr>), i := None]\<rparr>, last')))
     | _ \<Rightarrow> None)"

text \<open>"Build a mask size index" and "Fill the gaps".\<close>

primrec index_loop :: "nat \<Rightarrow> nat \<Rightarrow> superset_st \<Rightarrow> superset_st option" where
  "index_loop 0 i st = None"
| "index_loop (Suc fuel) i st =
     (if \<not> i < length (subs st) then Some st
      else case subs st ! i of
        None \<Rightarrow> index_loop fuel (nxt st ! i) st
      | Some c \<Rightarrow>
          let n_bits' = mask_n_bits c in
          if n_bits' < length (mask_index st)
          then index_loop fuel (nxt st ! i)
            (st\<lparr>mask_index := (mask_index st)[n_bits' := size_min (mask_index st ! n_bits') (Some i)]\<rparr>)
          else None)"

definition fill_gaps :: "nat \<Rightarrow> superset_st \<Rightarrow> superset_st" where
  "fill_gaps max_n_bits st =
     st\<lparr>mask_index := fold (\<lambda>i mi. mi[i := size_min (mi ! i) (mi ! (i + 1))])
          (rev [1..<max_n_bits + 1]) (mask_index st)\<rparr>"

text \<open>"Find and eliminate supersets": the inner loop over \<open>j\<close> and the outer loop over \<open>i\<close>.\<close>

definition is_superset_of :: "nat \<Rightarrow> expr_cmp \<Rightarrow> expr_cmp \<Rightarrow> bool" where
  "is_superset_of bit_width a b =
     (expr_bitmap_intersect_check (cmp_value a) (cmp_mask a) (cmp_value b) (cmp_mask b) bit_width
      \<and> bitmap_is_superset (cmp_mask b) (cmp_mask a) bit_width)"

primrec superset_inner ::
  "nat \<Rightarrow> nat \<Rightarrow> nat \<Rightarrow> nat \<Rightarrow> nat \<Rightarrow> nat \<Rightarrow> superset_st \<Rightarrow> superset_st option" where
  "superset_inner 0 bit_width i n_bits' last' j st = None"
| "superset_inner (Suc fuel) bit_width i n_bits' last' j st =
     (if \<not> j < length (subs st) then Some st
      else if i = j then None
      else case subs st ! j of
        None \<Rightarrow> superset_inner fuel bit_width i n_bits' last' (nxt st ! j) st
      | Some b \<Rightarrow>
         (case subs st ! i of
            None \<Rightarrow> None
          | Some a \<Rightarrow>
             (if is_superset_of bit_width a b then
                let st1 = st\<lparr>subs := (subs st)[i := Some (a\<lparr>as_name := None\<rparr>), j := None]\<rparr>;
                    st2 = (if last' \<noteq> 0 then st1\<lparr>nxt := (nxt st)[last' := nxt st ! j]\<rparr>
                           else st1\<lparr>mask_index := (mask_index st)[n_bits' + 1 := Some (nxt st ! j)]\<rparr>)
                in superset_inner fuel bit_width i n_bits' last' (nxt st2 ! j) st2
              else superset_inner fuel bit_width i n_bits' j (nxt st ! j) st)))"

primrec superset_outer :: "nat \<Rightarrow> nat \<Rightarrow> nat \<Rightarrow> superset_st \<Rightarrow> superset_st option" where
  "superset_outer 0 bit_width i st = None"
| "superset_outer (Suc fuel) bit_width i st =
     (if \<not> i < length (subs st) then Some st
      else case subs st ! i of
        None \<Rightarrow> superset_outer fuel bit_width (nxt st ! i) st
      | Some a \<Rightarrow>
          let n_bits' = mask_n_bits a in
          if \<not> n_bits' + 1 < length (mask_index st) then None
          else if size_gt (mask_index st ! (n_bits' + 1)) (length (subs st)) then Some st
          else case mask_index st ! (n_bits' + 1) of
            None \<Rightarrow> None
          | Some j \<Rightarrow>
              do {
                st' \<leftarrow> superset_inner (Suc (length (subs st))) bit_width i n_bits' 0 j st;
                superset_outer fuel bit_width (nxt st' ! i) st'
              })"

definition superset_optimize :: "nat \<Rightarrow> nat \<Rightarrow> superset_st \<Rightarrow> superset_st option" where
  "superset_optimize bit_width max_n_bits st =
     do {
       st1 \<leftarrow> index_loop (Suc (length (subs st))) 0
                (st\<lparr>mask_index := replicate (max_n_bits + 2) None\<rparr>);
       superset_outer (Suc (length (subs st))) bit_width 0 (fill_gaps max_n_bits st1)
     }"

text \<open>The comparisons of a disjunction that has only comparisons below it.\<close>

fun cmp_list :: "expr list \<Rightarrow> expr_cmp list option" where
  "cmp_list [] = Some []"
| "cmp_list (Cmp c # es) = map_option (Cons c) (cmp_list es)"
| "cmp_list (e # es) = None"

definition crush_or_cmps :: "expr_symbol \<Rightarrow> expr_cmp list \<Rightarrow> expr_cmp list option" where
  "crush_or_cmps symbol cs =
     (let bit_width = 64 * ((sym_width symbol + 63) div 64);
          n = length cs;
          has_addr_set = (\<exists>c \<in> set cs. as_name c \<noteq> None);
          cs1 = (if sym_width symbol \<noteq> 0
                 then map (\<lambda>c. c\<lparr>mask_n_bits := bitmap_count1 (cmp_mask c) bit_width\<rparr>) cs else cs);
          max_n_bits = (if sym_width symbol \<noteq> 0 then foldr (max \<circ> mask_n_bits) cs1 0 else 0);
          st0 = \<lparr>subs = map Some (qsort_by compare_cmps_cb cs1), nxt = map Suc [0..<n],
                 mask_index = []\<rparr>
      in
      if \<exists>a \<in> set cs. \<exists>b \<in> set cs. cmp_symbol a \<noteq> cmp_symbol b then None
      else do {
        (st1, last') \<leftarrow> fold_opt dedup_step [1..<n] (st0, 0);
        st2 \<leftarrow> (if sym_width symbol = 0 \<or> sym_level symbol \<noteq> L_ORDINAL \<or> has_addr_set then Some st1
                else superset_optimize bit_width max_n_bits st1);
        Some (List.map_filter id (subs st2))
      })"

definition crush_or_supersets :: "expr \<Rightarrow> expr_symbol \<Rightarrow> expr option" where
  "crush_or_supersets expr symbol =
     (case expr of
        Or es \<Rightarrow>
          do {
            cs \<leftarrow> cmp_list es;
            cs' \<leftarrow> crush_or_cmps symbol cs;
            Some (Or (map Cmp cs'))
          }
      | _ \<Rightarrow> None)"

section \<open>The order of the comparisons\<close>

lemma compare_cmps_cb_le:
  assumes "cmp_symbol a = cmp_symbol b"
  shows "compare_cmps_cb a b \<le> 0 \<longleftrightarrow>
    (if sym_width (cmp_symbol a) = 0 then strcmp (cmp_string a) (cmp_string b) \<le> 0
     else mask_n_bits a < mask_n_bits b \<or> mask_n_bits a = mask_n_bits b \<and>
       (cmp_value a < cmp_value b \<or> cmp_value a = cmp_value b \<and> cmp_mask a \<le> cmp_mask b))"
  using assms by (auto simp: compare_cmps_cb_def compare_cmps_3way_def three_way_def Let_def)

interpretation cmps: qsort_order compare_cmps_cb "\<lambda>c. cmp_symbol c = sy" for X sy
proof
  fix a b c :: expr_cmp
  assume ab: "cmp_symbol a = sy" "cmp_symbol b = sy"
  show "compare_cmps_cb a b \<le> 0 \<or> compare_cmps_cb b a \<le> 0"
    using ab strcmp_total [of "cmp_string a" "cmp_string b"] by (simp add: compare_cmps_cb_le) force
  assume c: "cmp_symbol c = sy" and le: "compare_cmps_cb a b \<le> 0" "compare_cmps_cb b c \<le> 0"
  from le show "compare_cmps_cb a c \<le> 0"
    using ab c strcmp_trans [of "cmp_string a" "cmp_string b" "cmp_string c"]
    by (auto simp: compare_cmps_cb_le split: if_splits)
qed

lemma mask_n_bits_sorted:
  assumes "\<forall>c \<in> set cs. cmp_symbol c = sy" "sym_width sy \<noteq> 0"
    and "i < length cs" "k \<le> i"
  shows "mask_n_bits (qsort_by compare_cmps_cb cs ! k) \<le> mask_n_bits (qsort_by compare_cmps_cb cs ! i)"
proof (cases "k = i")
  case False
  let ?xs = "qsort_by compare_cmps_cb cs"
  have "compare_cmps_cb (?xs ! k) (?xs ! i) \<le> 0"
    using sorted_wrt_nth_less [OF cmps.qsort_by_sorted [OF assms(1)], of k i] assms(3,4) False by simp
  moreover have "cmp_symbol (?xs ! m) = sy" if "m < length cs" for m
    using that assms(1) nth_mem [of m ?xs] by simp
  ultimately show ?thesis using assms(2-4) by (auto simp: compare_cmps_cb_le)
qed simp

section \<open>Comparisons that differ in their address set only\<close>

definition same_cmp :: "expr_cmp \<Rightarrow> expr_cmp \<Rightarrow> bool" where
  "same_cmp c d \<longleftrightarrow> c = d \<or> c = d\<lparr>as_name := None\<rparr>"

definition covers :: "expr_cmp \<Rightarrow> expr_cmp \<Rightarrow> bool" where
  "covers c d \<longleftrightarrow> (\<forall>f lp. cmp_sat f lp d \<longrightarrow> cmp_sat f lp c)"

lemma cmp_sat_cong:
  assumes "cmp_symbol c = cmp_symbol d" "cmp_relop c = cmp_relop d" "cmp_string c = cmp_string d"
    "cmp_value c = cmp_value d" "cmp_mask c = cmp_mask d"
  shows "cmp_sat f lp c = cmp_sat f lp d"
  unfolding cmp_sat_def expr_evaluate_cmp_def assms by (rule refl)

lemma eq_cmp_cong:
  assumes "cmp_symbol c = cmp_symbol d" "cmp_relop c = cmp_relop d"
    "cmp_value c = cmp_value d" "cmp_mask c = cmp_mask d" "as_name c = None \<or> as_name c = as_name d"
  shows "eq_cmp X d \<Longrightarrow> eq_cmp X c"
  unfolding eq_cmp_def whole_mask_def wf_cmp_def cmp_honors_def assms(1-4) using assms(5) by auto

lemma same_cmp_fields:
  assumes "same_cmp c d"
  shows "cmp_symbol c = cmp_symbol d" "cmp_relop c = cmp_relop d" "cmp_string c = cmp_string d"
    "cmp_value c = cmp_value d" "cmp_mask c = cmp_mask d" "mask_n_bits c = mask_n_bits d"
    "as_name c = None \<or> as_name c = as_name d"
  using assms by (auto simp: same_cmp_def)

lemma same_cmp_as_name [simp]: "same_cmp c d \<Longrightarrow> same_cmp (c\<lparr>as_name := None\<rparr>) d"
  by (auto simp: same_cmp_def)

lemma same_cmp_refl [simp]: "same_cmp c c"
  by (simp add: same_cmp_def)

lemma same_cmp_sat: "same_cmp c d \<Longrightarrow> cmp_sat f lp c = cmp_sat f lp d"
  by (rule cmp_sat_cong) (auto dest: same_cmp_fields)

lemma same_cmp_covers: "same_cmp c d \<Longrightarrow> covers c d"
  by (simp add: covers_def same_cmp_sat)

lemma covers_trans: "covers a b \<Longrightarrow> covers b c \<Longrightarrow> covers a c"
  by (simp add: covers_def)

abbreviation cmp_vm :: "expr_cmp \<Rightarrow> value_mask" where
  "cmp_vm c \<equiv> (cmp_value c, cmp_mask c)"

lemma eq_cmp_vm:
  assumes "eq_cmp X c" "sym_width (cmp_symbol c) \<noteq> 0"
  shows "vm_ok (cmp_vm c)" "cmp_sat f lp c \<longleftrightarrow> vm_holds (f (cmp_field c)) (cmp_vm c)"
    "bit (cmp_mask c) i \<Longrightarrow> i < sym_width (cmp_symbol c)" "cmp_mask c \<noteq> 0"
  using assms wf_cmp_bits [of c]
  by (auto simp: eq_cmp_def vm_ok_def vm_holds_def cmp_sat_num)

lemma is_superset_of_covers:
  assumes "eq_cmp X a" "eq_cmp X b" "cmp_symbol a = cmp_symbol b" "sym_width (cmp_symbol b) \<noteq> 0"
    and "sym_width (cmp_symbol b) \<le> bw" "is_superset_of bw a b"
  shows "covers a b"
proof -
  have w: "sym_width (cmp_symbol a) \<noteq> 0" using assms(3,4) by simp
  have lt: "bit (cmp_mask a) i \<Longrightarrow> i < bw" for i
    using eq_cmp_vm(3) [OF assms(1) w] assms(3,5) by (metis order_less_le_trans)
  have fld: "cmp_field a = cmp_field b" using assms(3) by (simp add: cmp_field_def)
  have "\<forall>i. bit (cmp_mask a) i \<longrightarrow> bit (cmp_mask b) i \<and> bit (cmp_value a) i = bit (cmp_value b) i"
    using assms(6) lt by (simp add: is_superset_of_def bitmap_is_superset_iff intersect_check_iff)
  then show ?thesis
    by (auto simp: covers_def eq_cmp_vm(2) [OF assms(1) w] eq_cmp_vm(2) [OF assms(2,4)] fld
        vm_holds_bits [OF eq_cmp_vm(1) [OF assms(1) w]] vm_holds_bits [OF eq_cmp_vm(1) [OF assms(2,4)]])
qed

lemma compare_cmps_3way_None: "compare_cmps_3way a b = None \<longleftrightarrow> cmp_symbol a \<noteq> cmp_symbol b"
  by (simp add: compare_cmps_3way_def Let_def)

lemma compare_cmps_0_covers:
  assumes "compare_cmps_3way a b = Some 0" "cmp_relop a = cmp_relop b"
  shows "covers a b"
proof -
  have sym: "cmp_symbol a = cmp_symbol b" using assms(1) by (simp add: compare_cmps_3way_def split: if_splits)
  show ?thesis
  proof (cases "sym_width (cmp_symbol a) = 0")
    case True
    then have "cmp_string a = cmp_string b" using assms(1) sym by (simp add: compare_cmps_3way_def)
    then have "cmp_sat f lp a = cmp_sat f lp b" for f lp
      using True sym assms(2) by (simp add: cmp_sat_def expr_evaluate_cmp_def split: option.split)
    then show ?thesis by (simp add: covers_def)
  next
    case False
    then have "cmp_value a = cmp_value b" "cmp_mask a = cmp_mask b"
      using assms(1) sym by (auto simp: compare_cmps_3way_def three_way_def Let_def split: if_splits)
    then have "cmp_sat f lp a = cmp_sat f lp b" for f lp
      using False sym assms(2) by (simp add: cmp_sat_def expr_evaluate_cmp_def split: option.split)
    then show ?thesis by (simp add: covers_def)
  qed
qed

section \<open>The invariant of the arrays\<close>

text \<open>
  \<open>xs\<close> are the sorted comparisons. A link leads forward, an entry that is still there is the
  comparison of \<open>xs\<close> (but for its address set), and every comparison of \<open>xs\<close> is covered by an entry
  that is still there.
\<close>

definition sup_inv :: "expr_cmp list \<Rightarrow> superset_st \<Rightarrow> bool" where
  "sup_inv xs st \<longleftrightarrow>
     length (subs st) = length xs \<and> length (nxt st) = length xs \<and>
     (\<forall>k < length xs. k < nxt st ! k) \<and>
     (\<forall>k < length xs. \<forall>c. subs st ! k = Some c \<longrightarrow> same_cmp c (xs ! k)) \<and>
     (\<forall>k < length xs. \<exists>m < length xs. \<exists>c. subs st ! m = Some c \<and> covers c (xs ! k))"

definition idx_inv :: "expr_cmp list \<Rightarrow> superset_st \<Rightarrow> bool" where
  "idx_inv xs st \<longleftrightarrow>
     (\<forall>b < length (mask_index st). \<forall>m. mask_index st ! b = Some m \<longrightarrow>
        (\<forall>k < length xs. subs st ! k \<noteq> None \<and> mask_n_bits (xs ! k) < b \<longrightarrow> k < m))"

lemma sup_invD:
  assumes "sup_inv xs st"
  shows "length (subs st) = length xs" "length (nxt st) = length xs"
    "k < length xs \<Longrightarrow> k < nxt st ! k"
    "k < length xs \<Longrightarrow> subs st ! k = Some c \<Longrightarrow> same_cmp c (xs ! k)"
    "k < length xs \<Longrightarrow> \<exists>m < length xs. \<exists>c. subs st ! m = Some c \<and> covers c (xs ! k)"
  using assms by (auto simp: sup_inv_def)

lemma sup_inv_mask_index [simp]: "sup_inv xs (st\<lparr>mask_index := mi\<rparr>) = sup_inv xs st"
  by (simp add: sup_inv_def)

lemma sup_inv_next:
  "sup_inv xs st \<Longrightarrow> i < v \<Longrightarrow> sup_inv xs (st\<lparr>nxt := (nxt st)[i := v]\<rparr>)"
  by (auto simp: sup_inv_def nth_update_if)

lemma sup_inv_delete:
  assumes inv: "sup_inv xs st" and m: "m < length xs" "j < length xs" "m \<noteq> j" "subs st ! m = Some a"
    and cov: "covers a (xs ! j)"
  shows "sup_inv xs (st\<lparr>subs := (subs st)[m := Some (a\<lparr>as_name := None\<rparr>), j := None]\<rparr>)"
proof -
  let ?st = "st\<lparr>subs := (subs st)[m := Some (a\<lparr>as_name := None\<rparr>), j := None]\<rparr>"
  note I = sup_invD [OF inv]
  have a: "covers (a\<lparr>as_name := None\<rparr>) a" by (rule same_cmp_covers) simp
  have sm: "subs ?st ! m = Some (a\<lparr>as_name := None\<rparr>)" using m I(1) by simp
  have "\<exists>m' < length xs. \<exists>c. subs ?st ! m' = Some c \<and> covers c (xs ! k)" if k: "k < length xs" for k
  proof -
    obtain m' c where c: "m' < length xs" "subs st ! m' = Some c" "covers c (xs ! k)"
      using I(5) [OF k] by blast
    consider "m' = j" | "m' = m" | "m' \<noteq> j" "m' \<noteq> m" by blast
    then show ?thesis
    proof cases
      case 1
      then have "same_cmp c (xs ! j)" using I(4) c m(2) by simp
      then have "covers (xs ! j) (xs ! k)"
        using c(3) by (simp add: covers_def same_cmp_sat)
      then show ?thesis using sm m(1) a cov covers_trans by blast
    next
      case 2
      then show ?thesis using sm m c a covers_trans by force
    next
      case 3
      then show ?thesis using c by auto
    qed
  qed
  moreover have "same_cmp c (xs ! k)" if "k < length xs" "subs ?st ! k = Some c" for k c
    using that I(1) I(4) [OF m(1,4)] I(4) [OF that(1)] by (auto simp: nth_update_if split: if_splits)
  ultimately show ?thesis using I(1-3) by (simp add: sup_inv_def)
qed

subsection \<open>Duplicates\<close>

definition ok_cmps :: "expr_symbol set \<Rightarrow> expr_symbol \<Rightarrow> expr_cmp list \<Rightarrow> bool" where
  "ok_cmps X sy xs \<longleftrightarrow> (\<forall>c \<in> set xs. eq_cmp X c \<and> cmp_symbol c = sy)"

lemma ok_cmps_nth:
  "ok_cmps X sy xs \<Longrightarrow> k < length xs \<Longrightarrow> same_cmp c (xs ! k) \<Longrightarrow>
     eq_cmp X c \<and> cmp_symbol c = sy \<and> cmp_relop c = R_EQ"
  using nth_mem [of k xs] same_cmp_fields [of c "xs ! k"] eq_cmp_cong [of c "xs ! k" X]
  unfolding ok_cmps_def by (metis eq_cmp_def)

lemma dedup_loop_ok:
  assumes ok: "ok_cmps X sy xs" and xs: "xs \<noteq> []"
  shows "\<exists>st last'. fold_opt dedup_step [1..<length xs]
      (\<lparr>subs = map Some xs, nxt = map Suc [0..<length xs], mask_index = []\<rparr>, 0) = Some (st, last') \<and>
    sup_inv xs st"
proof -
  let ?P = "\<lambda>i (st, last'). sup_inv xs st \<and> last' < i \<and> subs st ! last' \<noteq> None \<and>
    (\<forall>k. i \<le> k \<and> k < length xs \<longrightarrow> subs st ! k = Some (xs ! k))"
  have init: "sup_inv xs \<lparr>subs = map Some xs, nxt = map Suc [0..<length xs], mask_index = []\<rparr>"
    by (auto simp: sup_inv_def intro!: exI same_cmp_covers)
  have step: "\<exists>s'. dedup_step i s = Some s' \<and> ?P (Suc i) s'"
    if i: "1 \<le> i" "i < length xs" and P: "?P i s" for i s
  proof -
    obtain st l where s: "s = (st, l)" by (cases s)
    obtain a where I: "sup_inv xs st" "l < i" "subs st ! l = Some a"
      and rest: "\<And>k. i \<le> k \<Longrightarrow> k < length xs \<Longrightarrow> subs st ! k = Some (xs ! k)"
      using P by (auto simp: s)
    have l: "l < length xs" "l \<noteq> i" using I(2) i(2) by auto
    have a: "eq_cmp X a \<and> cmp_symbol a = sy \<and> cmp_relop a = R_EQ"
      by (rule ok_cmps_nth [OF ok l(1) sup_invD(4) [OF I(1) l(1) I(3)]])
    have b: "eq_cmp X (xs ! i) \<and> cmp_symbol (xs ! i) = sy \<and> cmp_relop (xs ! i) = R_EQ"
      by (rule ok_cmps_nth [OF ok i(2) same_cmp_refl])
    obtain d where d: "compare_cmps_3way a (xs ! i) = Some d"
      using a b compare_cmps_3way_None [of a "xs ! i"] by auto
    show ?thesis
    proof (cases "d = 0")
      case False
      then show ?thesis
        using I d i rest sup_inv_next [OF I(1,2)] by (simp add: s dedup_step_def)
    next
      case True
      with d a b have "covers a (xs ! i)" by (simp add: compare_cmps_0_covers)
      from sup_inv_delete [OF I(1) l(1) i(2) l(2) I(3) this]
      show ?thesis using I d i rest l True sup_invD(1) [OF I(1)] by (simp add: s dedup_step_def)
    qed
  qed
  have "\<exists>s'. fold_opt dedup_step [1..<length xs]
      (\<lparr>subs = map Some xs, nxt = map Suc [0..<length xs], mask_index = []\<rparr>, 0) = Some s' \<and> ?P (length xs) s'"
    by (rule fold_opt_upt_inv) (use init xs step in \<open>auto simp: Suc_le_eq\<close>)
  then show ?thesis by auto
qed

subsection \<open>The index\<close>

definition mi_ok :: "expr_cmp list \<Rightarrow> nat option list \<Rightarrow> bool" where
  "mi_ok xs mi \<longleftrightarrow> (\<forall>b < length mi. \<forall>m. mi ! b = Some m \<longrightarrow> m < length xs \<and> b \<le> mask_n_bits (xs ! m))"

lemma size_min_cases: "size_min x y = x \<or> size_min x y = y"
  by (cases x; cases y) (auto simp: min_def)

lemma mi_ok_replicate: "mi_ok xs (replicate n None)"
  by (simp add: mi_ok_def)

lemma index_loop_ok:
  assumes "sup_inv xs st" "mi_ok xs (mask_index st)" "length xs - i < fuel"
    and "\<And>k. k < length xs \<Longrightarrow> mask_n_bits (xs ! k) < length (mask_index st)"
  shows "\<exists>st'. index_loop fuel i st = Some st' \<and> sup_inv xs st' \<and> mi_ok xs (mask_index st') \<and>
    length (mask_index st') = length (mask_index st)"
  using assms
proof (induction fuel arbitrary: i st)
  case 0
  then show ?case by simp
next
  case (Suc fuel)
  note I = sup_invD [OF Suc.prems(1)]
  show ?case
  proof (cases "i < length xs")
    case i: True
    have nx: "length xs - nxt st ! i < fuel" using Suc.prems(3) I(3) [OF i] i by linarith
    show ?thesis
    proof (cases "subs st ! i")
      case None
      with i I(1) Suc.IH [OF Suc.prems(1,2) nx Suc.prems(4)] show ?thesis by simp
    next
      case (Some c)
      let ?nb = "mask_n_bits c"
      let ?st = "st\<lparr>mask_index := (mask_index st)[?nb := size_min (mask_index st ! ?nb) (Some i)]\<rparr>"
      have nb: "?nb = mask_n_bits (xs ! i)" using I(4) [OF i Some] by (rule same_cmp_fields)
      have "mi_ok xs (mask_index ?st)"
        using Suc.prems(2) i nb size_min_cases [of "mask_index st ! ?nb" "Some i"]
        by (auto simp: mi_ok_def nth_update_if)
      then have "\<exists>st'. index_loop fuel (nxt st ! i) ?st = Some st' \<and> sup_inv xs st' \<and>
          mi_ok xs (mask_index st') \<and> length (mask_index st') = length (mask_index ?st)"
        by (intro Suc.IH) (use Suc.prems nx in auto)
      with i I(1) Some nb Suc.prems(4) [OF i] show ?thesis by (simp add: Let_def)
    qed
  qed (use Suc.prems I(1) in auto)
qed

lemma mi_ok_fill:
  assumes "mi_ok xs mi" "\<forall>i \<in> set is. i + 1 < length mi"
  shows "mi_ok xs (fold (\<lambda>i mi. mi[i := size_min (mi ! i) (mi ! (i + 1))]) is mi) \<and>
    length (fold (\<lambda>i mi. mi[i := size_min (mi ! i) (mi ! (i + 1))]) is mi) = length mi"
  using assms
proof (induction "is" arbitrary: mi)
  case (Cons i "is")
  let ?mi = "mi[i := size_min (mi ! i) (mi ! (i + 1))]"
  have "mi_ok xs ?mi"
    using Cons.prems size_min_cases [of "mi ! i" "mi ! (i + 1)"]
    by (fastforce simp: mi_ok_def nth_update_if)
  with Cons.IH [of ?mi] Cons.prems(2) show ?case by simp
qed simp

lemma mi_ok_idx_inv:
  assumes "mi_ok xs (mask_index st)"
    and sorted: "\<And>i k. i < length xs \<Longrightarrow> k \<le> i \<Longrightarrow> mask_n_bits (xs ! k) \<le> mask_n_bits (xs ! i)"
  shows "idx_inv xs st"
  unfolding idx_inv_def
proof (intro allI impI)
  fix b m k
  assume *: "b < length (mask_index st)" "mask_index st ! b = Some m" "k < length xs"
    "subs st ! k \<noteq> None \<and> mask_n_bits (xs ! k) < b"
  then have "b \<le> mask_n_bits (xs ! m)" using assms(1) by (auto simp: mi_ok_def)
  with * sorted [of k m] show "k < m" by (cases "m \<le> k") auto
qed

subsection \<open>Supersets\<close>

lemma idx_inv_delete:
  "idx_inv xs st \<Longrightarrow> length (subs st) = length xs \<Longrightarrow> i < length xs \<Longrightarrow> subs st ! i \<noteq> None \<Longrightarrow>
     idx_inv xs (st\<lparr>subs := (subs st)[i := Some a, j := None]\<rparr>)"
  by (auto simp: idx_inv_def nth_update_if split: if_splits)

lemma idx_inv_next [simp]: "idx_inv xs (st\<lparr>nxt := v\<rparr>) = idx_inv xs st"
  by (simp add: idx_inv_def)

lemma idx_inv_update:
  "idx_inv xs st \<Longrightarrow> (\<And>k. k < length xs \<Longrightarrow> subs st ! k \<noteq> None \<Longrightarrow> mask_n_bits (xs ! k) < b \<Longrightarrow> k < m) \<Longrightarrow>
     idx_inv xs (st\<lparr>mask_index := (mask_index st)[b := Some m]\<rparr>)"
  by (auto simp: idx_inv_def nth_update_if)

lemma superset_inner_ok:
  assumes ok: "ok_cmps X sy xs" "sym_width sy \<noteq> 0" "sym_width sy \<le> bw"
    and "sup_inv xs st" "idx_inv xs st" "length xs - j < fuel"
    and i: "i < length xs" "subs st ! i \<noteq> None" "mask_n_bits (xs ! i) = nb"
    and j: "\<And>k. k < length xs \<Longrightarrow> subs st ! k \<noteq> None \<Longrightarrow> mask_n_bits (xs ! k) < nb + 1 \<Longrightarrow> k < j"
    and l: "l = 0 \<or> l < j"
  shows "\<exists>st'. superset_inner fuel bw i nb l j st = Some st' \<and> sup_inv xs st' \<and> idx_inv xs st' \<and>
    length (mask_index st') = length (mask_index st)"
  using assms(4-)
proof (induction fuel arbitrary: l j st)
  case 0
  then show ?case by simp
next
  case (Suc fuel)
  note I = sup_invD [OF Suc.prems(1)]
  show ?case
  proof (cases "j < length xs")
    case j: True
    have ij: "i < j" using Suc.prems(7) [OF i(1)] Suc.prems(5,6) by simp
    have nj: "j < nxt st ! j" "length xs - nxt st ! j < fuel"
      using I(3) [OF j] Suc.prems(3) j by linarith+
    obtain a where a: "subs st ! i = Some a" using Suc.prems(5) by auto
    show ?thesis
    proof (cases "subs st ! j")
      case None
      have "\<exists>st'. superset_inner fuel bw i nb l (nxt st ! j) st = Some st' \<and> sup_inv xs st' \<and>
          idx_inv xs st' \<and> length (mask_index st') = length (mask_index st)"
        by (rule Suc.IH) (use Suc.prems nj in \<open>auto intro: less_trans\<close>)
      with None j ij I(1) show ?thesis by simp
    next
      case (Some b)
      show ?thesis
      proof (cases "is_superset_of bw a b")
        case False
        have "\<exists>st'. superset_inner fuel bw i nb j (nxt st ! j) st = Some st' \<and> sup_inv xs st' \<and>
            idx_inv xs st' \<and> length (mask_index st') = length (mask_index st)"
          by (rule Suc.IH) (use Suc.prems nj in \<open>auto intro: less_trans\<close>)
        with False Some a j ij I(1) show ?thesis by simp
      next
        case True
        let ?st1 = "st\<lparr>subs := (subs st)[i := Some (a\<lparr>as_name := None\<rparr>), j := None]\<rparr>"
        let ?st2 = "if l \<noteq> 0 then ?st1\<lparr>nxt := (nxt st)[l := nxt st ! j]\<rparr>
          else ?st1\<lparr>mask_index := (mask_index st)[nb + 1 := Some (nxt st ! j)]\<rparr>"
        have "covers a b"
          using ok_cmps_nth [OF ok(1) i(1) I(4) [OF i(1) a]] ok_cmps_nth [OF ok(1) j I(4) [OF j Some]] True ok
          by (intro is_superset_of_covers [of X a b bw]) auto
        then have "covers a (xs ! j)" using I(4) [OF j Some] by (simp add: covers_def same_cmp_sat)
        then have s1: "sup_inv xs ?st1" using sup_inv_delete [OF Suc.prems(1) i(1) j _ a] ij by simp
        have keep: "subs st ! k \<noteq> None" if "subs ?st1 ! k \<noteq> None" "k < length xs" for k
          using that a I(1) by (auto simp: nth_update_if split: if_splits)
        have d1: "idx_inv xs ?st1" using idx_inv_delete [OF Suc.prems(2) I(1) i(1)] a by simp
        have s2: "sup_inv xs ?st2" using s1 sup_inv_next [OF s1, of l "nxt st ! j"] Suc.prems(8) nj(1) by auto
        have d2: "idx_inv xs ?st2"
          using d1 idx_inv_update [OF d1, of "nb + 1" "nxt st ! j"] keep Suc.prems(7) nj(1)
          by (auto intro: less_trans)
        have sub2: "subs ?st2 = subs ?st1" "nxt ?st2 ! j = nxt st ! j"
          "length (mask_index ?st2) = length (mask_index st)" using Suc.prems(8) by auto
        have "\<exists>st'. superset_inner fuel bw i nb l (nxt ?st2 ! j) ?st2 = Some st' \<and> sup_inv xs st' \<and>
            idx_inv xs st' \<and> length (mask_index st') = length (mask_index ?st2)"
        proof (rule Suc.IH [OF s2 d2])
          show "subs ?st2 ! i \<noteq> None" using sub2(1) ij i(1) I(1) by simp
          show "k < nxt ?st2 ! j" if "k < length xs" "subs ?st2 ! k \<noteq> None" "mask_n_bits (xs ! k) < nb + 1" for k
            using that sub2 keep [of k] Suc.prems(7) [of k] nj(1) by auto
        qed (use nj sub2 i Suc.prems(8) in auto)
        with True Some a j ij I(1) sub2(3) show ?thesis by (simp add: Let_def)
      qed
    qed
  qed (use Suc.prems I(1) in auto)
qed

lemma superset_outer_ok:
  assumes ok: "ok_cmps X sy xs" "sym_width sy \<noteq> 0" "sym_width sy \<le> bw"
    and "sup_inv xs st" "idx_inv xs st" "length xs - i < fuel"
    and "\<And>k. k < length xs \<Longrightarrow> mask_n_bits (xs ! k) + 1 < length (mask_index st)"
  shows "\<exists>st'. superset_outer fuel bw i st = Some st' \<and> sup_inv xs st'"
  using assms(4-)
proof (induction fuel arbitrary: i st)
  case 0
  then show ?case by simp
next
  case (Suc fuel)
  note I = sup_invD [OF Suc.prems(1)]
  show ?case
  proof (cases "i < length xs")
    case i: True
    show ?thesis
    proof (cases "subs st ! i")
      case None
      have "length xs - nxt st ! i < fuel" using Suc.prems(3) I(3) [OF i] i by linarith
      with Suc.IH [OF Suc.prems(1,2) _ Suc.prems(4)] None i I(1) show ?thesis by simp
    next
      case (Some a)
      have nb: "mask_n_bits a = mask_n_bits (xs ! i)" by (rule same_cmp_fields(6) [OF I(4) [OF i Some]])
      have len: "mask_n_bits a + 1 < length (mask_index st)" using Suc.prems(4) [OF i] nb by simp
      show ?thesis
      proof (cases "size_gt (mask_index st ! (mask_n_bits a + 1)) (length xs)")
        case True
        with Some i I(1) len Suc.prems(1) show ?thesis by (simp add: Let_def)
      next
        case False
        then obtain j where j: "mask_index st ! (mask_n_bits a + 1) = Some j"
          by (auto simp: size_gt_def split: option.splits)
        have "\<exists>st'. superset_inner (Suc (length xs)) bw i (mask_n_bits a) 0 j st = Some st' \<and>
            sup_inv xs st' \<and> idx_inv xs st' \<and> length (mask_index st') = length (mask_index st)"
          by (rule superset_inner_ok [OF ok Suc.prems(1,2)])
            (use i Some nb len j Suc.prems(2) in \<open>auto simp: idx_inv_def\<close>)
        then obtain st' where st': "superset_inner (Suc (length xs)) bw i (mask_n_bits a) 0 j st = Some st'"
          "sup_inv xs st'" "idx_inv xs st'" "length (mask_index st') = length (mask_index st)" by blast
        have "length xs - nxt st' ! i < fuel"
          using Suc.prems(3) sup_invD(3) [OF st'(2) i] i by linarith
        with Suc.IH [OF st'(2,3)] Suc.prems(4) st'(4)
        have "\<exists>s. superset_outer fuel bw (nxt st' ! i) st' = Some s \<and> sup_inv xs s" by simp
        then show ?thesis using False Some i I(1) len j st'(1) by (simp add: Let_def)
      qed
    qed
  qed (use Suc.prems I(1) in auto)
qed

lemma superset_optimize_ok:
  assumes ok: "ok_cmps X sy xs" "sym_width sy \<noteq> 0" "sym_width sy \<le> bw" and inv: "sup_inv xs st"
    and sorted: "\<And>i k. i < length xs \<Longrightarrow> k \<le> i \<Longrightarrow> mask_n_bits (xs ! k) \<le> mask_n_bits (xs ! i)"
    and max: "\<And>k. k < length xs \<Longrightarrow> mask_n_bits (xs ! k) \<le> mx"
  shows "\<exists>st'. superset_optimize bw mx st = Some st' \<and> sup_inv xs st'"
proof -
  let ?st0 = "st\<lparr>mask_index := replicate (mx + 2) None\<rparr>"
  have "\<exists>st'. index_loop (Suc (length xs)) 0 ?st0 = Some st' \<and> sup_inv xs st' \<and>
      mi_ok xs (mask_index st') \<and> length (mask_index st') = length (mask_index ?st0)"
    by (rule index_loop_ok)
      (use inv max mi_ok_replicate in \<open>auto simp: less_Suc_eq_le le_SucI simp del: replicate.simps\<close>)
  then obtain st1 where st1: "index_loop (Suc (length xs)) 0 ?st0 = Some st1" "sup_inv xs st1"
    "mi_ok xs (mask_index st1)" "length (mask_index st1) = mx + 2" by auto
  have fill: "mi_ok xs (mask_index (fill_gaps mx st1))" "length (mask_index (fill_gaps mx st1)) = mx + 2"
    "sup_inv xs (fill_gaps mx st1)"
    using mi_ok_fill [OF st1(3), of "rev [1..<mx + 1]"] st1(2,4) by (auto simp: fill_gaps_def)
  have "\<exists>st'. superset_outer (Suc (length xs)) bw 0 (fill_gaps mx st1) = Some st' \<and> sup_inv xs st'"
    by (rule superset_outer_ok [OF ok fill(3) mi_ok_idx_inv [OF fill(1) sorted]])
      (use max fill(2) in \<open>auto simp: less_Suc_eq_le\<close>)
  then show ?thesis
    using st1(1) sup_invD(1) [OF inv] by (simp add: superset_optimize_def)
qed

section \<open>Correctness\<close>

lemma set_map_filter_id: "set (List.map_filter id xs) = {c. Some c \<in> set xs}"
  by (force simp: List.map_filter_def)

lemma foldr_max_ge: "c \<in> set cs \<Longrightarrow> g c \<le> foldr (max \<circ> g) cs (0 :: nat)"
  by (induction cs) (auto simp: le_max_iff_disj)

lemma sup_inv_result:
  assumes "sup_inv xs st" "ok_cmps X sy xs" "xs \<noteq> []"
  defines "cs \<equiv> List.map_filter id (subs st)"
  shows "ok_cmps X sy cs" "cs \<noteq> []" "(\<exists>c \<in> set cs. cmp_sat f lp c) \<longleftrightarrow> (\<exists>c \<in> set xs. cmp_sat f lp c)"
proof -
  note I = sup_invD [OF assms(1)]
  have mem: "c \<in> set cs \<longleftrightarrow> (\<exists>k < length xs. subs st ! k = Some c)" for c
    using I(1) by (auto simp: cs_def set_map_filter_id in_set_conv_nth)
  show "ok_cmps X sy cs"
    using mem I(4) ok_cmps_nth [OF assms(2)] unfolding ok_cmps_def by blast
  have "0 < length xs" using assms(3) by simp
  then obtain c where "c \<in> set cs" using I(5) mem by blast
  then show "cs \<noteq> []" by auto
  show "(\<exists>c \<in> set cs. cmp_sat f lp c) \<longleftrightarrow> (\<exists>c \<in> set xs. cmp_sat f lp c)"
  proof
    assume "\<exists>c \<in> set cs. cmp_sat f lp c"
    then obtain c k where "k < length xs" "subs st ! k = Some c" "cmp_sat f lp c" using mem by blast
    then show "\<exists>c \<in> set xs. cmp_sat f lp c" using I(4) same_cmp_sat by (metis nth_mem)
  next
    assume "\<exists>c \<in> set xs. cmp_sat f lp c"
    then obtain k where "k < length xs" "cmp_sat f lp (xs ! k)" by (auto simp: in_set_conv_nth)
    then show "\<exists>c \<in> set cs. cmp_sat f lp c" using I(5) mem unfolding covers_def by blast
  qed
qed

lemma crush_or_cmps_ok:
  assumes ok: "ok_cmps X sy cs" and ne: "cs \<noteq> []"
  shows "\<exists>cs'. crush_or_cmps sy cs = Some cs' \<and> ok_cmps X sy cs' \<and> cs' \<noteq> [] \<and>
    (\<forall>f lp. (\<exists>c \<in> set cs'. cmp_sat f lp c) \<longleftrightarrow> (\<exists>c \<in> set cs. cmp_sat f lp c))"
proof -
  let ?w = "sym_width sy"
  let ?bw = "64 * ((?w + 63) div 64)"
  let ?cnt = "\<lambda>c. c\<lparr>mask_n_bits := bitmap_count1 (cmp_mask c) ?bw\<rparr>"
  define cs1 where "cs1 = (if ?w \<noteq> 0 then map ?cnt cs else cs)"
  define xs where "xs = qsort_by compare_cmps_cb cs1"
  have cnt: "cmp_sat f lp (?cnt c) = cmp_sat f lp c" "eq_cmp X (?cnt c) = eq_cmp X c" for f lp c
    by (rule cmp_sat_cong; simp) (rule iffI; erule eq_cmp_cong [rotated 5]; simp)
  have len: "length xs = length cs" by (simp add: xs_def cs1_def)
  have "xs \<noteq> []" using len ne by (cases xs) auto
  then have xs: "set xs = set cs1" "length xs = length cs" "xs \<noteq> []"
    using len by (auto simp: xs_def)
  have ok1: "ok_cmps X sy xs" using ok cnt(2) by (auto simp: ok_cmps_def xs cs1_def)
  have sat1: "(\<exists>c \<in> set xs. cmp_sat f lp c) \<longleftrightarrow> (\<exists>c \<in> set cs. cmp_sat f lp c)" for f lp
    by (simp add: xs cs1_def cnt)
  have sym: "\<not> (\<exists>a \<in> set cs. \<exists>b \<in> set cs. cmp_symbol a \<noteq> cmp_symbol b)"
    using ok by (auto simp: ok_cmps_def)
  obtain st1 l where st1: "fold_opt dedup_step [1..<length xs]
      (\<lparr>subs = map Some xs, nxt = map Suc [0..<length xs], mask_index = []\<rparr>, 0) = Some (st1, l)" "sup_inv xs st1"
    using dedup_loop_ok [OF ok1 xs(3)] by blast
  define stop where "stop \<longleftrightarrow> ?w = 0 \<or> sym_level sy \<noteq> L_ORDINAL \<or> (\<exists>c \<in> set cs. as_name c \<noteq> None)"
  define mx where "mx = (if ?w \<noteq> 0 then foldr (max \<circ> mask_n_bits) cs1 0 else 0)"
  have "\<exists>st2. (if stop then Some st1 else superset_optimize ?bw mx st1) = Some st2 \<and> sup_inv xs st2"
  proof (cases stop)
    case False
    then have w: "?w \<noteq> 0" by (simp add: stop_def)
    have "\<exists>st'. superset_optimize ?bw mx st1 = Some st' \<and> sup_inv xs st'"
    proof (rule superset_optimize_ok [OF ok1 w _ st1(2)])
      show "?w \<le> ?bw" by presburger
      show "mask_n_bits (xs ! k) \<le> mask_n_bits (xs ! i)" if "i < length xs" "k \<le> i" for i k
        using mask_n_bits_sorted [of cs1 sy i k] that ok1 w xs unfolding xs_def ok_cmps_def by simp
      show "mask_n_bits (xs ! k) \<le> mx" if "k < length xs" for k
        using foldr_max_ge [of "xs ! k" cs1 mask_n_bits] nth_mem [OF that] w xs(1) by (simp add: mx_def)
    qed
    with False show ?thesis by simp
  qed (use st1 in simp)
  then obtain st2 where st2: "(if stop then Some st1 else superset_optimize ?bw mx st1) = Some st2"
    "sup_inv xs st2" by blast
  have "crush_or_cmps sy cs = Some (List.map_filter id (subs st2))"
    unfolding crush_or_cmps_def Let_def cs1_def [symmetric] xs_def [symmetric] mx_def [symmetric]
      stop_def [symmetric] xs(2) [symmetric] if_not_P [OF sym] st1(1)
    by (simp add: st2(1))
  with sup_inv_result [OF st2(2) ok1 xs(3)] sat1 show ?thesis by auto
qed

lemma cmp_list_map [simp]: "cmp_list (map Cmp cs) = Some cs"
  by (induction cs) auto

text \<open>
  \<^bold>\<open>C29\<close>: \<open>crush_or_supersets\<close> is safe and keeps the meaning. On every nonempty disjunction of
  equality tests of one field it ends normally (no assertion fails, every array access is in
  bounds, the loops over the linked \<open>next\<close> entries end), the result is again a nonempty disjunction
  of equality tests of that field, and it holds for the same packets.
\<close>

theorem crush_or_supersets_correct:
  assumes "\<forall>c \<in> set cs. eq_cmp X c \<and> cmp_symbol c = symbol" "cs \<noteq> []"
  shows "\<exists>cs'. crush_or_supersets (Or (map Cmp cs)) symbol = Some (Or (map Cmp cs')) \<and> cs' \<noteq> [] \<and>
    (\<forall>c \<in> set cs'. eq_cmp X c \<and> cmp_symbol c = symbol) \<and>
    (\<forall>f lp. expr_evaluate f lp (Or (map Cmp cs')) = expr_evaluate f lp (Or (map Cmp cs)))"
proof -
  obtain cs' where cs': "crush_or_cmps symbol cs = Some cs'" "ok_cmps X symbol cs'" "cs' \<noteq> []"
    "\<forall>f lp. (\<exists>c \<in> set cs'. cmp_sat f lp c) \<longleftrightarrow> (\<exists>c \<in> set cs. cmp_sat f lp c)"
    using crush_or_cmps_ok [of X symbol cs] assms by (auto simp: ok_cmps_def)
  have "expr_evaluate f lp (Or (map Cmp ds)) = Some (\<exists>c \<in> set ds. cmp_sat f lp c)"
    if "\<forall>c \<in> set ds. eq_cmp X c" for f lp ds
    using that by (subst expr_evaluate_ev) (auto simp: eq_cmp_has_field)
  with cs' assms show ?thesis
    by (intro exI [of _ cs']) (simp add: crush_or_supersets_def ok_cmps_def)
qed

theorem crush_or_supersets_correct_witness:
  "\<exists>cs'. crush_or_supersets (Or (map Cmp [ex_flags_cmp R_EQ 7 15, ex_flags_cmp R_EQ 23 255, ex_flags_cmp R_EQ 7 15]))
       ex_flags = Some (Or (map Cmp cs')) \<and> cs' \<noteq> [] \<and>
    (\<forall>c \<in> set cs'. eq_cmp {} c \<and> cmp_symbol c = ex_flags) \<and>
    (\<forall>f lp. expr_evaluate f lp (Or (map Cmp cs')) = expr_evaluate f lp
       (Or (map Cmp [ex_flags_cmp R_EQ 7 15, ex_flags_cmp R_EQ 23 255, ex_flags_cmp R_EQ 7 15])))"
  by (rule crush_or_supersets_correct)
    (simp_all add: eq_cmp_def whole_mask_def wf_cmp_def cmp_honors_def take_bit_eq_mod)

end
