(* ===== verification/Expr_Crush.thy ===== *)
theory Expr_Crush
  imports Crush_Supersets
begin

text \<open>
  \<open>crush_cmps\<close> of \<open>ovn/lib/expr.c\<close> and its helpers: an expression on a single symbol becomes a single
  comparison, a disjunction of comparisons, or a Boolean literal.

  The functions call each other recursively; here each helper takes \<open>crush\<close>, the recursive call, as an
  argument, and \<open>crush_cmps\<close> is defined by recursion on fuel. \<open>crush_fuel\<close>, the number of AND and OR
  nodes plus one, is enough: a recursive call is on a subexpression, or on a conjunction in which two
  OR nodes have been merged. A \<open>struct sset\<close> is a list without duplicates; the C code iterates over it
  in hash order, the model in the order of insertion.
\<close>

section \<open>Definitions\<close>

fun disjunction_matches_string :: "expr list \<Rightarrow> string \<Rightarrow> bool" where
  "disjunction_matches_string [] s = False"
| "disjunction_matches_string (sub # es) s =
     (if (case sub of Cmp c \<Rightarrow> strcmp (cmp_string c) s = 0 | _ \<Rightarrow> False) then True
      else disjunction_matches_string es s)"

text \<open>
  The first loop of \<open>crush_and_string\<close>. \<open>Inl\<close> is an early return; \<open>Inr\<close> has the singleton, if there
  is one, and the OR expressions that stay in the list.
\<close>

primrec crush_and_string_loop ::
  "(expr \<Rightarrow> expr option) \<Rightarrow> expr list \<Rightarrow> expr_cmp option \<Rightarrow> expr list \<Rightarrow>
     (expr + expr_cmp option \<times> expr list) option" where
  "crush_and_string_loop crush [] singleton ors = Some (Inr (singleton, ors))"
| "crush_and_string_loop crush (sub # es) singleton ors =
     do {
       new \<leftarrow> crush sub;
       case new of
         Cmp c \<Rightarrow>
           (case singleton of
              None \<Rightarrow> crush_and_string_loop crush es (Some c) ors
            | Some s \<Rightarrow>
               (if strcmp (cmp_string c) (cmp_string s) = 0
                then crush_and_string_loop crush es singleton ors
                else Some (Inl (Boolean False))))
       | And _ \<Rightarrow> None
       | Or _ \<Rightarrow> crush_and_string_loop crush es singleton (ors @ [new])
       | Boolean b \<Rightarrow>
           (if \<not> b then Some (Inl new) else crush_and_string_loop crush es singleton ors)
       | Condition _ _ \<Rightarrow> None
     }"

definition sset_add :: "string \<Rightarrow> string list \<Rightarrow> string list" where
  "sset_add s set' = (if s \<in> set set' then set' else set' @ [s])"

definition sset_intersect :: "string list \<Rightarrow> string list \<Rightarrow> string list" where
  "sset_intersect a b = filter (\<lambda>name. name \<in> set b) a"

text \<open>The second loop: \<open>Inl\<close> when the intersection becomes empty.\<close>

primrec crush_strings_loop :: "expr list \<Rightarrow> string list \<Rightarrow> (unit + string list) option" where
  "crush_strings_loop [] result = Some (Inr result)"
| "crush_strings_loop (sub # es) result =
     do {
       cs \<leftarrow> cmp_list (andor sub);
       let strings = fold sset_add (map cmp_string cs) [];
           result' = (if result = [] then strings else sset_intersect result strings)
       in if result' = [] then Some (Inl ()) else crush_strings_loop es result'
     }"

definition string_cmp :: "expr_symbol \<Rightarrow> string \<Rightarrow> expr_cmp" where
  "string_cmp symbol s = \<lparr>as_name = None, cmp_symbol = symbol, cmp_relop = R_EQ, cmp_string = s,
     cmp_value = 0, cmp_mask = 0, mask_n_bits = 0\<rparr>"

definition crush_and_string ::
  "(expr \<Rightarrow> expr option) \<Rightarrow> expr list \<Rightarrow> expr_symbol \<Rightarrow> expr option" where
  "crush_and_string crush es symbol =
     (if length es \<le> 1 then None
      else do {
        r \<leftarrow> crush_and_string_loop crush es None [];
        case r of
          Inl e \<Rightarrow> Some e
        | Inr (Some singleton, ors) \<Rightarrow>
           (if \<exists>sub \<in> set ors. expr_type_of sub = T_OR
                 \<and> \<not> disjunction_matches_string (andor sub) (cmp_string singleton)
            then Some (Boolean False)
            else Some (Cmp singleton))
        | Inr (None, ors) \<Rightarrow>
           do {
             r' \<leftarrow> crush_strings_loop ors [];
             case r' of
               Inl _ \<Rightarrow> Some (Boolean False)
             | Inr result \<Rightarrow> Some (expr_fix (Or (map (Cmp \<circ> string_cmp symbol) result)))
           }
      })"

primrec crush_and_numeric_loop ::
  "(expr \<Rightarrow> expr option) \<Rightarrow> expr list \<Rightarrow> value_mask \<Rightarrow> expr list \<Rightarrow>
     (expr + value_mask \<times> expr list) option" where
  "crush_and_numeric_loop crush [] vm ors = Some (Inr (vm, ors))"
| "crush_and_numeric_loop crush (sub # es) vm ors =
     do {
       new \<leftarrow> crush sub;
       case new of
         Cmp c \<Rightarrow>
           (case mf_subvalue_intersect vm (cmp_value c, cmp_mask c) of
              None \<Rightarrow> Some (Inl (Boolean False))
            | Some vm' \<Rightarrow> crush_and_numeric_loop crush es vm' ors)
       | And _ \<Rightarrow> None
       | Or _ \<Rightarrow> crush_and_numeric_loop crush es vm (ors @ [new])
       | Boolean b \<Rightarrow>
           (if \<not> b then Some (Inl new) else crush_and_numeric_loop crush es vm ors)
       | Condition _ _ \<Rightarrow> None
     }"

definition num_cmp :: "expr_symbol \<Rightarrow> value_mask \<Rightarrow> expr_cmp" where
  "num_cmp symbol vm = \<lparr>as_name = None, cmp_symbol = symbol, cmp_relop = R_EQ, cmp_string = '''',
     cmp_value = fst vm, cmp_mask = snd vm, mask_n_bits = 0\<rparr>"

text \<open>"a && (b || c || d)" becomes "ab || ac || ad"; the comparisons are changed in place.\<close>

definition crush_and_one_or ::
  "(expr \<Rightarrow> expr option) \<Rightarrow> value_mask \<Rightarrow> expr \<Rightarrow> expr option" where
  "crush_and_one_or crush vm disjuncts =
     (if expr_type_of disjuncts \<noteq> T_OR then None
      else do {
        cs \<leftarrow> cmp_list (andor disjuncts);
        let ors = List.map_filter (\<lambda>sub.
              map_option (\<lambda>(v, m). sub\<lparr>cmp_value := v, cmp_mask := m\<rparr>)
                (mf_subvalue_intersect vm (cmp_value sub, cmp_mask sub))) cs
        in case ors of
             [] \<Rightarrow> Some (Boolean False)
           | [cmp] \<Rightarrow> Some (Cmp cmp)
           | _ \<Rightarrow> crush (Or (map Cmp ors))
      })"

text \<open>
  "x && (a0 || a1) && (b0 || b1) && ..." becomes "(xa0b0 || xa0b1 || xa1b0 || xa1b1) && ...".
\<close>

definition crush_and_two_ors ::
  "(expr \<Rightarrow> expr option) \<Rightarrow> expr_symbol \<Rightarrow> value_mask \<Rightarrow> expr \<Rightarrow> expr \<Rightarrow> expr list \<Rightarrow> expr option" where
  "crush_and_two_ors crush symbol vm as' bs rest =
     do {
       acs \<leftarrow> cmp_list (andor as');
       bcs \<leftarrow> cmp_list (andor bs);
       let ors = map (num_cmp symbol) (meet_product mf_subvalue_intersect vm
             (map (\<lambda>a. (cmp_value a, cmp_mask a)) acs) (map (\<lambda>b. (cmp_value b, cmp_mask b)) bcs))
       in case ors of
            [] \<Rightarrow> Some (Boolean False)
          | [cmp] \<Rightarrow>
             (if rest = [] then crush (Cmp cmp)
              else Option.bind (expr_combine T_AND (Some (Cmp cmp)) (Some (And rest))) crush)
          | _ \<Rightarrow>
             (if rest \<noteq> [] then
                do {
                  e \<leftarrow> expr_combine T_AND (Some (Or (map Cmp ors))) (Some (And rest));
                  if length (andor e) \<le> 1 then None else crush e
                }
              else crush (Or (map Cmp ors)))
     }"

definition crush_and_numeric ::
  "(expr \<Rightarrow> expr option) \<Rightarrow> expr list \<Rightarrow> expr_symbol \<Rightarrow> expr option" where
  "crush_and_numeric crush es symbol =
     (if length es \<le> 1 then None
      else do {
        r \<leftarrow> crush_and_numeric_loop crush es (0, 0) [];
        case r of
          Inl e \<Rightarrow> Some e
        | Inr (vm, ors) \<Rightarrow>
           (case ors of
              [] \<Rightarrow> (if snd vm = 0 then Some (Boolean True) else Some (Cmp (num_cmp symbol vm)))
            | [disjuncts] \<Rightarrow> crush_and_one_or crush vm disjuncts
            | as' # bs # rest \<Rightarrow> crush_and_two_ors crush symbol vm as' bs rest)
      })"

primrec crush_or_loop :: "(expr \<Rightarrow> expr option) \<Rightarrow> expr list \<Rightarrow> expr list option" where
  "crush_or_loop crush [] = Some []"
| "crush_or_loop crush (sub # es) =
     do {
       new \<leftarrow> crush sub;
       es' \<leftarrow> crush_or_loop crush es;
       Some (expr_insert_andor T_OR new @ es')
     }"

definition crush_or :: "(expr \<Rightarrow> expr option) \<Rightarrow> expr list \<Rightarrow> expr_symbol \<Rightarrow> expr option" where
  "crush_or crush es symbol =
     do {
       es' \<leftarrow> crush_or_loop crush es;
       let expr = expr_fix (Or es')
       in if expr_type_of expr \<noteq> T_OR then Some expr
          else map_option expr_fix (crush_or_supersets expr symbol)
     }"

primrec crush_cmps_fuel :: "nat \<Rightarrow> expr_symbol \<Rightarrow> expr \<Rightarrow> expr option" where
  "crush_cmps_fuel 0 symbol expr = None"
| "crush_cmps_fuel (Suc fuel) symbol expr =
     (case expr of
        Or es \<Rightarrow> crush_or (crush_cmps_fuel fuel symbol) es symbol
      | And es \<Rightarrow>
         (if sym_width symbol \<noteq> 0
          then crush_and_numeric (crush_cmps_fuel fuel symbol) es symbol
          else crush_and_string (crush_cmps_fuel fuel symbol) es symbol)
      | Cmp c \<Rightarrow> Some expr
      | Boolean b \<Rightarrow> Some expr
      | Condition _ _ \<Rightarrow> None)"

fun crush_fuel :: "expr \<Rightarrow> nat" where
  "crush_fuel (And es) = Suc (sum_list (map crush_fuel es))"
| "crush_fuel (Or es) = Suc (sum_list (map crush_fuel es))"
| "crush_fuel e = 0"

definition crush_cmps :: "expr \<Rightarrow> expr_symbol \<Rightarrow> expr option" where
  "crush_cmps expr symbol = crush_cmps_fuel (Suc (crush_fuel expr)) symbol expr"

section \<open>Comparisons on one symbol\<close>

definition sym_ok :: "expr_symbol \<Rightarrow> bool" where
  "sym_ok sy \<longleftrightarrow> (case sym_field sy of None \<Rightarrow> False
     | Some field \<Rightarrow> sym_width sy \<le> 8 * n_bytes field \<and> n_bytes field \<le> 128)"

definition sym_value :: "flow \<Rightarrow> expr_symbol \<Rightarrow> mf_subvalue" where
  "sym_value f sy = f (the (sym_field sy))"

lemma eq_cmp_sym_ok: "eq_cmp X c \<Longrightarrow> sym_ok (cmp_symbol c)"
  by (simp add: eq_cmp_def whole_mask_def wf_cmp_def sym_ok_def)

text \<open>
  Two logical ports with the same number are the same port. Only under this assumption is
  \<open>inport == "a" && inport == "b"\<close> false, as \<open>crush_and_string\<close> takes it to be.
\<close>

definition inj_ports :: "ports \<Rightarrow> bool" where
  "inj_ports lp \<longleftrightarrow> (\<forall>a b. lp a \<noteq> None \<longrightarrow> lp a = lp b \<longrightarrow> a = b)"

definition port_sat :: "flow \<Rightarrow> expr_symbol \<Rightarrow> ports \<Rightarrow> string \<Rightarrow> bool" where
  "port_sat f sy lp s \<longleftrightarrow> (case lp s of None \<Rightarrow> False
     | Some k \<Rightarrow> (ucast (take_bit (n_bits (the (sym_field sy))) (sym_value f sy)) :: u64) = ucast k)"

lemma port_sat_unique:
  assumes "inj_ports lp" "port_sat f sy lp s" "port_sat f sy lp t"
  shows "s = t"
proof -
  obtain k l where kl: "lp s = Some k" "lp t = Some l" "(ucast k :: u64) = ucast l"
    using assms(2,3) by (auto simp: port_sat_def split: option.splits)
  have "k = l"
  proof (rule bit_word_eqI)
    fix n assume "n < LENGTH(32)"
    then show "bit k n = bit l n"
      using arg_cong [OF kl(3), of "\<lambda>w. bit w n"] by (simp add: bit_ucast_iff)
  qed
  with assms(1) kl show ?thesis by (auto simp: inj_ports_def)
qed

lemma cmp_sat_string:
  "eq_cmp X c \<Longrightarrow> sym_width (cmp_symbol c) = 0 \<Longrightarrow>
     cmp_sat f lp c \<longleftrightarrow> port_sat f (cmp_symbol c) lp (cmp_string c)"
  by (auto simp: eq_cmp_def whole_mask_def wf_cmp_def cmp_sat_def expr_evaluate_cmp_def port_sat_def sym_value_def
      three_way_def Let_def split: option.splits if_splits)

lemma string_cmp_ok:
  assumes "sym_ok sy" "sym_width sy = 0"
  shows "eq_cmp X (string_cmp sy s)" "cmp_symbol (string_cmp sy s) = sy"
    "cmp_sat f lp (string_cmp sy s) \<longleftrightarrow> port_sat f sy lp s"
proof -
  show ok: "eq_cmp X (string_cmp sy s)"
    using assms by (auto simp: eq_cmp_def whole_mask_def wf_cmp_def sym_ok_def string_cmp_def cmp_honors_def split: option.splits)
  show "cmp_symbol (string_cmp sy s) = sy" by (simp add: string_cmp_def)
  show "cmp_sat f lp (string_cmp sy s) \<longleftrightarrow> port_sat f sy lp s"
    using cmp_sat_string [OF ok] assms by (simp add: string_cmp_def)
qed

text \<open>Value/mask pairs within the width of the symbol.\<close>

definition vm_in :: "expr_symbol set \<Rightarrow> expr_symbol \<Rightarrow> value_mask \<Rightarrow> bool" where
  "vm_in X sy vm \<longleftrightarrow> vm_ok vm \<and> (\<forall>i. bit (snd vm) i \<longrightarrow> i < sym_width sy) \<and>
     (sy \<in> X \<longrightarrow> snd vm = 0 \<or> snd vm = mask (sym_width sy))"

interpretation svw: match_algebra mf_subvalue_intersect "vm_in X sy" vm_holds for X sy
  by unfold_locales
    (auto simp: vm_in_def bit_or_iff mf_subvalue_intersect_Some(2) dest: sv.meet_ok sv.meet_holds sv.meet_disjoint)

lemma vm_in_0 [simp]: "vm_in X sy (0, 0)" "vm_holds x (0, 0)"
  by (simp_all add: vm_in_def vm_ok_def vm_holds_def)

lemma meet_mask:
  "mf_subvalue_intersect a b = Some c \<Longrightarrow> vm_in X sy a \<Longrightarrow> vm_in X sy b \<Longrightarrow> snd c = 0 \<longleftrightarrow> snd a = 0 \<and> snd b = 0"
  by (auto simp: vm_in_def mf_subvalue_intersect_Some(2) sv_eq_iff bit_or_iff)

lemma cmp_sat_vm:
  "eq_cmp X c \<Longrightarrow> cmp_symbol c = sy \<Longrightarrow> sym_width sy \<noteq> 0 \<Longrightarrow>
     cmp_sat f lp c \<longleftrightarrow> vm_holds (sym_value f sy) (cmp_vm c)"
  using eq_cmp_vm(2) [of X c f lp] by (simp add: sym_value_def cmp_field_def)

lemma eq_cmp_vm_in: "eq_cmp X c \<Longrightarrow> cmp_symbol c = sy \<Longrightarrow> sym_width sy \<noteq> 0 \<Longrightarrow> vm_in X sy (cmp_vm c) \<and> cmp_mask c \<noteq> 0"
  using eq_cmp_vm [of X c] by (auto simp: vm_in_def eq_cmp_def whole_mask_def)

lemma ok_cmps_vm:
  assumes "ok_cmps X sy cs" "sym_width sy \<noteq> 0"
  shows "\<forall>vm \<in> set (map cmp_vm cs). vm_in X sy vm \<and> snd vm \<noteq> 0"
    and "(\<exists>c \<in> set cs. cmp_sat f lp c) \<longleftrightarrow> (\<exists>vm \<in> set (map cmp_vm cs). vm_holds (sym_value f sy) vm)"
  using assms eq_cmp_vm_in [of X] cmp_sat_vm [of X] by (auto simp: ok_cmps_def)

lemma eq_cmp_vmI:
  assumes "sym_ok sy" "sym_width sy \<noteq> 0" "cmp_symbol d = sy" "cmp_relop d = R_EQ"
    and "vm_in X sy (cmp_vm d)" "cmp_mask d \<noteq> 0"
  shows "eq_cmp X d"
  using assms wf_cmpI [of d "the (sym_field sy)"]
  by (auto simp: eq_cmp_def whole_mask_def sym_ok_def vm_in_def vm_ok_def split: option.splits)

lemma ok_cmps_vmI:
  assumes "sym_ok sy" "sym_width sy \<noteq> 0"
    and "\<And>d. d \<in> set ds \<Longrightarrow> cmp_symbol d = sy \<and> cmp_relop d = R_EQ \<and> cmp_mask d \<noteq> 0 \<and> vm_in X sy (cmp_vm d)"
  shows "ok_cmps X sy ds"
  using assms eq_cmp_vmI by (auto simp: ok_cmps_def)

section \<open>What crushing promises\<close>

definition crush_in :: "expr_symbol set \<Rightarrow> expr_symbol \<Rightarrow> expr \<Rightarrow> bool" where
  "crush_in X sy e \<longleftrightarrow> tree False e \<and> (\<forall>c \<in> cmps_of e. eq_cmp X c \<and> cmp_symbol c = sy)"

definition or_form :: "expr_symbol set \<Rightarrow> expr_symbol \<Rightarrow> expr \<Rightarrow> bool" where
  "or_form X sy e \<longleftrightarrow> (\<exists>cs. e = Or (map Cmp cs) \<and> 2 \<le> length cs \<and> ok_cmps X sy cs)"

definition crush_out :: "expr_symbol set \<Rightarrow> expr_symbol \<Rightarrow> expr \<Rightarrow> bool" where
  "crush_out X sy e \<longleftrightarrow> e = Boolean False \<or> (\<exists>c. e = Cmp c \<and> eq_cmp X c \<and> cmp_symbol c = sy) \<or> or_form X sy e"

text \<open>\<open>same_ev e e'\<close>: equivalent on every packet, if no two ports share a number.\<close>

definition same_ev :: "expr \<Rightarrow> expr \<Rightarrow> bool" where
  "same_ev e e' \<longleftrightarrow> (\<forall>f lp r. inj_ports lp \<longrightarrow> ev (cmp_sat f lp) r e = ev (cmp_sat f lp) r e')"

lemma same_evD: "same_ev e e' \<Longrightarrow> inj_ports lp \<Longrightarrow> ev (cmp_sat f lp) r e = ev (cmp_sat f lp) r e'"
  by (simp add: same_ev_def)

lemma same_ev_refl [simp]: "same_ev e e"
  by (simp add: same_ev_def)

lemma same_ev_trans: "same_ev a b \<Longrightarrow> same_ev b c \<Longrightarrow> same_ev a c"
  by (simp add: same_ev_def)

lemma or_formE:
  assumes "or_form X sy e"
  obtains cs where "e = Or (map Cmp cs)" "2 \<le> length cs" "ok_cmps X sy cs" "cmp_list (andor e) = Some cs"
  using assms by (auto simp: or_form_def)

lemma or_formI: "2 \<le> length cs \<Longrightarrow> ok_cmps X sy cs \<Longrightarrow> or_form X sy (Or (map Cmp cs))"
  unfolding or_form_def by blast

lemma or_form_fuel: "or_form X sy e \<Longrightarrow> crush_fuel e = 1"
  by (auto simp: or_form_def sum_list_eq_0_iff)

lemma sum_fuel_or_forms: "\<forall>e \<in> set es. or_form X sy e \<Longrightarrow> sum_list (map crush_fuel es) = length es"
  by (induction es) (auto simp: or_form_fuel)

lemma or_form_in: "or_form X sy e \<Longrightarrow> crush_in X sy e \<and> expr_type_of e \<noteq> T_AND"
  by (auto simp: or_form_def crush_in_def ok_cmps_def)

lemma crush_in_sub:
  "crush_in X sy (And es) \<Longrightarrow> e \<in> set es \<Longrightarrow> crush_in X sy e"
  "crush_in X sy (Or es) \<Longrightarrow> e \<in> set es \<Longrightarrow> crush_in X sy e"
  by (auto simp: crush_in_def)

lemma tree_cmps_nonempty: "tree False e \<Longrightarrow> cmps_of e \<noteq> {}"
proof (induction e)
  case (And es)
  then obtain x where "x \<in> set es" by (cases es) auto
  with And show ?case by fastforce
next
  case (Or es)
  then obtain x where "x \<in> set es" by (cases es) auto
  with Or show ?case by fastforce
qed auto

lemma crush_in_sym_ok: "crush_in X sy e \<Longrightarrow> sym_ok sy"
  using tree_cmps_nonempty [of e] eq_cmp_sym_ok by (auto simp: crush_in_def)

lemma sum_fuel_sub: "e \<in> set es \<Longrightarrow> crush_fuel e \<le> sum_list (map crush_fuel es)"
  by (simp add: member_le_sum_list)

text \<open>What \<open>expr_fix\<close> makes of a disjunction of comparisons.\<close>

lemma expr_fix_Or_cmps:
  "expr_fix (Or (map Cmp cs)) = (case cs of [] \<Rightarrow> Boolean False | [c] \<Rightarrow> Cmp c | _ \<Rightarrow> Or (map Cmp cs))"
proof -
  have "expr_fix_loop True (map Cmp cs) = Some (map Cmp cs)" by (induction cs) auto
  then show ?thesis
    by (auto simp: expr_fix_andor_def expr_create_andor_def split: list.splits)
qed

lemma crush_out_fix: "ok_cmps X sy cs \<Longrightarrow> crush_out X sy (expr_fix (Or (map Cmp cs)))"
proof (cases cs rule: remdups_adj.cases)
  case (3 x y xs)
  assume "ok_cmps X sy cs"
  with 3 have "or_form X sy (Or (map Cmp cs))" by (intro or_formI) auto
  with 3 show ?thesis unfolding expr_fix_Or_cmps by (simp add: crush_out_def)
qed (auto simp: crush_out_def ok_cmps_def expr_fix_andor_def)

text \<open>
  The interface of the recursive call: on an expression of less than \<open>N\<close> AND and OR nodes it returns
  an equivalent crushed expression. The lemmas of the locale say that each helper then does the same.
\<close>

locale crusher =
  fixes X :: "expr_symbol set"
    and sy :: expr_symbol
    and N :: nat
    and crush :: "expr \<Rightarrow> expr option"
  assumes crush_ok: "crush_in X sy e \<Longrightarrow> crush_fuel e < N \<Longrightarrow>
      \<exists>e'. crush e = Some e' \<and> crush_out X sy e' \<and> same_ev e' e"
    and crush_Cmp: "0 < N \<Longrightarrow> crush (Cmp c) = Some (Cmp c)"
begin

text \<open>The outcome of one call: false, a comparison, or a disjunction (only if it was not a comparison).\<close>

lemma crush_cases:
  assumes "crush_in X sy e" "crush_fuel e < N"
  obtains (false) "crush e = Some (Boolean False)" "same_ev (Boolean False) e"
  | (cmp) c where "crush e = Some (Cmp c)" "eq_cmp X c" "cmp_symbol c = sy" "same_ev (Cmp c) e"
  | (disj) cs where "crush e = Some (Or (map Cmp cs))" "or_form X sy (Or (map Cmp cs))"
      "same_ev (Or (map Cmp cs)) e" "1 \<le> crush_fuel e"
proof -
  obtain e' where e': "crush e = Some e'" "crush_out X sy e'" "same_ev e' e"
    using crush_ok [OF assms] by blast
  have "1 \<le> crush_fuel e" if "or_form X sy e'"
  proof (cases e)
    case (Cmp c)
    then show ?thesis using crush_Cmp [of c] e'(1) assms(2) that by (auto simp: or_form_def)
  qed (use assms(1) in \<open>auto simp: crush_in_def\<close>)
  with e' show ?thesis
    unfolding crush_out_def by (metis cmp disj false or_formE)
qed

lemma crush_ors_ok:
  assumes "ok_cmps X sy cs" "1 < N"
  shows "\<exists>e'. (case cs of [] \<Rightarrow> Some (Boolean False) | [c] \<Rightarrow> Some (Cmp c) | _ \<Rightarrow> crush (Or (map Cmp cs))) = Some e' \<and>
    crush_out X sy e' \<and> same_ev e' (Or (map Cmp cs))"
proof (cases cs rule: remdups_adj.cases)
  case (3 x y xs)
  then have "or_form X sy (Or (map Cmp cs))" using assms(1) by (intro or_formI) auto
  then have "crush_in X sy (Or (map Cmp cs))" "crush_fuel (Or (map Cmp cs)) < N"
    using or_form_in assms(2) by (auto simp only: or_form_fuel)
  from crush_ok [OF this] 3 show ?thesis by auto
qed (use assms in \<open>auto simp: crush_out_def same_ev_def ok_cmps_def\<close>)

lemma crush_or_loop_ok:
  assumes "\<forall>e \<in> set es. crush_in X sy e \<and> crush_fuel e < N"
  shows "\<exists>es'. crush_or_loop crush es = Some es' \<and>
    (\<forall>e \<in> set es'. e = Boolean False \<or> (\<exists>c. e = Cmp c \<and> eq_cmp X c \<and> cmp_symbol c = sy)) \<and>
    same_ev (Or es') (Or es)"
  using assms
proof (induction es)
  case (Cons e es)
  then obtain es' where es': "crush_or_loop crush es = Some es'"
    "\<forall>e \<in> set es'. e = Boolean False \<or> (\<exists>c. e = Cmp c \<and> eq_cmp X c \<and> cmp_symbol c = sy)"
    "same_ev (Or es') (Or es)" by auto
  obtain e' where e': "crush e = Some e'" "crush_out X sy e'" "same_ev e' e"
    using crush_ok Cons.prems by (metis list.set_intros(1))
  have "same_ev (Or (expr_insert_andor T_OR e' @ es')) (Or (e # es))"
    using e'(3) es'(3) ev_insert_andor [of T_OR] unfolding same_ev_def ev_Or_list by simp
  moreover have "\<forall>x \<in> set (expr_insert_andor T_OR e'). x = Boolean False \<or> (\<exists>c. x = Cmp c \<and> eq_cmp X c \<and> cmp_symbol c = sy)"
    using e'(2) by (auto simp: crush_out_def or_form_def expr_insert_andor_def ok_cmps_def)
  ultimately show ?case using e'(1) es' by auto
qed auto

lemma crush_or_ok:
  assumes "\<forall>e \<in> set es. crush_in X sy e \<and> crush_fuel e < N"
  shows "\<exists>e'. crush_or crush es sy = Some e' \<and> crush_out X sy e' \<and> same_ev e' (Or es)"
proof -
  obtain es' where es': "crush_or_loop crush es = Some es'"
    "\<forall>e \<in> set es'. e = Boolean False \<or> (\<exists>c. e = Cmp c \<and> eq_cmp X c \<and> cmp_symbol c = sy)"
    "same_ev (Or es') (Or es)" using crush_or_loop_ok [OF assms] by blast
  obtain cs where cs: "expr_fix (Or es') = expr_fix (Or (map Cmp cs))" "ok_cmps X sy cs"
  proof -
    have "\<exists>cs. expr_fix_loop True es' = Some (map Cmp cs) \<and> ok_cmps X sy cs"
      using es'(2)
    proof (induction es')
      case (Cons e es')
      then obtain cs where cs: "expr_fix_loop True es' = Some (map Cmp cs)" "ok_cmps X sy cs" by auto
      consider "e = Boolean False" | c where "e = Cmp c" "eq_cmp X c" "cmp_symbol c = sy"
        using Cons.prems by auto
      then show ?case
      proof cases
        case (2 c)
        with cs show ?thesis by (intro exI [of _ "c # cs"]) (auto simp: ok_cmps_def)
      qed (use cs in auto)
    qed (auto simp: ok_cmps_def)
    moreover have "expr_fix_loop True (map Cmp cs) = Some (map Cmp cs)" for cs by (induction cs) auto
    ultimately show ?thesis using that by (auto simp: expr_fix_andor_def)
  qed
  have ev: "same_ev (expr_fix (Or (map Cmp cs))) (Or es)"
    using es'(3) unfolding cs(1) [symmetric] same_ev_def ev_expr_fix .
  show ?thesis
  proof (cases "expr_type_of (expr_fix (Or es')) = T_OR")
    case False
    with es'(1) cs ev crush_out_fix [OF cs(2)] show ?thesis by (simp add: crush_or_def)
  next
    case True
    then have o: "expr_fix (Or es') = Or (map Cmp cs)" "cs \<noteq> []"
      unfolding cs(1) expr_fix_Or_cmps by (auto split: list.splits)
    obtain cs' where cs': "crush_or_cmps sy cs = Some cs'" "ok_cmps X sy cs'"
      "\<forall>f lp. (\<exists>c \<in> set cs'. cmp_sat f lp c) \<longleftrightarrow> (\<exists>c \<in> set cs. cmp_sat f lp c)"
      using crush_or_cmps_ok [OF cs(2) o(2)] by blast
    have "same_ev (expr_fix (Or (map Cmp cs'))) (Or es)"
      using ev cs'(3) unfolding same_ev_def ev_expr_fix by simp
    then show ?thesis
      using es'(1) o(1) cs'(1) crush_out_fix [OF cs'(2)] by (simp add: crush_or_def crush_or_supersets_def)
  qed
qed

end

section \<open>Conjunctions of string comparisons\<close>

lemma disjunction_matches_iff:
  "disjunction_matches_string (map Cmp cs) s \<longleftrightarrow> s \<in> cmp_string ` set cs"
  by (induction cs) auto

lemma set_fold_sset_add: "set (fold sset_add xs ys) = set xs \<union> set ys"
  by (induction xs arbitrary: ys) (auto simp: sset_add_def)

lemma or_form_port_sat:
  assumes "or_form X sy e" "sym_width sy = 0" "cmp_list (andor e) = Some cs"
  shows "ev (cmp_sat f lp) r e \<longleftrightarrow> (\<exists>s \<in> cmp_string ` set cs. port_sat f sy lp s)"
  using assms cmp_sat_string [of X] by (auto simp: or_form_def ok_cmps_def)

lemma crush_strings_loop_ok:
  assumes "\<forall>e \<in> set ors. or_form X sy e" "sym_width sy = 0" "R \<noteq> []"
  shows "\<exists>x. crush_strings_loop ors R = Some x \<and>
    (\<forall>f lp r. inj_ports lp \<longrightarrow>
      ((\<exists>s \<in> set R. port_sat f sy lp s) \<and> (\<forall>e \<in> set ors. ev (cmp_sat f lp) r e)) =
        (case x of Inl _ \<Rightarrow> False | Inr R' \<Rightarrow> \<exists>s \<in> set R'. port_sat f sy lp s))"
  using assms
proof (induction ors arbitrary: R)
  case (Cons e ors)
  obtain cs where cs: "cmp_list (andor e) = Some cs" using Cons.prems(1) or_formE by (metis list.set_intros(1))
  define R' where "R' = sset_intersect R (fold sset_add (map cmp_string cs) [])"
  have R': "set R' = set R \<inter> cmp_string ` set cs"
    by (auto simp: R'_def sset_intersect_def set_fold_sset_add)
  have step: "(\<exists>s \<in> set R. port_sat f sy lp s) \<and> ev (cmp_sat f lp) r e \<longleftrightarrow> (\<exists>s \<in> set R'. port_sat f sy lp s)"
    if "inj_ports lp" for f lp r
  proof -
    have "ev (cmp_sat f lp) r e \<longleftrightarrow> (\<exists>s \<in> cmp_string ` set cs. port_sat f sy lp s)"
      by (rule or_form_port_sat) (use Cons.prems(1,2) cs in auto)
    then show ?thesis using port_sat_unique [OF that, of f sy] unfolding R' by blast
  qed
  show ?case
  proof (cases "R' = []")
    case True
    then have "crush_strings_loop (e # ors) R = Some (Inl ())"
      using cs Cons.prems(3) by (simp add: R'_def Let_def)
    moreover have "\<not> ((\<exists>s \<in> set R. port_sat f sy lp s) \<and> ev (cmp_sat f lp) r e)" if "inj_ports lp" for f lp r
      using step [OF that] True by simp
    ultimately show ?thesis by auto
  next
    case False
    then have eq: "crush_strings_loop (e # ors) R = crush_strings_loop ors R'"
      using cs Cons.prems(3) by (simp add: R'_def Let_def)
    have "\<exists>x. crush_strings_loop ors R' = Some x \<and> (\<forall>f lp r. inj_ports lp \<longrightarrow>
        ((\<exists>s \<in> set R'. port_sat f sy lp s) \<and> (\<forall>e \<in> set ors. ev (cmp_sat f lp) r e)) =
          (case x of Inl _ \<Rightarrow> False | Inr R' \<Rightarrow> \<exists>s \<in> set R'. port_sat f sy lp s))"
      by (rule Cons.IH) (use Cons.prems False in auto)
    then obtain x where x: "crush_strings_loop ors R' = Some x" and
      sat: "\<And>f lp r. inj_ports lp \<Longrightarrow>
        ((\<exists>s \<in> set R'. port_sat f sy lp s) \<and> (\<forall>e \<in> set ors. ev (cmp_sat f lp) r e)) =
          (case x of Inl _ \<Rightarrow> False | Inr R' \<Rightarrow> \<exists>s \<in> set R'. port_sat f sy lp s)" by blast
    have "((\<exists>s \<in> set R. port_sat f sy lp s) \<and> (\<forall>e \<in> set (e # ors). ev (cmp_sat f lp) r e)) =
        (case x of Inl _ \<Rightarrow> False | Inr R' \<Rightarrow> \<exists>s \<in> set R'. port_sat f sy lp s)" if "inj_ports lp" for f lp r
      using step [OF that, of f r] sat [OF that, of f r] by auto
    with x show ?thesis unfolding eq by (intro exI [of _ x] conjI allI impI)
  qed
qed auto

lemma crush_strings_loop_first:
  assumes "\<forall>e \<in> set ors. or_form X sy e" "sym_width sy = 0" "ors \<noteq> []"
  shows "\<exists>x. crush_strings_loop ors [] = Some x \<and>
    (\<forall>f lp r. inj_ports lp \<longrightarrow> (\<forall>e \<in> set ors. ev (cmp_sat f lp) r e) =
        (case x of Inl _ \<Rightarrow> False | Inr R' \<Rightarrow> \<exists>s \<in> set R'. port_sat f sy lp s))"
proof -
  obtain e ors' where ors: "ors = e # ors'" using assms(3) by (cases ors) auto
  obtain cs where cs: "cmp_list (andor e) = Some cs" "cs \<noteq> []"
    using assms(1) or_formE ors by (metis list.set_intros(1) list.size(3) not_numeral_le_zero)
  define R where "R = fold sset_add (map cmp_string cs) []"
  have R: "set R = cmp_string ` set cs" by (simp add: R_def set_fold_sset_add)
  then have ne: "R \<noteq> []" using cs(2) by auto
  have "\<exists>x. crush_strings_loop ors' R = Some x \<and> (\<forall>f lp r. inj_ports lp \<longrightarrow>
      ((\<exists>s \<in> set R. port_sat f sy lp s) \<and> (\<forall>e \<in> set ors'. ev (cmp_sat f lp) r e)) =
        (case x of Inl _ \<Rightarrow> False | Inr R' \<Rightarrow> \<exists>s \<in> set R'. port_sat f sy lp s))"
    by (rule crush_strings_loop_ok) (use assms ors ne in auto)
  moreover have "crush_strings_loop ors [] = crush_strings_loop ors' R"
    using ne cs by (simp add: ors R_def Let_def)
  moreover have "ev (cmp_sat f lp) r e \<longleftrightarrow> (\<exists>s \<in> set R. port_sat f sy lp s)" for f lp r
    using or_form_port_sat [of X sy e cs] assms ors cs R by simp
  ultimately show ?thesis by (simp add: ors)
qed

text \<open>
  The state of the first loop: its shape (no singleton means that every operand so far is an OR),
  and its meaning on a packet.
\<close>

definition string_sem ::
  "flow \<Rightarrow> ports \<Rightarrow> (string \<Rightarrow> bool) \<Rightarrow> expr_cmp option \<Rightarrow> expr list \<Rightarrow> bool" where
  "string_sem f lp r single es \<longleftrightarrow>
     (\<forall>c. single = Some c \<longrightarrow> cmp_sat f lp c) \<and> (\<forall>e \<in> set es. ev (cmp_sat f lp) r e)"

definition string_val ::
  "flow \<Rightarrow> ports \<Rightarrow> (string \<Rightarrow> bool) \<Rightarrow> expr + expr_cmp option \<times> expr list \<Rightarrow> bool" where
  "string_val f lp r x = (case x of Inl _ \<Rightarrow> False | Inr (single, ors) \<Rightarrow> string_sem f lp r single ors)"

definition string_shape ::
  "expr_symbol set \<Rightarrow> expr_symbol \<Rightarrow> expr_cmp option \<Rightarrow> expr list \<Rightarrow> expr list \<Rightarrow>
     expr + expr_cmp option \<times> expr list \<Rightarrow> bool" where
  "string_shape X sy single es ors x = (case x of
     Inl e' \<Rightarrow> e' = Boolean False
   | Inr (single', ors') \<Rightarrow>
       (\<forall>c. single' = Some c \<longrightarrow> eq_cmp X c \<and> cmp_symbol c = sy) \<and> (\<forall>e \<in> set ors'. or_form X sy e) \<and>
       (single' = None \<longrightarrow> single = None \<and> length ors' = length es + length ors))"

context crusher
begin

lemma string_loop_ok:
  assumes "sym_width sy = 0" "\<forall>e \<in> set es. crush_in X sy e \<and> crush_fuel e < N"
    and "\<forall>c. single = Some c \<longrightarrow> eq_cmp X c \<and> cmp_symbol c = sy" "\<forall>e \<in> set ors. or_form X sy e"
  shows "\<exists>x. crush_and_string_loop crush es single ors = Some x \<and> string_shape X sy single es ors x \<and>
    (\<forall>f lp r. inj_ports lp \<longrightarrow> string_sem f lp r single (es @ ors) = string_val f lp r x)"
  using assms(2-)
proof (induction es arbitrary: single ors)
  case Nil
  then show ?case by (auto simp: string_shape_def string_val_def)
next
  case (Cons e es)
  have e: "crush_in X sy e" "crush_fuel e < N" using Cons.prems(1) by auto
  have step: ?case
    if loop: "crush_and_string_loop crush (e # es) single ors = crush_and_string_loop crush es single' ors'"
      and pre: "\<forall>c. single' = Some c \<longrightarrow> eq_cmp X c \<and> cmp_symbol c = sy" "\<forall>e \<in> set ors'. or_form X sy e"
      and len: "single' = None \<longrightarrow> single = None \<and> length ors' = Suc (length ors)"
      and sem: "\<And>f lp r. inj_ports lp \<Longrightarrow>
        string_sem f lp r single (e # es @ ors) = string_sem f lp r single' (es @ ors')" for single' ors'
  proof -
    obtain x where "crush_and_string_loop crush es single' ors' = Some x" "string_shape X sy single' es ors' x"
      "\<forall>f lp r. inj_ports lp \<longrightarrow> string_sem f lp r single' (es @ ors') = string_val f lp r x"
      using Cons.IH [OF _ pre] Cons.prems(1) by auto
    with loop len sem show ?thesis by (auto simp: string_shape_def split: sum.splits)
  qed
  have stop: ?case
    if "crush_and_string_loop crush (e # es) single ors = Some (Inl (Boolean False))"
      and "\<And>f lp r. inj_ports lp \<Longrightarrow> \<not> string_sem f lp r single (e # es @ ors)"
    using that by (auto simp: string_shape_def string_val_def)
  from e show ?case
  proof (cases rule: crush_cases)
    case false
    show ?thesis
      by (rule stop) (use false(1) same_evD [OF false(2)] in \<open>auto simp: string_sem_def\<close>)
  next
    case (cmp c)
    note ev = same_evD [OF cmp(4)]
    show ?thesis
    proof (cases single)
      case None
      show ?thesis
        by (rule step [of "Some c" ors]) (use None cmp Cons.prems ev in \<open>auto simp: string_sem_def\<close>)
    next
      case (Some s)
      have cs: "cmp_sat f lp c = port_sat f sy lp (cmp_string c)" "cmp_sat f lp s = port_sat f sy lp (cmp_string s)" for f lp
        using Some Cons.prems(2) cmp assms(1) by (auto simp: cmp_sat_string)
      show ?thesis
      proof (cases "cmp_string c = cmp_string s")
        case True
        show ?thesis
          by (rule step [of single ors]) (use Some True cmp Cons.prems ev cs in \<open>auto simp: string_sem_def\<close>)
      next
        case False
        show ?thesis
          by (rule stop)
            (use Some False cmp(1) ev cs port_sat_unique in \<open>auto simp: string_sem_def\<close>)
      qed
    qed
  next
    case (disj cs)
    show ?thesis
      by (rule step [of single "ors @ [Or (map Cmp cs)]"])
        (use disj Cons.prems same_evD [OF disj(3)] in \<open>auto simp: string_sem_def\<close>)
  qed
qed

end

lemma string_shape_cases:
  assumes "string_shape X sy None es [] x" "2 \<le> length es"
  obtains (false) "x = Inl (Boolean False)"
    | (single) s ors where "x = Inr (Some s, ors)" "eq_cmp X s" "cmp_symbol s = sy" "\<forall>e \<in> set ors. or_form X sy e"
    | (ors) ors where "x = Inr (None, ors)" "\<forall>e \<in> set ors. or_form X sy e" "ors \<noteq> []"
proof (cases x)
  case (Inl e)
  with assms false show ?thesis by (simp add: string_shape_def)
next
  case (Inr p)
  obtain s ors' where p: "p = (s, ors')" by (cases p)
  show ?thesis
  proof (cases s)
    case None
    with Inr p assms ors [of ors'] show ?thesis by (force simp: string_shape_def)
  next
    case (Some c)
    with Inr p assms(1) single [of c ors'] show ?thesis by (simp add: string_shape_def)
  qed
qed

context crusher
begin

lemma crush_and_string_ok:
  assumes "sym_width sy = 0" "sym_ok sy" "2 \<le> length es" "\<forall>e \<in> set es. crush_in X sy e \<and> crush_fuel e < N"
  shows "\<exists>e'. crush_and_string crush es sy = Some e' \<and> crush_out X sy e' \<and> same_ev e' (And es)"
proof -
  obtain x where x: "crush_and_string_loop crush es None [] = Some x" "string_shape X sy None es [] x"
    and val: "\<And>f lp r. inj_ports lp \<Longrightarrow> string_sem f lp r None es = string_val f lp r x"
    using string_loop_ok [OF assms(1,4), of None "[]"] by auto
  have And: "ev (cmp_sat f lp) r (And es) = string_val f lp r x" if "inj_ports lp" for f lp r
    using val [OF that, of f r] by (simp add: string_sem_def)
  have len: "\<not> length es \<le> 1" using assms(3) by simp
  from x(2) assms(3) show ?thesis
  proof (cases rule: string_shape_cases)
    case false
    then show ?thesis
      using len x(1) And by (auto simp: crush_and_string_def crush_out_def same_ev_def string_val_def)
  next
    case (single s ors)
    let ?bad = "\<exists>sub \<in> set ors. expr_type_of sub = T_OR \<and> \<not> disjunction_matches_string (andor sub) (cmp_string s)"
    have res: "crush_and_string crush es sy = Some (if ?bad then Boolean False else Cmp s)"
      using len x(1) single(1) by (simp add: crush_and_string_def)
    have sub: "ev (cmp_sat f lp) r sub \<longleftrightarrow> disjunction_matches_string (andor sub) (cmp_string s)"
      if "sub \<in> set ors" "cmp_sat f lp s" "inj_ports lp" for f lp r sub
    proof -
      have sub: "or_form X sy sub" using single(4) that(1) by blast
      then obtain cs where cs: "sub = Or (map Cmp cs)" "cmp_list (andor sub) = Some cs" by (rule or_formE)
      have "port_sat f sy lp (cmp_string s)" using that(2) single(2,3) assms(1) by (simp add: cmp_sat_string)
      then show ?thesis
        using or_form_port_sat [OF sub assms(1) cs(2), of f lp r] port_sat_unique [OF that(3), of f sy]
        unfolding cs(1) andor.simps disjunction_matches_iff by blast
    qed
    have "same_ev (if ?bad then Boolean False else Cmp s) (And es)"
      unfolding same_ev_def
    proof (intro allI impI)
      fix f lp r assume inj: "inj_ports lp"
      have "ev (cmp_sat f lp) r (And es) \<longleftrightarrow> cmp_sat f lp s \<and> (\<forall>sub \<in> set ors. ev (cmp_sat f lp) r sub)"
        using And [OF inj] single(1) by (simp add: string_val_def string_sem_def)
      also have "\<dots> \<longleftrightarrow> cmp_sat f lp s \<and> \<not> ?bad"
        using sub [OF _ _ inj, of _ f r] single(4) or_formE by (metis expr_type_of.simps(3))
      finally show "ev (cmp_sat f lp) r (if ?bad then Boolean False else Cmp s) = ev (cmp_sat f lp) r (And es)"
        by simp
    qed
    with res single(2,3) show ?thesis by (auto simp: crush_out_def)
  next
    case (ors ors)
    obtain y where y: "crush_strings_loop ors [] = Some y"
      "\<And>f lp r. inj_ports lp \<Longrightarrow> (\<forall>e \<in> set ors. ev (cmp_sat f lp) r e) =
        (case y of Inl _ \<Rightarrow> False | Inr R' \<Rightarrow> \<exists>s \<in> set R'. port_sat f sy lp s)"
      using crush_strings_loop_first [OF ors(2) assms(1) ors(3)] by blast
    have And': "ev (cmp_sat f lp) r (And es) = (case y of Inl _ \<Rightarrow> False | Inr R' \<Rightarrow> \<exists>s \<in> set R'. port_sat f sy lp s)"
      if "inj_ports lp" for f lp r
      using And [OF that] y(2) [OF that] ors(1) by (simp add: string_val_def string_sem_def)
    show ?thesis
    proof (cases y)
      case (Inl u)
      then show ?thesis
        using len x(1) ors(1) y(1) And' by (auto simp: crush_and_string_def crush_out_def same_ev_def)
    next
      case (Inr R)
      have "ok_cmps X sy (map (string_cmp sy) R)"
        using string_cmp_ok [OF assms(2,1)] by (auto simp: ok_cmps_def)
      moreover have "same_ev (expr_fix (Or (map Cmp (map (string_cmp sy) R)))) (And es)"
        unfolding same_ev_def ev_expr_fix using And' Inr string_cmp_ok(3) [OF assms(2,1)] by simp
      ultimately show ?thesis
        using len x(1) ors(1) y(1) Inr crush_out_fix [of X sy "map (string_cmp sy) R"]
        by (simp add: crush_and_string_def comp_def del: expr_fix.simps)
    qed
  qed
qed

end

section \<open>Conjunctions of numeric comparisons\<close>

definition num_sem ::
  "expr_symbol \<Rightarrow> flow \<Rightarrow> ports \<Rightarrow> (string \<Rightarrow> bool) \<Rightarrow> value_mask \<Rightarrow> expr list \<Rightarrow> bool" where
  "num_sem sy f lp r vm es \<longleftrightarrow> vm_holds (sym_value f sy) vm \<and> (\<forall>e \<in> set es. ev (cmp_sat f lp) r e)"

definition num_val ::
  "expr_symbol \<Rightarrow> flow \<Rightarrow> ports \<Rightarrow> (string \<Rightarrow> bool) \<Rightarrow> expr + value_mask \<times> expr list \<Rightarrow> bool" where
  "num_val sy f lp r x = (case x of Inl _ \<Rightarrow> False | Inr (vm, ors) \<Rightarrow> num_sem sy f lp r vm ors)"

definition num_shape ::
  "expr_symbol set \<Rightarrow> expr_symbol \<Rightarrow> value_mask \<Rightarrow> expr list \<Rightarrow> expr list \<Rightarrow> expr + value_mask \<times> expr list \<Rightarrow> bool" where
  "num_shape X sy vm es ors x = (case x of
     Inl e' \<Rightarrow> e' = Boolean False
   | Inr (vm', ors') \<Rightarrow>
       vm_in X sy vm' \<and> (\<forall>e \<in> set ors'. or_form X sy e) \<and>
       length ors' \<le> length ors + sum_list (map crush_fuel es) \<and>
       (snd vm' = 0 \<longrightarrow> snd vm = 0 \<and> length ors' = length es + length ors))"

lemma or_form_vm:
  assumes "or_form X sy e" "sym_width sy \<noteq> 0"
  obtains cs where "e = Or (map Cmp cs)" "cmp_list (andor e) = Some cs" "ok_cmps X sy cs"
    "\<forall>vm \<in> set (map cmp_vm cs). vm_in X sy vm \<and> snd vm \<noteq> 0"
    "\<And>f lp r. ev (cmp_sat f lp) r e \<longleftrightarrow> (\<exists>vm \<in> set (map cmp_vm cs). vm_holds (sym_value f sy) vm)"
proof -
  obtain cs where cs: "e = Or (map Cmp cs)" "ok_cmps X sy cs" "cmp_list (andor e) = Some cs"
    using assms(1) by (rule or_formE)
  have "ev (cmp_sat f lp) r e \<longleftrightarrow> (\<exists>vm \<in> set (map cmp_vm cs). vm_holds (sym_value f sy) vm)" for f lp r
    unfolding ok_cmps_vm(2) [OF cs(2) assms(2), of f lp, symmetric] by (simp add: cs(1))
  then show ?thesis by (rule that [OF cs(1,3,2) ok_cmps_vm(1) [OF cs(2) assms(2)]])
qed

text \<open>The comparisons made from a list of intersections.\<close>

lemma ok_cmps_of_vms:
  assumes "sym_ok sy" "sym_width sy \<noteq> 0" "\<forall>d \<in> set ds. cmp_symbol d = sy \<and> cmp_relop d = R_EQ"
    and "\<forall>vm \<in> set (map cmp_vm ds). vm_in X sy vm \<and> snd vm \<noteq> 0"
  shows "ok_cmps X sy ds"
    and "ev (cmp_sat f lp) r (Or (map Cmp ds)) \<longleftrightarrow> (\<exists>vm \<in> set (map cmp_vm ds). vm_holds (sym_value f sy) vm)"
proof -
  show ok: "ok_cmps X sy ds" by (rule ok_cmps_vmI) (use assms in auto)
  show "ev (cmp_sat f lp) r (Or (map Cmp ds)) \<longleftrightarrow> (\<exists>vm \<in> set (map cmp_vm ds). vm_holds (sym_value f sy) vm)"
    using ok_cmps_vm(2) [OF ok assms(2), of f lp] by simp
qed

lemma meet_all_mask:
  assumes "vm_in X sy a" "\<forall>b \<in> set bs. vm_in X sy b \<and> snd b \<noteq> 0" "c \<in> set (meet_all mf_subvalue_intersect a bs)"
  shows "vm_in X sy c \<and> snd c \<noteq> 0"
proof -
  obtain b where b: "b \<in> set bs" "mf_subvalue_intersect a b = Some c"
    using assms(3) by (auto simp: svw.meet_all_iff)
  with assms(1,2) meet_mask [OF b(2), of X sy] svw.meet_ok [OF b(2), of X sy] show ?thesis by auto
qed

lemma meet_product_mask:
  assumes "vm_in X sy v" "\<forall>a \<in> set as. vm_in X sy a \<and> snd a \<noteq> 0" "\<forall>b \<in> set bs. vm_in X sy b \<and> snd b \<noteq> 0"
    and "c \<in> set (meet_product mf_subvalue_intersect v as bs)"
  shows "vm_in X sy c \<and> snd c \<noteq> 0"
proof -
  obtain a where a: "a \<in> set (meet_all mf_subvalue_intersect v as)" "c \<in> set (meet_all mf_subvalue_intersect a bs)"
    using assms(4) by (auto simp: meet_product_def)
  have "vm_in X sy a" using meet_all_mask [OF assms(1,2) a(1)] by simp
  from meet_all_mask [OF this assms(3) a(2)] show ?thesis .
qed

lemma map_filter_vm:
  "map cmp_vm (List.map_filter (\<lambda>sub. map_option (\<lambda>(v, m). sub\<lparr>cmp_value := v, cmp_mask := m\<rparr>)
       (mf_subvalue_intersect vm (cmp_vm sub))) cs) = meet_all mf_subvalue_intersect vm (map cmp_vm cs)"
  by (induction cs) (auto simp: meet_all_def List.map_filter_def)

lemma map_num_cmp_vm [simp]: "map cmp_vm (map (num_cmp sy) vms) = vms"
  by (simp add: num_cmp_def comp_def)

context crusher
begin

lemma num_loop_ok:
  assumes "sym_width sy \<noteq> 0" "\<forall>e \<in> set es. crush_in X sy e \<and> crush_fuel e < N"
    and "vm_in X sy vm" "\<forall>e \<in> set ors. or_form X sy e"
  shows "\<exists>x. crush_and_numeric_loop crush es vm ors = Some x \<and> num_shape X sy vm es ors x \<and>
    (\<forall>f lp r. inj_ports lp \<longrightarrow> num_sem sy f lp r vm (es @ ors) = num_val sy f lp r x)"
  using assms(2-)
proof (induction es arbitrary: vm ors)
  case Nil
  then show ?case by (auto simp: num_shape_def num_val_def)
next
  case (Cons e es)
  have e: "crush_in X sy e" "crush_fuel e < N" using Cons.prems(1) by auto
  have step: ?case
    if loop: "crush_and_numeric_loop crush (e # es) vm ors = crush_and_numeric_loop crush es vm' ors'"
      and pre: "vm_in X sy vm'" "\<forall>e \<in> set ors'. or_form X sy e"
      and len: "length ors' \<le> length ors + crush_fuel e"
        "snd vm' = 0 \<longrightarrow> snd vm = 0 \<and> length ors' = Suc (length ors)"
      and sem: "\<And>f lp r. inj_ports lp \<Longrightarrow>
        num_sem sy f lp r vm (e # es @ ors) = num_sem sy f lp r vm' (es @ ors')" for vm' ors'
  proof -
    obtain x where "crush_and_numeric_loop crush es vm' ors' = Some x" "num_shape X sy vm' es ors' x"
      "\<forall>f lp r. inj_ports lp \<longrightarrow> num_sem sy f lp r vm' (es @ ors') = num_val sy f lp r x"
      using Cons.IH [OF _ pre] Cons.prems(1) by auto
    with loop len sem show ?thesis by (auto simp: num_shape_def split: sum.splits)
  qed
  have stop: ?case
    if "crush_and_numeric_loop crush (e # es) vm ors = Some (Inl (Boolean False))"
      and "\<And>f lp r. inj_ports lp \<Longrightarrow> \<not> num_sem sy f lp r vm (e # es @ ors)"
    using that by (auto simp: num_shape_def num_val_def)
  from e show ?case
  proof (cases rule: crush_cases)
    case false
    show ?thesis
      by (rule stop) (use false(1) same_evD [OF false(2)] in \<open>auto simp: num_sem_def\<close>)
  next
    case (cmp c)
    note ev = same_evD [OF cmp(4)]
    note c = eq_cmp_vm_in [OF cmp(2,3) assms(1)] cmp_sat_vm [OF cmp(2,3) assms(1)]
    show ?thesis
    proof (cases "mf_subvalue_intersect vm (cmp_vm c)")
      case None
      have "\<not> (vm_holds x vm \<and> vm_holds x (cmp_vm c))" for x
        by (rule svw.meet_disjoint [OF None]) (use Cons.prems c in auto)
      then show ?thesis
        by (intro stop) (use None cmp(1) ev c(2) in \<open>auto simp: num_sem_def\<close>)
    next
      case (Some vm')
      have vm': "vm_in X sy vm'" "snd vm' \<noteq> 0" "vm_holds x vm' \<longleftrightarrow> vm_holds x vm \<and> vm_holds x (cmp_vm c)" for x
        using svw.meet_ok [OF Some, of X sy] svw.meet_holds [OF Some, of X sy] meet_mask [OF Some, of X sy] Cons.prems(2) c(1) by auto
      show ?thesis
        by (rule step [of vm' ors]) (use Some cmp(1) Cons.prems vm' ev c in \<open>auto simp: num_sem_def\<close>)
    qed
  next
    case (disj cs)
    show ?thesis
      by (rule step [of vm "ors @ [Or (map Cmp cs)]"])
        (use disj Cons.prems same_evD [OF disj(3)] in \<open>auto simp: num_sem_def\<close>)
  qed
qed

lemma crush_and_one_or_ok:
  assumes "sym_width sy \<noteq> 0" "sym_ok sy" "vm_in X sy vm" "or_form X sy d" "1 < N"
  shows "\<exists>e'. crush_and_one_or crush vm d = Some e' \<and> crush_out X sy e' \<and>
    (\<forall>f lp r. inj_ports lp \<longrightarrow> ev (cmp_sat f lp) r e' = num_sem sy f lp r vm [d])"
proof -
  obtain cs where cs: "d = Or (map Cmp cs)" "cmp_list (andor d) = Some cs" "ok_cmps X sy cs"
    "\<forall>vm \<in> set (map cmp_vm cs). vm_in X sy vm \<and> snd vm \<noteq> 0"
    "\<And>f lp r. ev (cmp_sat f lp) r d \<longleftrightarrow> (\<exists>vm \<in> set (map cmp_vm cs). vm_holds (sym_value f sy) vm)"
    using assms(4,1) by (rule or_form_vm) blast
  define ors where "ors = List.map_filter (\<lambda>sub. map_option (\<lambda>(v, m). sub\<lparr>cmp_value := v, cmp_mask := m\<rparr>)
       (mf_subvalue_intersect vm (cmp_vm sub))) cs"
  have vms: "map cmp_vm ors = meet_all mf_subvalue_intersect vm (map cmp_vm cs)"
    unfolding ors_def by (rule map_filter_vm)
  have shape: "\<forall>d \<in> set ors. cmp_symbol d = sy \<and> cmp_relop d = R_EQ"
    using cs(3) by (auto simp: ors_def List.map_filter_def ok_cmps_def eq_cmp_def)
  have mask: "\<forall>v \<in> set (map cmp_vm ors). vm_in X sy v \<and> snd v \<noteq> 0"
    unfolding vms using meet_all_mask [OF assms(3) cs(4)] by blast
  note ors = ok_cmps_of_vms [OF assms(2,1) shape mask]
  have "ev (cmp_sat f lp) r (Or (map Cmp ors)) = num_sem sy f lp r vm [d]" for f lp r
    unfolding ors(2) vms using svw.meet_all_holds [OF assms(3), of "map cmp_vm cs"] cs(4,5)
    by (simp add: num_sem_def)
  moreover obtain e' where "(case ors of [] \<Rightarrow> Some (Boolean False) | [c] \<Rightarrow> Some (Cmp c)
      | _ \<Rightarrow> crush (Or (map Cmp ors))) = Some e'" "crush_out X sy e'" "same_ev e' (Or (map Cmp ors))"
    using crush_ors_ok [OF ors(1) assms(5)] by blast
  moreover have "crush_and_one_or crush vm d = (case ors of [] \<Rightarrow> Some (Boolean False) | [c] \<Rightarrow> Some (Cmp c)
      | _ \<Rightarrow> crush (Or (map Cmp ors)))"
    unfolding ors_def by (simp add: crush_and_one_or_def cs(1) Let_def)
  ultimately show ?thesis by (auto simp: same_ev_def)
qed

lemma crush_and_two_ors_ok:
  assumes "sym_width sy \<noteq> 0" "sym_ok sy" "vm_in X sy vm" "or_form X sy a" "or_form X sy b"
    and rest: "\<forall>e \<in> set rest. or_form X sy e" and N: "length rest + 2 < N"
  shows "\<exists>e'. crush_and_two_ors crush sy vm a b rest = Some e' \<and> crush_out X sy e' \<and>
    (\<forall>f lp r. inj_ports lp \<longrightarrow> ev (cmp_sat f lp) r e' = num_sem sy f lp r vm (a # b # rest))"
proof -
  obtain as where as: "cmp_list (andor a) = Some as" "\<forall>vm \<in> set (map cmp_vm as). vm_in X sy vm \<and> snd vm \<noteq> 0"
    "\<And>f lp r. ev (cmp_sat f lp) r a \<longleftrightarrow> (\<exists>vm \<in> set (map cmp_vm as). vm_holds (sym_value f sy) vm)"
    using assms(4,1) by (rule or_form_vm) blast
  obtain bs where bs: "cmp_list (andor b) = Some bs" "\<forall>vm \<in> set (map cmp_vm bs). vm_in X sy vm \<and> snd vm \<noteq> 0"
    "\<And>f lp r. ev (cmp_sat f lp) r b \<longleftrightarrow> (\<exists>vm \<in> set (map cmp_vm bs). vm_holds (sym_value f sy) vm)"
    using assms(5,1) by (rule or_form_vm) blast
  define vms where "vms = meet_product mf_subvalue_intersect vm (map cmp_vm as) (map cmp_vm bs)"
  define ors where "ors = map (num_cmp sy) vms"
  have vms: "map cmp_vm ors = vms" unfolding ors_def by (rule map_num_cmp_vm)
  have shape: "\<forall>d \<in> set ors. cmp_symbol d = sy \<and> cmp_relop d = R_EQ" by (auto simp: ors_def num_cmp_def)
  have mask: "\<forall>v \<in> set (map cmp_vm ors). vm_in X sy v \<and> snd v \<noteq> 0"
    unfolding vms vms_def using meet_product_mask [OF assms(3) as(2) bs(2)] by blast
  note ors = ok_cmps_of_vms [OF assms(2,1) shape mask]
  have ev: "ev (cmp_sat f lp) r (Or (map Cmp ors)) = num_sem sy f lp r vm [a, b]" for f lp r
    unfolding ors(2) vms vms_def
    using svw.meet_product_holds [OF assms(3), of "map cmp_vm as" "map cmp_vm bs"] as(2,3) bs(2,3)
    by (simp add: num_sem_def)
  have sem: "num_sem sy f lp r vm (a # b # rest) = ev (cmp_sat f lp) r (And (Or (map Cmp ors) # rest))" for f lp r
    using ev [of f lp r] by (auto simp: num_sem_def)
  have rest_in: "crush_in X sy e" "expr_type_of e \<noteq> T_AND" if "e \<in> set rest" for e
    using rest that or_form_in by blast+
  have eval: "crush_and_two_ors crush sy vm a b rest = (case ors of
      [] \<Rightarrow> Some (Boolean False)
    | [c] \<Rightarrow> if rest = [] then crush (Cmp c) else crush (And (Cmp c # rest))
    | _ \<Rightarrow> if rest \<noteq> [] then crush (And (Or (map Cmp ors) # rest)) else crush (Or (map Cmp ors)))"
    using as(1) bs(1)
    by (auto simp: crush_and_two_ors_def ors_def vms_def Let_def expr_combine_def expr_create_andor_def
        Suc_le_eq split: list.splits)
  have call: "\<exists>e'. crush e = Some e' \<and> crush_out X sy e' \<and>
      (\<forall>f lp r. inj_ports lp \<longrightarrow> ev (cmp_sat f lp) r e' = num_sem sy f lp r vm (a # b # rest))"
    if "crush_in X sy e" "crush_fuel e < N" "\<And>f lp r. ev (cmp_sat f lp) r e = num_sem sy f lp r vm (a # b # rest)" for e
    using crush_ok [OF that(1,2)] that(3) by (auto simp: same_ev_def)
  show ?thesis
  proof (cases ors rule: remdups_adj.cases)
    case 1
    then show ?thesis using eval sem by (auto simp: crush_out_def)
  next
    case (2 c)
    then have c: "eq_cmp X c" "cmp_symbol c = sy" using ors(1) by (auto simp: ok_cmps_def)
    show ?thesis
    proof (cases "rest = []")
      case True
      have "crush_in X sy (Cmp c)" "crush_fuel (Cmp c) < N" using c N by (auto simp: crush_in_def)
      moreover have "ev (cmp_sat f lp) r (Cmp c) = num_sem sy f lp r vm (a # b # rest)" for f lp r
        unfolding sem using 2 True by simp
      ultimately have "\<exists>e'. crush (Cmp c) = Some e' \<and> crush_out X sy e' \<and>
          (\<forall>f lp r. inj_ports lp \<longrightarrow> ev (cmp_sat f lp) r e' = num_sem sy f lp r vm (a # b # rest))"
        by (rule call)
      then show ?thesis unfolding eval using 2 True by simp
    next
      case False
      have "crush_in X sy (And (Cmp c # rest))"
        using c rest_in False by (auto simp: crush_in_def Suc_le_eq)
      moreover have "crush_fuel (And (Cmp c # rest)) < N" using sum_fuel_or_forms [OF rest] N by simp
      ultimately show ?thesis unfolding eval using 2 False call [of "And (Cmp c # rest)"] by (simp add: sem)
    qed
  next
    case (3 x y xs)
    then have o: "or_form X sy (Or (map Cmp ors))" by (intro or_formI ors(1)) auto
    show ?thesis
    proof (cases "rest = []")
      case True
      have "ev (cmp_sat f lp) r (Or (map Cmp ors)) = num_sem sy f lp r vm (a # b # rest)" for f lp r
        unfolding sem using True by simp
      moreover have "crush_in X sy (Or (map Cmp ors))" "crush_fuel (Or (map Cmp ors)) < N"
        using or_form_in [OF o] N by (auto simp only: or_form_fuel [OF o])
      ultimately have "\<exists>e'. crush (Or (map Cmp ors)) = Some e' \<and> crush_out X sy e' \<and>
          (\<forall>f lp r. inj_ports lp \<longrightarrow> ev (cmp_sat f lp) r e' = num_sem sy f lp r vm (a # b # rest))"
        by (intro call)
      then show ?thesis unfolding eval using 3 True by simp
    next
      case False
      have "crush_in X sy (And (Or (map Cmp ors) # rest))"
        using or_form_in [OF o] rest_in False unfolding crush_in_def by (auto simp: Suc_le_eq)
      moreover have "crush_fuel (And (Or (map Cmp ors) # rest)) < N"
        using sum_fuel_or_forms [of "Or (map Cmp ors) # rest" X sy] o rest N by simp
      ultimately show ?thesis unfolding eval using 3 False call [OF _ _ sem [symmetric]] by simp
    qed
  qed
qed

end

context crusher
begin

lemma crush_and_numeric_ok:
  assumes "sym_width sy \<noteq> 0" "sym_ok sy" "2 \<le> length es" "\<forall>e \<in> set es. crush_in X sy e"
    and N: "sum_list (map crush_fuel es) < N"
  shows "\<exists>e'. crush_and_numeric crush es sy = Some e' \<and> crush_out X sy e' \<and> same_ev e' (And es)"
proof -
  have es: "\<forall>e \<in> set es. crush_in X sy e \<and> crush_fuel e < N"
    using assms(4) N sum_fuel_sub le_less_trans by blast
  obtain x where x: "crush_and_numeric_loop crush es (0, 0) [] = Some x" "num_shape X sy (0, 0) es [] x"
    and val: "\<And>f lp r. inj_ports lp \<Longrightarrow> num_sem sy f lp r (0, 0) es = num_val sy f lp r x"
    using num_loop_ok [OF assms(1) es, of "(0, 0)" "[]"] by auto
  have And: "ev (cmp_sat f lp) r (And es) = num_val sy f lp r x" if "inj_ports lp" for f lp r
    using val [OF that, of f r] by (simp add: num_sem_def)
  have len: "\<not> length es \<le> 1" using assms(3) by simp
  show ?thesis
  proof (cases x)
    case (Inl e)
    then show ?thesis using len x And
      by (auto simp: crush_and_numeric_def num_shape_def num_val_def crush_out_def same_ev_def)
  next
    case (Inr p)
    then obtain vm ors where vm: "x = Inr (vm, ors)" by (cases p) auto
    have shape: "vm_in X sy vm" "\<forall>e \<in> set ors. or_form X sy e" "length ors < N" "snd vm = 0 \<Longrightarrow> length ors = length es"
      using x(2) N by (auto simp: vm num_shape_def)
    have sem: "ev (cmp_sat f lp) r (And es) = num_sem sy f lp r vm ors" if "inj_ports lp" for f lp r
      using And [OF that] by (simp add: vm num_val_def)
    show ?thesis
    proof (cases ors rule: remdups_adj.cases)
      case 1
      then have "snd vm \<noteq> 0" using shape(4) assms(3) by auto
      moreover have "ok_cmps X sy [num_cmp sy vm]"
        using ok_cmps_of_vms(1) [OF assms(2,1), of "[num_cmp sy vm]"] shape(1) calculation by (simp add: num_cmp_def)
      moreover have "ev (cmp_sat f lp) r (Cmp (num_cmp sy vm)) = num_sem sy f lp r vm []" for f lp r
        using ok_cmps_of_vms(2) [OF assms(2,1), of "[num_cmp sy vm]" X f lp r] shape(1) calculation(1)
        by (simp add: num_cmp_def num_sem_def)
      ultimately show ?thesis using len x(1) vm 1 sem
        by (auto simp: crush_and_numeric_def crush_out_def same_ev_def ok_cmps_def)
    next
      case (2 d)
      then have "\<exists>e'. crush_and_one_or crush vm d = Some e' \<and> crush_out X sy e' \<and>
          (\<forall>f lp r. inj_ports lp \<longrightarrow> ev (cmp_sat f lp) r e' = num_sem sy f lp r vm [d])"
        by (intro crush_and_one_or_ok assms shape(1)) (use shape in auto)
      with len x(1) vm 2 sem show ?thesis by (auto simp: crush_and_numeric_def same_ev_def)
    next
      case (3 a b rest)
      then have "\<exists>e'. crush_and_two_ors crush sy vm a b rest = Some e' \<and> crush_out X sy e' \<and>
          (\<forall>f lp r. inj_ports lp \<longrightarrow> ev (cmp_sat f lp) r e' = num_sem sy f lp r vm (a # b # rest))"
        by (intro crush_and_two_ors_ok assms shape(1)) (use shape in auto)
      with len x(1) vm 3 sem show ?thesis by (auto simp: crush_and_numeric_def same_ev_def)
    qed
  qed
qed

end

section \<open>Correctness of \<open>crush_cmps\<close>\<close>

lemma crusher_crush_cmps: "crusher X sy N (crush_cmps_fuel N sy)"
proof (induction N)
  case 0
  show ?case by unfold_locales simp_all
next
  case (Suc N)
  show ?case
  proof
    fix e assume e: "crush_in X sy e" "crush_fuel e < Suc N"
    have sub: "crush_in X sy x \<and> crush_fuel x < N" if "e = And es \<or> e = Or es" "x \<in> set es" for es x
    proof -
      have "crush_in X sy x" using that e(1) crush_in_sub by blast
      moreover have "crush_fuel x < N" using that(1) e(2) sum_fuel_sub [OF that(2)] by auto
      ultimately show ?thesis ..
    qed
    show "\<exists>e'. crush_cmps_fuel (Suc N) sy e = Some e' \<and> crush_out X sy e' \<and> same_ev e' e"
    proof (cases e)
      case (Cmp c)
      with e(1) show ?thesis by (auto simp: crush_out_def crush_in_def)
    next
      case (And es)
      have len: "2 \<le> length es" using e(1) And by (simp add: crush_in_def)
      show ?thesis
      proof (cases "sym_width sy = 0")
        case True
        from crusher.crush_and_string_ok [OF Suc True crush_in_sym_ok [OF e(1)] len] sub And True
        show ?thesis by simp
      next
        case False
        from crusher.crush_and_numeric_ok [OF Suc False crush_in_sym_ok [OF e(1)] len] sub And False e(2)
        show ?thesis by simp
      qed
    next
      case (Or es)
      from crusher.crush_or_ok [OF Suc] sub Or show ?thesis by simp
    qed (use e(1) in \<open>auto simp: crush_in_def\<close>)
  qed simp
qed

interpretation crush: crusher X sy N "crush_cmps_fuel N sy" for X sy N
  by (rule crusher_crush_cmps)

lemma crush_cmps_ok:
  "crush_in X sy e \<Longrightarrow> \<exists>e'. crush_cmps e sy = Some e' \<and> crush_out X sy e' \<and> same_ev e' e"
  unfolding crush_cmps_def by (rule crush.crush_ok) simp_all

lemma crush_in_evaluate:
  "crush_in X sy e \<Longrightarrow> expr_evaluate f lp e = Some (ev (cmp_sat f lp) (\<lambda>_. True) e)"
  by (rule expr_evaluate_ev) (auto simp: crush_in_def eq_cmp_has_field)

lemma crush_out_in: "crush_out X sy e \<Longrightarrow> e = Boolean False \<or> crush_in X sy e"
  using or_form_in [of X sy e] by (auto simp: crush_out_def crush_in_def)

lemma crush_in_honors: "crush_in X sy e \<Longrightarrow> expr_honors_invariants e"
  by (rule tree_honors [of False]) (auto simp: crush_in_def eq_cmp_def whole_mask_def wf_cmp_def)

text \<open>
  \<^bold>\<open>C28\<close>: \<open>crush_cmps\<close> is correct. For every simplified expression on a single symbol it returns
  (no assertion fails, and the recursion through \<open>crush_or\<close>, \<open>crush_and_string\<close> and
  \<open>crush_and_numeric\<close> ends); the result is a comparison, a disjunction of at least two comparisons on
  that symbol, or false; it honors the invariants, and it evaluates like the original on every
  packet, given that different logical ports have different numbers.
\<close>

theorem crush_cmps_correct:
  assumes "crush_in X symbol e"
  shows "\<exists>e'. crush_cmps e symbol = Some e' \<and> crush_out X symbol e' \<and> expr_honors_invariants e' \<and>
    (\<forall>f lp. inj_ports lp \<longrightarrow> expr_evaluate f lp e' = expr_evaluate f lp e)"
proof -
  obtain e' where e': "crush_cmps e symbol = Some e'" "crush_out X symbol e'" "same_ev e' e"
    using crush_cmps_ok [OF assms] by blast
  have "expr_evaluate f lp e' = expr_evaluate f lp e" if "inj_ports lp" for f lp
    using crush_out_in [OF e'(2)]
  proof
    assume "crush_in X symbol e'"
    then show ?thesis using same_evD [OF e'(3) that] by (simp add: crush_in_evaluate [OF assms] crush_in_evaluate)
  qed (use same_evD [OF e'(3) that] in \<open>simp add: crush_in_evaluate [OF assms]\<close>)
  with e' crush_out_in [OF e'(2)] show ?thesis by (auto dest: crush_in_honors)
qed

theorem crush_cmps_correct_witness:
  "\<exists>e'. crush_cmps (And [Or [Cmp (ex_flags_cmp R_EQ 7 15), Cmp (ex_flags_cmp R_EQ 23 255)],
        Or [Cmp (ex_flags_cmp R_EQ 0 16), Cmp (ex_flags_cmp R_EQ 7 255)]]) ex_flags = Some e' \<and>
    crush_out {} ex_flags e' \<and> expr_honors_invariants e' \<and>
    (\<forall>f lp. inj_ports lp \<longrightarrow> expr_evaluate f lp e' = expr_evaluate f lp
      (And [Or [Cmp (ex_flags_cmp R_EQ 7 15), Cmp (ex_flags_cmp R_EQ 23 255)],
        Or [Cmp (ex_flags_cmp R_EQ 0 16), Cmp (ex_flags_cmp R_EQ 7 255)]]))"
  by (rule crush_cmps_correct)
    (simp add: crush_in_def eq_cmp_def whole_mask_def wf_cmp_def cmp_honors_def take_bit_eq_mod)

end
