(* ===== verification/Expr_Normalize.thy ===== *)
theory Expr_Normalize
  imports Expr_Crush
begin

text \<open>
  \<open>expr_normalize\<close> of \<open>ovn/lib/expr.c\<close>: a simplified expression becomes a Boolean literal, a
  comparison, a conjunction of clauses, or a disjunction of comparisons and such conjunctions, where a
  clause is a comparison or a disjunction of comparisons on one field.

  \<open>expr_normalize_and\<close> and \<open>expr_normalize_or\<close> call each other. The former is defined by recursion
  on fuel; the number of OR nodes plus one is enough, since distributing a conjunction over an OR
  removes that OR from every conjunction it makes.
\<close>

section \<open>Definitions\<close>

fun expr_clone :: "expr \<Rightarrow> expr" where
  "expr_clone (Cmp c) = Cmp c"
| "expr_clone (And es) = And (map expr_clone es)"
| "expr_clone (Or es) = Or (map expr_clone es)"
| "expr_clone (Boolean b) = Boolean b"
| "expr_clone (Condition n s) = Condition n s"

record expr_sort =
  es_expr :: expr
  es_symbol :: "expr_symbol option"
  es_type :: expr_type

text \<open>The numbers of the enumeration constants \<open>EXPR_T_*\<close>.\<close>

fun type_num :: "expr_type \<Rightarrow> nat" where
  "type_num T_CMP = 0"
| "type_num T_AND = 1"
| "type_num T_OR = 2"
| "type_num T_BOOLEAN = 3"
| "type_num T_CONDITION = 4"

text \<open>
  \<open>compare_expr_sort\<close>. The last step compares the type of \<open>a\<close> with itself, as the C code does. Two
  elements of equal type either both have a symbol or none has.
\<close>

definition compare_expr_sort :: "expr_sort \<Rightarrow> expr_sort \<Rightarrow> int" where
  "compare_expr_sort a b =
     (if es_type a \<noteq> es_type b then (if type_num (es_type a) < type_num (es_type b) then -1 else 1)
      else case (es_symbol a, es_symbol b) of
        (Some s, Some t) \<Rightarrow>
          let cmp = strcmp (sym_name s) (sym_name t) in
          if cmp \<noteq> 0 then cmp
          else
            let a_type = type_num (expr_type_of (es_expr a));
                b_type = type_num (expr_type_of (es_expr a)) in
            if a_type < b_type then -1 else if a_type > b_type then 1 else 0
      | _ \<Rightarrow>
          if es_type a = T_AND \<or> es_type a = T_OR then
            three_way (length (andor (es_expr a))) (length (andor (es_expr b)))
          else 0)"

definition make_sort :: "expr \<Rightarrow> expr_sort" where
  "make_sort sub =
     \<lparr>es_expr = sub, es_symbol = expr_get_unique_symbol sub,
      es_type = (if expr_get_unique_symbol sub \<noteq> None then T_CMP else expr_type_of sub)\<rparr>"

text \<open>One run of elements with the same symbol: combined if there are several, and crushed.\<close>

definition sort_group :: "expr_sort \<Rightarrow> expr_sort list \<Rightarrow> expr_symbol \<Rightarrow> expr option" where
  "sort_group x grp symbol =
     (if grp = [] then crush_cmps (es_expr x) symbol
      else
        do {
          combined \<leftarrow> fold (\<lambda>k c. expr_combine T_AND c (Some (es_expr k))) grp (Some (es_expr x));
          if length (andor combined) \<le> 1 then None else crush_cmps combined symbol
        })"

function sort_loop :: "expr_sort list \<Rightarrow> expr option \<Rightarrow> expr option option" where
  "sort_loop [] expr = Some expr"
| "sort_loop (x # xs) expr =
     (case es_symbol x of
        Some symbol \<Rightarrow>
          let grp = takeWhile (\<lambda>y. es_symbol y = Some symbol) xs;
              rest = dropWhile (\<lambda>y. es_symbol y = Some symbol) xs in
          (case sort_group x grp symbol of
             None \<Rightarrow> None
           | Some (Boolean b) \<Rightarrow> (if \<not> b then Some (Some (Boolean b)) else sort_loop rest expr)
           | Some crushed \<Rightarrow> sort_loop rest (expr_combine T_AND expr (Some crushed)))
      | None \<Rightarrow> sort_loop xs (expr_combine T_AND expr (Some (es_expr x))))"
  by pat_completeness auto
termination
  by (relation "measure (length \<circ> fst)") (auto simp: le_imp_less_Suc length_dropWhile_le)

definition expr_sort :: "expr list \<Rightarrow> expr option" where
  "expr_sort es =
     do {
       expr \<leftarrow> sort_loop (qsort_by compare_expr_sort (map make_sort es)) None;
       Some (case expr of None \<Rightarrow> Boolean True | Some e \<Rightarrow> e)
     }"

text \<open>
  The loop over adjacent comparisons of \<open>expr_normalize_and\<close>; \<open>None\<close> when two of them contradict each
  other.
\<close>

fun merge_adjacent :: "expr list \<Rightarrow> expr list option" where
  "merge_adjacent (Cmp a # Cmp b # es) =
     (if cmp_symbol a \<noteq> cmp_symbol b then map_option (Cons (Cmp a)) (merge_adjacent (Cmp b # es))
      else if sym_width (cmp_symbol a) \<noteq> 0 then
        (case mf_subvalue_intersect (cmp_value a, cmp_mask a) (cmp_value b, cmp_mask b) of
           None \<Rightarrow> None
         | Some (v, m) \<Rightarrow> merge_adjacent (Cmp (b\<lparr>cmp_value := v, cmp_mask := m\<rparr>) # es))
      else if strcmp (cmp_string a) (cmp_string b) = 0 then merge_adjacent (Cmp b # es)
      else None)"
| "merge_adjacent (e # es) = map_option (Cons e) (merge_adjacent es)"
| "merge_adjacent [] = Some []"

text \<open>
  The loop that looks for an OR to distribute over: \<open>None\<close> for a failed assertion, otherwise the
  list around the first such OR, if any.
\<close>

fun cross_split :: "expr list \<Rightarrow> expr list \<Rightarrow> (expr list \<times> expr \<times> expr list) option option" where
  "cross_split pre [] = Some None"
| "cross_split pre (sub # post) =
     (if expr_type_of sub = T_CMP \<or> expr_type_of sub = T_CONDITION then cross_split (pre @ [sub]) post
      else if expr_type_of sub \<noteq> T_OR then None
      else case expr_get_unique_symbol sub of
        None \<Rightarrow> Some (Some (pre, sub, post))
      | Some symbol \<Rightarrow>
          (if must_crossproduct symbol then Some (Some (pre, sub, post))
           else cross_split (pre @ [sub]) post))"

definition cross_term :: "expr \<Rightarrow> expr list" where
  "cross_term term' =
     (if expr_type_of term' = T_AND then map expr_clone (andor term') else [expr_clone term'])"

definition cross_product :: "expr list \<Rightarrow> expr \<Rightarrow> expr list \<Rightarrow> expr list" where
  "cross_product pre sub post =
     map (\<lambda>k. And (concat (map cross_term pre) @ cross_term k @ concat (map cross_term post))) (andor sub)"

text \<open>The loop of \<open>expr_normalize_or\<close>; \<open>Inl\<close> is the early return.\<close>

primrec normalize_or_loop :: "(expr list \<Rightarrow> expr option) \<Rightarrow> expr list \<Rightarrow> (expr + expr list) option" where
  "normalize_or_loop normalize_and [] = Some (Inr [])"
| "normalize_or_loop normalize_and (sub # es) =
     (case sub of
        And ss \<Rightarrow>
          do {
            new \<leftarrow> normalize_and ss;
            case new of
              Boolean b \<Rightarrow> (if b then Some (Inl new) else normalize_or_loop normalize_and es)
            | _ \<Rightarrow> do {
                r \<leftarrow> normalize_or_loop normalize_and es;
                Some (map_sum id (\<lambda>es'. expr_insert_andor T_OR new @ es') r)
              }
          }
      | Cmp _ \<Rightarrow> map_option (map_sum id (Cons sub)) (normalize_or_loop normalize_and es)
      | Condition _ _ \<Rightarrow> map_option (map_sum id (Cons sub)) (normalize_or_loop normalize_and es)
      | _ \<Rightarrow> None)"

definition expr_normalize_or :: "(expr list \<Rightarrow> expr option) \<Rightarrow> expr list \<Rightarrow> expr option" where
  "expr_normalize_or normalize_and es =
     do {
       r \<leftarrow> normalize_or_loop normalize_and es;
       Some (case r of
         Inl e \<Rightarrow> e
       | Inr [] \<Rightarrow> Boolean False
       | Inr [e] \<Rightarrow> e
       | Inr es' \<Rightarrow> Or es')
     }"

primrec expr_normalize_and :: "nat \<Rightarrow> expr list \<Rightarrow> expr option" where
  "expr_normalize_and 0 es = None"
| "expr_normalize_and (Suc fuel) es =
     do {
       expr \<leftarrow> expr_sort es;
       case expr of
         And ss \<Rightarrow>
           (case merge_adjacent ss of
              None \<Rightarrow> Some (Boolean False)
            | Some [] \<Rightarrow> None
            | Some [sub] \<Rightarrow> Some sub
            | Some ss' \<Rightarrow>
                do {
                  split \<leftarrow> cross_split [] ss';
                  case split of
                    None \<Rightarrow> Some (And ss')
                  | Some (pre, sub, post) \<Rightarrow>
                      expr_normalize_or (expr_normalize_and fuel) (cross_product pre sub post)
                })
       | _ \<Rightarrow> Some expr
     }"

fun count_or :: "expr \<Rightarrow> nat" where
  "count_or (And es) = sum_list (map count_or es)"
| "count_or (Or es) = Suc (sum_list (map count_or es))"
| "count_or e = 0"

definition expr_normalize :: "expr \<Rightarrow> expr option" where
  "expr_normalize expr =
     (case expr of
        Cmp c \<Rightarrow> Some expr
      | And es \<Rightarrow> expr_normalize_and (Suc (count_or expr)) es
      | Or es \<Rightarrow> expr_normalize_or (expr_normalize_and (Suc (count_or expr))) es
      | Boolean b \<Rightarrow> Some expr
      | Condition _ _ \<Rightarrow> None)"

definition expr_is_normalized_and :: "expr \<Rightarrow> bool" where
  "expr_is_normalized_and expr = (\<forall>sub \<in> set (andor expr). expr_get_unique_symbol sub \<noteq> None)"

definition expr_is_normalized :: "expr \<Rightarrow> bool" where
  "expr_is_normalized expr =
     (case expr of
        Cmp c \<Rightarrow> True
      | And es \<Rightarrow> expr_is_normalized_and expr
      | Or es \<Rightarrow>
         (if expr_get_unique_symbol expr = None
          then \<forall>sub \<in> set es. \<not> (expr_get_unique_symbol sub = None \<and> \<not> expr_is_normalized_and sub)
          else True)
      | Boolean b \<Rightarrow> True
      | Condition _ _ \<Rightarrow> False)"

section \<open>Unique symbols\<close>

lemma expr_clone_id [simp]: "expr_clone e = e"
  by (induction e) (auto simp: map_idI)

lemma cross_term_insert: "cross_term t = expr_insert_andor T_AND t"
  by (simp add: cross_term_def expr_insert_andor_def map_idI)

lemma unique_symbol_cmps_aux:
  "expr_get_unique_symbol e = Some s \<Longrightarrow> \<forall>c \<in> cmps_of e. cmp_symbol c = s"
  "unique_symbol_loop prev es = Some s \<Longrightarrow>
     (\<forall>e \<in> set es. \<forall>c \<in> cmps_of e. cmp_symbol c = s) \<and> (prev = None \<or> prev = Some s)"
proof (induction e and prev es rule: expr_get_unique_symbol_unique_symbol_loop.induct)
  case (7 prev e es)
  obtain t where t: "expr_get_unique_symbol e = Some t" "prev = None \<or> Some t = prev"
    "unique_symbol_loop (Some t) es = Some s"
    using 7(3) by (auto split: option.splits if_splits)
  with 7(2) [OF t(1)] 7(1) show ?case by (auto split: if_splits)
qed auto

lemmas unique_symbol_cmps = unique_symbol_cmps_aux(1)

lemma unique_symbol_map_Cmp:
  "\<forall>c \<in> set cs. cmp_symbol c = s \<Longrightarrow> prev = Some s \<or> prev = None \<and> cs \<noteq> [] \<Longrightarrow>
     unique_symbol_loop prev (map Cmp cs) = Some s"
  by (induction cs arbitrary: prev) auto

lemma unique_symbol_or_form: "or_form X s e \<Longrightarrow> expr_get_unique_symbol e = Some s"
  by (auto simp: or_form_def ok_cmps_def intro!: unique_symbol_map_Cmp)

section \<open>The order of the subexpressions\<close>

definition sort_ok :: "expr_sort \<Rightarrow> bool" where
  "sort_ok x \<longleftrightarrow> (es_symbol x \<noteq> None) = (es_type x = T_CMP)"

lemma sort_ok_make_sort [simp]: "sort_ok (make_sort e)"
  by (cases e) (auto simp: sort_ok_def make_sort_def)

lemma type_num_inj [simp]: "type_num a = type_num b \<longleftrightarrow> a = b"
  by (cases a; cases b) auto

lemma compare_expr_sort_le:
  assumes "sort_ok a" "sort_ok b"
  shows "compare_expr_sort a b \<le> 0 \<longleftrightarrow>
    type_num (es_type a) < type_num (es_type b) \<or> es_type a = es_type b \<and>
      (if es_type a = T_CMP then strcmp (sym_name (the (es_symbol a))) (sym_name (the (es_symbol b))) \<le> 0
       else if es_type a = T_AND \<or> es_type a = T_OR
       then length (andor (es_expr a)) \<le> length (andor (es_expr b)) else True)"
proof (cases "es_type a = es_type b")
  case False
  then show ?thesis using type_num_inj [of "es_type a" "es_type b"] by (simp add: compare_expr_sort_def)
next
  case True
  show ?thesis
  proof (cases "es_type a = T_CMP")
    case cmp: True
    then obtain s t where "es_symbol a = Some s" "es_symbol b = Some t"
      using assms True by (auto simp: sort_ok_def)
    with True cmp show ?thesis by (simp add: compare_expr_sort_def Let_def)
  next
    case False
    then have "es_symbol a = None" using assms by (auto simp: sort_ok_def)
    with True False show ?thesis by (simp add: compare_expr_sort_def three_way_def)
  qed
qed

interpretation sorts: qsort_order compare_expr_sort sort_ok
proof
  fix a b c
  assume ok: "sort_ok a" "sort_ok b"
  show "compare_expr_sort a b \<le> 0 \<or> compare_expr_sort b a \<le> 0"
  proof (cases "es_type a = es_type b")
    case True
    then show ?thesis
      using strcmp_total [of "sym_name (the (es_symbol a))" "sym_name (the (es_symbol b))"]
      by (auto simp: compare_expr_sort_le ok)
  next
    case False
    then have "type_num (es_type a) < type_num (es_type b) \<or> type_num (es_type b) < type_num (es_type a)"
      using type_num_inj nat_neq_iff by blast
    then show ?thesis by (simp only: compare_expr_sort_le ok) blast
  qed
  assume ok': "sort_ok c" and le: "compare_expr_sort a b \<le> 0" "compare_expr_sort b c \<le> 0"
  have num: "type_num (es_type a) \<le> type_num (es_type b)" "type_num (es_type b) \<le> type_num (es_type c)"
    using le ok ok' by (auto simp: compare_expr_sort_le)
  show "compare_expr_sort a c \<le> 0"
  proof (cases "type_num (es_type a) < type_num (es_type c)")
    case True
    then show ?thesis by (simp only: compare_expr_sort_le ok ok') blast
  next
    case False
    then have "type_num (es_type a) = type_num (es_type b)" "type_num (es_type b) = type_num (es_type c)"
      using num by linarith+
    then have "es_type a = es_type c" "es_type b = es_type c" by (simp_all only: type_num_inj)
    with le show ?thesis
      using strcmp_trans [of "sym_name (the (es_symbol a))" "sym_name (the (es_symbol b))"]
      by (simp add: compare_expr_sort_le ok ok' split: if_splits)
  qed
qed

text \<open>Once a run of one symbol is over, the symbol does not occur any more.\<close>

lemma sorted_run_over:
  assumes "sorted_wrt (\<lambda>a b. compare_expr_sort a b \<le> 0) (x # xs)" "\<forall>y \<in> set (x # xs). sort_ok y"
    and "es_symbol x = Some s"
    and uniq: "\<And>y t. y \<in> set xs \<Longrightarrow> es_symbol y = Some t \<Longrightarrow> sym_name t = sym_name s \<Longrightarrow> t = s"
    and y: "y \<in> set (dropWhile (\<lambda>y. es_symbol y = Some s) xs)"
  shows "es_symbol y \<noteq> Some s"
proof
  assume sy: "es_symbol y = Some s"
  obtain z zs where d: "dropWhile (\<lambda>y. es_symbol y = Some s) xs = z # zs"
    using y by (cases "dropWhile (\<lambda>y. es_symbol y = Some s) xs") auto
  then have z: "z \<in> set xs" "es_symbol z \<noteq> Some s"
    using hd_dropWhile [of "\<lambda>y. es_symbol y = Some s" xs] set_dropWhileD [of z "\<lambda>y. es_symbol y = Some s" xs]
    by auto
  have sorted: "sorted_wrt (\<lambda>a b. compare_expr_sort a b \<le> 0) (z # zs)"
    using assms(1) sorted_wrt_append [of _ "takeWhile (\<lambda>y. es_symbol y = Some s) xs" "z # zs"]
      takeWhile_dropWhile_id [of "\<lambda>y. es_symbol y = Some s" xs] d by simp
  have "y \<in> set zs" using y d z(2) sy by auto
  then have le: "compare_expr_sort x z \<le> 0" "compare_expr_sort z y \<le> 0" and yx: "y \<in> set xs"
    using assms(1) z(1) sorted set_dropWhileD [OF y] by auto
  have ok: "sort_ok x" "sort_ok z" "sort_ok y" using assms(2) z(1) yx by auto
  have t: "es_type x = T_CMP" "es_type y = T_CMP" using ok assms(3) sy by (auto simp: sort_ok_def)
  then have tz: "es_type z = T_CMP" using le(2) ok by (auto simp: compare_expr_sort_le)
  then obtain t where "es_symbol z = Some t" using ok(2) by (auto simp: sort_ok_def)
  moreover from this have "strcmp (sym_name s) (sym_name t) \<le> 0" "strcmp (sym_name t) (sym_name s) \<le> 0"
    using le ok t tz assms(3) sy by (auto simp: compare_expr_sort_le)
  then have "sym_name t = sym_name s"
    using strcmp_antisym_sign [of "sym_name s" "sym_name t"] strcmp_eq_0 [of "sym_name s" "sym_name t"] by auto
  ultimately show False using uniq z by blast
qed

section \<open>Lists of operands\<close>

text \<open>The expression that \<open>expr_combine\<close> builds up from the operands \<open>L\<close>.\<close>

definition acc_of :: "expr list \<Rightarrow> expr option" where
  "acc_of L = (case L of [] \<Rightarrow> None | [x] \<Rightarrow> Some x | _ \<Rightarrow> Some (And L))"

lemma acc_of_snoc:
  assumes "\<forall>e \<in> set (L @ [x]). expr_type_of e \<noteq> T_AND"
  shows "expr_combine T_AND (acc_of L) (Some x) = acc_of (L @ [x])"
  using assms by (cases L rule: remdups_adj.cases) (auto simp: acc_of_def expr_combine_def expr_create_andor_def)

lemma fold_combine_acc_of:
  assumes "\<forall>e \<in> set (L @ map g xs). expr_type_of e \<noteq> T_AND"
  shows "fold (\<lambda>k c. expr_combine T_AND c (Some (g k))) xs (acc_of L) = acc_of (L @ map g xs)"
  using assms
proof (induction xs arbitrary: L)
  case (Cons x xs)
  then have "expr_combine T_AND (acc_of L) (Some (g x)) = acc_of (L @ [g x])" by (intro acc_of_snoc) auto
  with Cons.IH [of "L @ [g x]"] Cons.prems show ?case by simp
qed simp

text \<open>Operands as they come in (\<open>in_elem\<close>), and after they have been sorted and crushed (\<open>out_elem\<close>).\<close>

definition in_elem :: "expr_symbol set \<Rightarrow> expr_symbol set \<Rightarrow> expr \<Rightarrow> bool" where
  "in_elem X S x \<longleftrightarrow> tree False x \<and> expr_type_of x \<noteq> T_AND \<and> (\<forall>c \<in> cmps_of x. eq_cmp X c \<and> cmp_symbol c \<in> S)"

definition out_elem :: "expr_symbol set \<Rightarrow> expr_symbol set \<Rightarrow> expr \<Rightarrow> bool" where
  "out_elem X S x \<longleftrightarrow> in_elem X S x \<and>
     (expr_type_of x = T_OR \<longrightarrow> (\<forall>s. expr_get_unique_symbol x = Some s \<longrightarrow> or_form X s x))"

lemma in_elem_type: "in_elem X S x \<Longrightarrow> expr_type_of x = T_CMP \<or> expr_type_of x = T_OR"
  by (cases x) (auto simp: in_elem_def)

section \<open>Sorting and crushing\<close>

lemma tree_no_or: "tree False e \<Longrightarrow> count_or e = 0 \<Longrightarrow> (\<exists>c. e = Cmp c) \<or> (\<exists>cs. e = And (map Cmp cs) \<and> 2 \<le> length cs)"
proof (cases e)
  case (And es)
  assume *: "tree False e" "count_or e = 0"
  have "\<exists>c. x = Cmp c" if "x \<in> set es" for x
    using * that And by (cases x) (force simp: sum_list_eq_0_iff)+
  then have "\<exists>cs. es = map Cmp cs" by (auto simp: ex_map_conv)
  with * And show ?thesis by auto
qed auto

lemma crush_and_string_no_or:
  assumes "0 < N" "cs \<noteq> [] \<or> single \<noteq> None"
  shows "crush_and_string_loop (crush_cmps_fuel N sy) (map Cmp cs) single [] = Some x \<Longrightarrow>
    x = Inl (Boolean False) \<or> (\<exists>c. x = Inr (Some c, []))"
  using assms(2)
proof (induction cs arbitrary: single)
  case (Cons c cs)
  then show ?case using crush.crush_Cmp [OF assms(1), of sy] by (auto split: option.splits if_splits)
qed auto

lemma crush_and_numeric_no_or:
  assumes "0 < N"
  shows "crush_and_numeric_loop (crush_cmps_fuel N sy) (map Cmp cs) vm [] = Some x \<Longrightarrow>
    x = Inl (Boolean False) \<or> (\<exists>vm'. x = Inr (vm', []))"
proof (induction cs arbitrary: vm)
  case (Cons c cs)
  then show ?case using crush.crush_Cmp [OF assms(1), of sy] by (auto split: option.splits if_splits)
qed auto

lemma crush_no_or:
  assumes "tree False e" "count_or e = 0" "crush_cmps e sy = Some e'"
  shows "count_or e' = 0"
  using tree_no_or [OF assms(1,2)]
proof
  assume "\<exists>cs. e = And (map Cmp cs) \<and> 2 \<le> length cs"
  then obtain cs where cs: "e = And (map Cmp cs)" "2 \<le> length cs" by blast
  have fuel: "crush_fuel e = Suc 0" by (simp add: cs(1) sum_list_eq_0_iff)
  have c: "crush_cmps_fuel (Suc (Suc 0)) sy e = Some e'" using assms(3) unfolding crush_cmps_def fuel .
  show ?thesis
  proof (cases "sym_width sy = 0")
    case True
    then have "crush_and_string (crush_cmps_fuel (Suc 0) sy) (map Cmp cs) sy = Some e'"
      using c by (simp add: cs(1) crush_cmps_fuel.simps(2) [of "Suc 0"] del: crush_cmps_fuel.simps)
    moreover have "cs \<noteq> []" using cs(2) by auto
    ultimately show ?thesis
      using crush_and_string_no_or [of "Suc 0" cs None sy] cs(2)
      by (auto simp: crush_and_string_def bind_eq_Some_conv simp del: crush_cmps_fuel.simps split: if_splits)
  next
    case False
    then have "crush_and_numeric (crush_cmps_fuel (Suc 0) sy) (map Cmp cs) sy = Some e'"
      using c by (simp add: cs(1) crush_cmps_fuel.simps(2) [of "Suc 0"] del: crush_cmps_fuel.simps)
    then show ?thesis
      using crush_and_numeric_no_or [of "Suc 0" sy cs "(0, 0)"] cs(2)
      by (auto simp: crush_and_numeric_def bind_eq_Some_conv simp del: crush_cmps_fuel.simps split: if_splits)
  qed
qed (use assms(3) in \<open>auto simp: crush_cmps_def\<close>)

lemma count_or_form: "or_form X s e \<Longrightarrow> count_or e = 1"
  by (auto simp: or_form_def sum_list_eq_0_iff)

text \<open>What becomes of the subexpressions on one symbol.\<close>

lemma crush_group:
  assumes "crush_in X s e" "s \<in> S"
  obtains (false) "crush_cmps e s = Some (Boolean False)" "same_ev (Boolean False) e"
  | (elem) x where "crush_cmps e s = Some x" "out_elem X S x" "expr_get_unique_symbol x = Some s"
      "count_or x \<le> count_or e" "same_ev x e"
proof -
  obtain x where x: "crush_cmps e s = Some x" "crush_out X s x" "same_ev x e" using crush_cmps_ok [OF assms(1)] by blast
  have no: "count_or x = 0" if "count_or e = 0"
    using crush_no_or [OF _ that x(1)] assms(1) by (simp add: crush_in_def)
  from x(2) consider "x = Boolean False" | c where "x = Cmp c" "eq_cmp X c" "cmp_symbol c = s" | "or_form X s x"
    by (auto simp: crush_out_def)
  then show ?thesis
  proof cases
    case 1
    with x false show ?thesis by simp
  next
    case 2
    with x elem [of x] assms(2) show ?thesis by (simp add: out_elem_def in_elem_def)
  next
    case 3
    have "1 \<le> count_or e" using no count_or_form [OF 3] by (cases "count_or e") auto
    with 3 x elem [of x] or_form_in [OF 3] unique_symbol_or_form [OF 3] count_or_form [OF 3] assms(2)
    show ?thesis by (simp add: out_elem_def in_elem_def crush_in_def)
  qed
qed

definition sub_ok :: "expr_symbol set \<Rightarrow> expr_symbol set \<Rightarrow> expr_sort \<Rightarrow> bool" where
  "sub_ok X S y \<longleftrightarrow> y = make_sort (es_expr y) \<and> in_elem X S (es_expr y)"

lemma sub_okD:
  assumes "sub_ok X S y"
  shows "in_elem X S (es_expr y)" "es_symbol y = expr_get_unique_symbol (es_expr y)" "sort_ok y"
    and "es_symbol y = Some s \<Longrightarrow> crush_in X s (es_expr y) \<and> s \<in> S"
proof -
  have y: "y = make_sort (es_expr y)" "in_elem X S (es_expr y)" using assms by (auto simp: sub_ok_def)
  show "in_elem X S (es_expr y)" by (rule y)
  have "es_symbol (make_sort e) = expr_get_unique_symbol e" for e by (simp add: make_sort_def)
  then show sym: "es_symbol y = expr_get_unique_symbol (es_expr y)" using y(1) by metis
  show "sort_ok y" using y(1) sort_ok_make_sort by metis
  show "crush_in X s (es_expr y) \<and> s \<in> S" if "es_symbol y = Some s"
  proof -
    have "\<forall>c \<in> cmps_of (es_expr y). cmp_symbol c = s" using that sym unique_symbol_cmps by simp
    moreover have "cmps_of (es_expr y) \<noteq> {}" using y(2) by (intro tree_cmps_nonempty) (simp add: in_elem_def)
    ultimately show ?thesis using y(2) by (auto simp: crush_in_def in_elem_def)
  qed
qed

lemma sort_group_cases:
  assumes "es_symbol x = Some s" "\<forall>y \<in> set grp. es_symbol y = Some s" "\<forall>y \<in> set (x # grp). sub_ok X S y"
  obtains (false) "sort_group x grp s = Some (Boolean False)"
    "\<And>f lp r. inj_ports lp \<Longrightarrow> \<not> (\<forall>y \<in> set (x # grp). ev (cmp_sat f lp) r (es_expr y))"
  | (elem) z where "sort_group x grp s = Some z" "out_elem X S z" "expr_get_unique_symbol z = Some s"
    "count_or z \<le> sum_list (map (count_or \<circ> es_expr) (x # grp))"
    "\<And>f lp r. inj_ports lp \<Longrightarrow> ev (cmp_sat f lp) r z = (\<forall>y \<in> set (x # grp). ev (cmp_sat f lp) r (es_expr y))"
proof -
  define e where "e = (if grp = [] then es_expr x else And (map es_expr (x # grp)))"
  have sub: "crush_in X s (es_expr y)" "expr_type_of (es_expr y) \<noteq> T_AND" "s \<in> S" if "y \<in> set (x # grp)" for y
    using that assms sub_okD [of X S y] by (auto simp: in_elem_def)
  have "fold (\<lambda>k c. expr_combine T_AND c (Some (es_expr k))) grp (acc_of [es_expr x]) = acc_of (map es_expr (x # grp))"
    using fold_combine_acc_of [of "[es_expr x]" es_expr grp] sub(2) by auto
  then have "fold (\<lambda>k c. expr_combine T_AND c (Some (es_expr k))) grp (Some (es_expr x)) = Some e"
    by (cases grp) (auto simp: acc_of_def e_def)
  then have group: "sort_group x grp s = crush_cmps e s"
    by (cases grp) (auto simp: sort_group_def e_def)
  have e: "crush_in X s e" using sub by (auto simp: e_def crush_in_def Suc_le_eq)
  have ev: "ev (cmp_sat f lp) r e = (\<forall>y \<in> set (x # grp). ev (cmp_sat f lp) r (es_expr y))" for f lp r
    by (simp add: e_def)
  have cnt: "count_or e = sum_list (map (count_or \<circ> es_expr) (x # grp))" by (simp add: e_def comp_def)
  have "s \<in> S" using sub(3) [of x] by simp
  with e show ?thesis
  proof (cases rule: crush_group)
    case false
    then show ?thesis using that(1) group same_evD [OF false(2)] by (metis ev ev.simps(4))
  next
    case (elem z)
    then show ?thesis using that(2) [of z] group cnt same_evD [OF elem(5)] ev by simp
  qed
qed

text \<open>The result of the loop on the subexpressions \<open>ys\<close>.\<close>

definition sorted_to :: "expr_symbol set \<Rightarrow> expr_symbol set \<Rightarrow> expr_sort list \<Rightarrow> expr list \<Rightarrow> bool" where
  "sorted_to X S ys L \<longleftrightarrow> (\<forall>x \<in> set L. out_elem X S x) \<and>
     sum_list (map count_or L) \<le> sum_list (map (count_or \<circ> es_expr) ys) \<and>
     (\<forall>f lp r. inj_ports lp \<longrightarrow>
        (\<forall>x \<in> set L. ev (cmp_sat f lp) r x) = (\<forall>y \<in> set ys. ev (cmp_sat f lp) r (es_expr y))) \<and>
     distinct (List.map_filter expr_get_unique_symbol L) \<and>
     Some ` set (List.map_filter expr_get_unique_symbol L) \<subseteq> es_symbol ` set ys \<and>
     (ys \<noteq> [] \<longrightarrow> L \<noteq> []) \<and>
     (\<forall>x. L = [x] \<longrightarrow> 2 \<le> length ys \<longrightarrow> expr_get_unique_symbol x \<noteq> None)"

lemma map_filter_Cons:
  "List.map_filter g (x # xs) = (case g x of None \<Rightarrow> [] | Some y \<Rightarrow> [y]) @ List.map_filter g xs"
  by (simp add: List.map_filter_def split: option.split)

lemma sorted_to_cons:
  assumes "out_elem X S z" "expr_get_unique_symbol z = None \<or> expr_get_unique_symbol z \<in> es_symbol ` set g"
    and "count_or z \<le> sum_list (map (count_or \<circ> es_expr) g)" "g \<noteq> []"
    and "\<And>f lp r. inj_ports lp \<Longrightarrow> ev (cmp_sat f lp) r z = (\<forall>y \<in> set g. ev (cmp_sat f lp) r (es_expr y))"
    and "\<And>y. y \<in> set rest \<Longrightarrow> expr_get_unique_symbol z \<noteq> None \<Longrightarrow> es_symbol y \<noteq> expr_get_unique_symbol z"
    and "expr_get_unique_symbol z = None \<Longrightarrow> length g = 1"
    and L: "sorted_to X S rest L"
  shows "sorted_to X S (g @ rest) (z # L)"
proof -
  have "distinct (List.map_filter expr_get_unique_symbol (z # L))"
    "Some ` set (List.map_filter expr_get_unique_symbol (z # L)) \<subseteq> es_symbol ` set (g @ rest)"
    using L assms(2,6) unfolding sorted_to_def map_filter_Cons by (auto split: option.splits)
  moreover have "(\<forall>x \<in> set (z # L). ev (cmp_sat f lp) r x) = (\<forall>y \<in> set (g @ rest). ev (cmp_sat f lp) r (es_expr y))"
    if "inj_ports lp" for f lp r
    using L assms(5) [OF that] that unfolding sorted_to_def by auto
  moreover have "sum_list (map count_or (z # L)) \<le> sum_list (map (count_or \<circ> es_expr) (g @ rest))"
    using L assms(3) unfolding sorted_to_def by (simp add: add_mono)
  moreover have "expr_get_unique_symbol z \<noteq> None" if "L = []" "2 \<le> length (g @ rest)"
    using L that assms(7) unfolding sorted_to_def by (cases rest) auto
  ultimately show ?thesis using L assms(1) unfolding sorted_to_def by simp
qed

lemma sort_loop_ok:
  assumes "\<forall>y \<in> set ys. sub_ok X S y" "inj_on sym_name S"
    and "sorted_wrt (\<lambda>a b. compare_expr_sort a b \<le> 0) ys" "\<forall>e \<in> set L. expr_type_of e \<noteq> T_AND"
  shows "(sort_loop ys (acc_of L) = Some (Some (Boolean False)) \<and>
       (\<forall>f lp r. inj_ports lp \<longrightarrow> \<not> (\<forall>y \<in> set ys. ev (cmp_sat f lp) r (es_expr y)))) \<or>
    (\<exists>L'. sort_loop ys (acc_of L) = Some (acc_of (L @ L')) \<and> sorted_to X S ys L')"
  using assms
proof (induction "length ys" arbitrary: ys L rule: less_induct)
  case less
  show ?case
  proof (cases ys)
    case Nil
    then show ?thesis by (auto simp: sorted_to_def List.map_filter_def intro: exI [of _ "[]"])
  next
    case (Cons x xs)
    show ?thesis
    proof (cases "es_symbol x")
      case None
      let ?e = "es_expr x"
      have x: "out_elem X S ?e" "expr_get_unique_symbol ?e = None" "expr_type_of ?e \<noteq> T_AND"
        using less.prems(1) Cons None sub_okD [of X S x] by (auto simp: out_elem_def in_elem_def)
      have acc: "expr_combine T_AND (acc_of L) (Some ?e) = acc_of (L @ [?e])"
        using less.prems(4) x(3) by (intro acc_of_snoc) auto
      have "(sort_loop xs (acc_of (L @ [?e])) = Some (Some (Boolean False)) \<and>
           (\<forall>f lp r. inj_ports lp \<longrightarrow> \<not> (\<forall>y \<in> set xs. ev (cmp_sat f lp) r (es_expr y)))) \<or>
        (\<exists>L'. sort_loop xs (acc_of (L @ [?e])) = Some (acc_of ((L @ [?e]) @ L')) \<and> sorted_to X S xs L')"
        by (rule less.hyps) (use less.prems x(3) Cons in auto)
      then show ?thesis
      proof
        assume "\<exists>L'. sort_loop xs (acc_of (L @ [?e])) = Some (acc_of ((L @ [?e]) @ L')) \<and> sorted_to X S xs L'"
        then obtain L' where L': "sort_loop xs (acc_of (L @ [?e])) = Some (acc_of ((L @ [?e]) @ L'))"
          "sorted_to X S xs L'" by blast
        have "sorted_to X S ([x] @ xs) (?e # L')"
          by (rule sorted_to_cons [OF x(1) _ _ _ _ _ _ L'(2)]) (simp_all add: x(2))
        then have "sorted_to X S ys (?e # L')" using Cons by simp
        then show ?thesis using L'(1) acc Cons None by (auto intro: exI [of _ "?e # L'"])
      qed (use acc Cons None in auto)
    next
      case (Some s)
      let ?P = "\<lambda>y. es_symbol y = Some s"
      let ?grp = "takeWhile ?P xs" and ?rest = "dropWhile ?P xs"
      have xs: "set xs = set ?grp \<union> set ?rest" by (metis set_append takeWhile_dropWhile_id)
      have grp: "\<forall>y \<in> set ?grp. ?P y" "\<forall>y \<in> set (x # ?grp). sub_ok X S y"
        using less.prems(1) Cons by (auto dest: set_takeWhileD)
      from Some grp show ?thesis
      proof (cases rule: sort_group_cases)
        case false
        have "set (x # ?grp) \<subseteq> set ys" using Cons xs by auto
        then have "\<not> (\<forall>y \<in> set ys. ev (cmp_sat f lp) r (es_expr y))" if "inj_ports lp" for f lp r
          using false(2) [OF that, of f r] by blast
        moreover have "sort_loop ys (acc_of L) = Some (Some (Boolean False))"
          using Cons Some false(1) by (simp add: Let_def)
        ultimately show ?thesis by blast
      next
        case (elem z)
        have z: "expr_type_of z \<noteq> T_AND" "\<And>b. z \<noteq> Boolean b" using elem(2) by (auto simp: out_elem_def in_elem_def)
        have acc: "expr_combine T_AND (acc_of L) (Some z) = acc_of (L @ [z])"
          using less.prems(4) z(1) by (intro acc_of_snoc) auto
        have step: "sort_loop ys (acc_of L) = sort_loop ?rest (acc_of (L @ [z]))"
          using Cons Some elem(1) acc z(2) by (auto simp: Let_def split: expr.splits)
        have sorted: "sorted_wrt (\<lambda>a b. compare_expr_sort a b \<le> 0) ?rest"
          using less.prems(3) Cons by (metis sorted_wrt.simps(2) sorted_wrt_append takeWhile_dropWhile_id)
        have over: "es_symbol y \<noteq> Some s" if y: "y \<in> set ?rest" for y
        proof (rule sorted_run_over [of x xs, OF _ _ Some _ y])
          show "sorted_wrt (\<lambda>a b. compare_expr_sort a b \<le> 0) (x # xs)" using less.prems(3) Cons by simp
          show "\<forall>y \<in> set (x # xs). sort_ok y" using less.prems(1) Cons sub_okD(3) by auto
          show "t = s" if "y \<in> set xs" "es_symbol y = Some t" "sym_name t = sym_name s" for y t
            using that less.prems(1,2) Cons Some sub_okD(4) [of X S y t] sub_okD(4) [of X S x s]
            by (auto dest: inj_onD)
        qed
        have "(sort_loop ?rest (acc_of (L @ [z])) = Some (Some (Boolean False)) \<and>
             (\<forall>f lp r. inj_ports lp \<longrightarrow> \<not> (\<forall>y \<in> set ?rest. ev (cmp_sat f lp) r (es_expr y)))) \<or>
          (\<exists>L'. sort_loop ?rest (acc_of (L @ [z])) = Some (acc_of ((L @ [z]) @ L')) \<and> sorted_to X S ?rest L')"
          by (rule less.hyps)
            (use less.prems z(1) Cons xs sorted in \<open>auto simp: le_imp_less_Suc length_dropWhile_le\<close>)
        then show ?thesis
        proof
          assume "\<exists>L'. sort_loop ?rest (acc_of (L @ [z])) = Some (acc_of ((L @ [z]) @ L')) \<and> sorted_to X S ?rest L'"
          then obtain L' where L': "sort_loop ?rest (acc_of (L @ [z])) = Some (acc_of ((L @ [z]) @ L'))"
            "sorted_to X S ?rest L'" by blast
          have "sorted_to X S ((x # ?grp) @ ?rest) (z # L')"
          proof (rule sorted_to_cons)
            show "expr_get_unique_symbol z = None \<or> expr_get_unique_symbol z \<in> es_symbol ` set (x # ?grp)"
              unfolding elem(3) using Some by (simp add: image_iff)
            show "es_symbol y \<noteq> expr_get_unique_symbol z" if "y \<in> set ?rest" for y
              unfolding elem(3) using over [OF that] .
            show "length (x # ?grp) = 1" if "expr_get_unique_symbol z = None" using that elem(3) by simp
            show "x # ?grp \<noteq> []" by simp
          qed (rule elem(2), rule elem(4), erule elem(5), rule L'(2))
          then have "sorted_to X S ys (z # L')" using Cons by simp
          then show ?thesis using L'(1) step by (auto intro: exI [of _ "z # L'"])
        next
          assume *: "sort_loop ?rest (acc_of (L @ [z])) = Some (Some (Boolean False)) \<and>
             (\<forall>f lp r. inj_ports lp \<longrightarrow> \<not> (\<forall>y \<in> set ?rest. ev (cmp_sat f lp) r (es_expr y)))"
          have "set ?rest \<subseteq> set ys" unfolding Cons using xs by auto
          with * show ?thesis unfolding step by blast
        qed
      qed
    qed
  qed
qed

text \<open>What \<open>expr_sort\<close> leaves: false, a single crushed expression, or a conjunction of operands.\<close>

definition conj_in :: "expr_symbol set \<Rightarrow> expr_symbol set \<Rightarrow> expr list \<Rightarrow> bool" where
  "conj_in X S es \<longleftrightarrow> 2 \<le> length es \<and> (\<forall>e \<in> set es. in_elem X S e)"

lemma expr_sort_cases:
  assumes "conj_in X S es" "inj_on sym_name S"
  obtains (false) "expr_sort es = Some (Boolean False)" "same_ev (Boolean False) (And es)"
  | (single) x s where "expr_sort es = Some x" "out_elem X S x" "expr_get_unique_symbol x = Some s" "same_ev x (And es)"
  | (conj) L where "expr_sort es = Some (And L)" "2 \<le> length L" "\<forall>x \<in> set L. out_elem X S x"
      "distinct (List.map_filter expr_get_unique_symbol L)" "same_ev (And L) (And es)"
      "count_or (And L) \<le> count_or (And es)"
proof -
  let ?ys = "qsort_by compare_expr_sort (map make_sort es)"
  have sub: "\<forall>y \<in> set ?ys. sub_ok X S y"
    using assms(1) by (auto simp: sub_ok_def make_sort_def conj_in_def)
  have sorted: "sorted_wrt (\<lambda>a b. compare_expr_sort a b \<le> 0) ?ys"
    by (rule sorts.qsort_by_sorted) auto
  have exprs: "(\<forall>y \<in> set ?ys. P (es_expr y)) \<longleftrightarrow> (\<forall>e \<in> set es. P e)" for P
    by (auto simp: make_sort_def)
  have cnt: "sum_list (map (count_or \<circ> es_expr) ?ys) = count_or (And es)"
  proof -
    have "mset (map (count_or \<circ> es_expr) ?ys) = mset (map (count_or \<circ> es_expr) (map make_sort es))"
      unfolding mset_map mset_qsort_by ..
    then have "sum_list (map (count_or \<circ> es_expr) ?ys) = sum_list (map (count_or \<circ> es_expr) (map make_sort es))"
      by (metis sum_mset_sum_list)
    then show ?thesis by (simp add: make_sort_def comp_def)
  qed
  have len: "2 \<le> length ?ys" using assms(1) by (simp add: conj_in_def)
  then have ne: "?ys \<noteq> []" by (metis list.size(3) not_numeral_le_zero)
  have acc: "acc_of [] = None" by (simp add: acc_of_def)
  from sort_loop_ok [OF sub assms(2) sorted, of "[]"]
  consider "sort_loop ?ys None = Some (Some (Boolean False))"
      "\<forall>f lp r. inj_ports lp \<longrightarrow> \<not> (\<forall>y \<in> set ?ys. ev (cmp_sat f lp) r (es_expr y))"
    | L where "sort_loop ?ys None = Some (acc_of L)" "sorted_to X S ?ys L"
    unfolding acc by auto
  then show ?thesis
  proof cases
    case 1
    have "same_ev (Boolean False) (And es)"
      using 1(2) unfolding exprs same_ev_def by auto
    with 1(1) that(1) show ?thesis by (simp add: expr_sort_def)
  next
    case (2 L)
    have ev: "inj_ports lp \<Longrightarrow> (\<forall>x \<in> set L. ev (cmp_sat f lp) r x) = ev (cmp_sat f lp) r (And es)" for f lp r
      using 2(2) unfolding sorted_to_def exprs by simp
    have out: "\<forall>x \<in> set L. out_elem X S x" "distinct (List.map_filter expr_get_unique_symbol L)"
      "count_or (And L) \<le> count_or (And es)" "L \<noteq> []"
      using 2(2) ne unfolding sorted_to_def cnt by simp_all
    show ?thesis
    proof (cases L rule: remdups_adj.cases)
      case 1
      with out show ?thesis by simp
    next
      case (2 x)
      have "expr_get_unique_symbol x \<noteq> None"
        using \<open>sorted_to X S ?ys L\<close> len 2 unfolding sorted_to_def by auto
      then obtain s where "expr_get_unique_symbol x = Some s" by auto
      moreover have "same_ev x (And es)" using ev 2 by (simp add: same_ev_def)
      ultimately show ?thesis
        using that(2) [of x s] \<open>sort_loop ?ys None = _\<close> out(1) 2 by (simp add: expr_sort_def acc_of_def)
    next
      case (3 x y zs)
      then have "same_ev (And L) (And es)" using ev by (simp add: same_ev_def)
      then show ?thesis
        using that(3) [of L] \<open>sort_loop ?ys None = _\<close> out 3 by (simp add: expr_sort_def acc_of_def)
    qed
  qed
qed

section \<open>Distributing over a disjunction\<close>

lemma merge_adjacent_id:
  "distinct (List.map_filter expr_get_unique_symbol es) \<Longrightarrow> merge_adjacent es = Some es"
  by (induction es rule: merge_adjacent.induct) (auto simp: map_filter_Cons split: option.splits)

lemma cross_split_ok:
  assumes "\<forall>x \<in> set es. out_elem X S x"
  shows "\<exists>r. cross_split pre es = Some r \<and>
    (case r of
       None \<Rightarrow> \<forall>x \<in> set es. expr_type_of x = T_OR \<longrightarrow> (\<exists>s. expr_get_unique_symbol x = Some s \<and> \<not> must_crossproduct s)
     | Some (p, sub, post) \<Rightarrow> p @ sub # post = pre @ es \<and> sub \<in> set es \<and> expr_type_of sub = T_OR)"
  using assms
proof (induction es arbitrary: pre)
  case (Cons x es)
  have type: "expr_type_of x = T_CMP \<or> expr_type_of x = T_OR"
    using Cons.prems in_elem_type by (auto simp: out_elem_def)
  show ?case
  proof (cases "expr_type_of x = T_CMP \<or> (\<exists>s. expr_get_unique_symbol x = Some s \<and> \<not> must_crossproduct s)")
    case True
    then have "cross_split pre (x # es) = cross_split (pre @ [x]) es" using type by auto
    moreover obtain r where r: "cross_split (pre @ [x]) es = Some r" "case r of
       None \<Rightarrow> \<forall>x \<in> set es. expr_type_of x = T_OR \<longrightarrow> (\<exists>s. expr_get_unique_symbol x = Some s \<and> \<not> must_crossproduct s)
     | Some (p, sub, post) \<Rightarrow> p @ sub # post = (pre @ [x]) @ es \<and> sub \<in> set es \<and> expr_type_of sub = T_OR"
      using Cons.IH [of "pre @ [x]"] Cons.prems by auto
    ultimately show ?thesis using True type
      by (intro exI [of _ r]) (auto split: option.splits)
  next
    case False
    then show ?thesis using type by (auto split: option.splits)
  qed
qed auto

lemma in_elem_insert:
  assumes "tree False x" "\<forall>c \<in> cmps_of x. eq_cmp X c \<and> cmp_symbol c \<in> S" "y \<in> set (expr_insert_andor T_AND x)"
  shows "in_elem X S y"
  using assms tree_insert_andor [OF assms(1) _ assms(3)] cmps_insert_andor [of T_AND x]
  by (auto simp: in_elem_def simp del: cmps_insert_andor)

lemma count_insert_andor: "sum_list (map count_or (expr_insert_andor T_AND x)) = count_or x"
  by (cases x) (auto simp: expr_insert_andor_def)

lemma insert_andor_in_elem: "in_elem X S x \<Longrightarrow> expr_insert_andor T_AND x = [x]"
  by (simp add: in_elem_def expr_insert_andor_def)

lemma concat_cross_terms: "\<forall>x \<in> set xs. in_elem X S x \<Longrightarrow> concat (map cross_term xs) = xs"
  by (induction xs) (auto simp: cross_term_insert insert_andor_in_elem)

lemma cross_product_ok:
  assumes "\<forall>x \<in> set (pre @ sub # post). in_elem X S x" "expr_type_of sub = T_OR" "pre @ post \<noteq> []"
    and "a \<in> set (cross_product pre sub post)"
  obtains ks where "a = And ks" "conj_in X S ks" "count_or (And ks) < count_or (And (pre @ sub # post))"
proof -
  have cp: "cross_product pre sub post = map (\<lambda>k. And (pre @ expr_insert_andor T_AND k @ post)) (andor sub)"
    using assms(1) by (simp add: cross_product_def concat_cross_terms [of _ X S] cross_term_insert)
  obtain es where es: "sub = Or es" using assms(2) by (cases sub) auto
  obtain k where k: "k \<in> set es" "a = And (pre @ expr_insert_andor T_AND k @ post)"
    using assms(4) cp es by auto
  have sub: "tree False k" "\<forall>c \<in> cmps_of k. eq_cmp X c \<and> cmp_symbol c \<in> S"
    using assms(1) k(1) es by (auto simp: in_elem_def)
  have "1 \<le> length (expr_insert_andor T_AND k)" using expr_insert_andor_length [OF sub(1)] by simp
  then have "conj_in X S (pre @ expr_insert_andor T_AND k @ post)"
    using assms(1,3) in_elem_insert [OF sub] by (cases pre; cases post) (auto simp: conj_in_def)
  moreover have "count_or k \<le> sum_list (map count_or es)" using k(1) by (simp add: member_le_sum_list)
  then have "count_or (And (pre @ expr_insert_andor T_AND k @ post)) < count_or (And (pre @ sub # post))"
    by (simp add: count_insert_andor es)
  ultimately show ?thesis using that k(2) by blast
qed

lemma cross_product_ev:
  assumes "\<forall>x \<in> set (pre @ sub # post). in_elem X S x" "expr_type_of sub = T_OR"
  shows "ev s r (Or (cross_product pre sub post)) = ev s r (And (pre @ sub # post))"
proof -
  have cp: "cross_product pre sub post = map (\<lambda>k. And (pre @ expr_insert_andor T_AND k @ post)) (andor sub)"
    using assms(1) by (simp add: cross_product_def concat_cross_terms [of _ X S] cross_term_insert)
  obtain es where es: "sub = Or es" using assms(2) by (cases sub) auto
  have "(\<forall>x \<in> set (expr_insert_andor T_AND k). ev s r x) = ev s r k" for k
    using ev_insert_andor [of T_AND s r k] by (simp add: ev_list_def)
  then show ?thesis unfolding cp by (auto simp: es)
qed

section \<open>The normal form\<close>

definition clause :: "expr_symbol set \<Rightarrow> expr_symbol set \<Rightarrow> expr \<Rightarrow> bool" where
  "clause X S x \<longleftrightarrow> (\<exists>s \<in> S. (\<exists>c. x = Cmp c \<and> eq_cmp X c \<and> cmp_symbol c = s) \<or> (or_form X s x \<and> \<not> must_crossproduct s))"

definition norm_and :: "expr_symbol set \<Rightarrow> expr_symbol set \<Rightarrow> expr list \<Rightarrow> bool" where
  "norm_and X S es \<longleftrightarrow> 2 \<le> length es \<and> (\<forall>x \<in> set es. clause X S x) \<and> distinct (map expr_get_unique_symbol es)"

definition norm_elem :: "expr_symbol set \<Rightarrow> expr_symbol set \<Rightarrow> expr \<Rightarrow> bool" where
  "norm_elem X S x \<longleftrightarrow> (\<exists>c. x = Cmp c \<and> eq_cmp X c \<and> cmp_symbol c \<in> S) \<or> (\<exists>es. x = And es \<and> norm_and X S es)"

definition normalized :: "expr_symbol set \<Rightarrow> expr_symbol set \<Rightarrow> expr \<Rightarrow> bool" where
  "normalized X S e \<longleftrightarrow> (\<exists>b. e = Boolean b) \<or> norm_elem X S e \<or>
     (\<exists>es. e = Or es \<and> 2 \<le> length es \<and> (\<forall>x \<in> set es. norm_elem X S x))"

lemma normalized_Boolean [simp]: "normalized X S (Boolean b)"
  by (simp add: normalized_def)

lemma normalized_insert:
  "normalized X S e \<Longrightarrow> (\<And>b. e \<noteq> Boolean b) \<Longrightarrow> x \<in> set (expr_insert_andor T_OR e) \<Longrightarrow> norm_elem X S x"
  by (auto simp: normalized_def norm_elem_def expr_insert_andor_def split: if_splits)

lemma out_elem_normalized:
  assumes "out_elem X S x" "expr_get_unique_symbol x = Some s"
  shows "normalized X S x"
proof (cases x)
  case (Or es)
  then have "or_form X s x" using assms by (auto simp: out_elem_def)
  then obtain cs where "x = Or (map Cmp cs)" "2 \<le> length cs" "ok_cmps X s cs" by (rule or_formE)
  with assms(1) show ?thesis by (auto simp: normalized_def norm_elem_def out_elem_def in_elem_def)
qed (use assms in \<open>auto simp: out_elem_def in_elem_def normalized_def norm_elem_def\<close>)

lemma out_elem_clause:
  assumes "out_elem X S x" "expr_type_of x = T_OR \<longrightarrow> (\<exists>s. expr_get_unique_symbol x = Some s \<and> \<not> must_crossproduct s)"
  shows "clause X S x"
proof (cases x)
  case (Or es)
  then obtain s where s: "or_form X s x" "\<not> must_crossproduct s" using assms by (auto simp: out_elem_def)
  then obtain cs where cs: "x = Or (map Cmp cs)" "2 \<le> length cs" "ok_cmps X s cs" by (auto elim: or_formE)
  then obtain c where "c \<in> set cs" by (cases cs) auto
  with cs assms(1) have "s \<in> S" by (auto simp: out_elem_def in_elem_def ok_cmps_def)
  with s show ?thesis by (auto simp: clause_def)
qed (use assms in \<open>auto simp: out_elem_def in_elem_def clause_def\<close>)

lemma clause_symbol: "clause X S x \<Longrightarrow> expr_get_unique_symbol x \<noteq> None"
  by (auto simp: clause_def unique_symbol_or_form)

lemma distinct_map_filter:
  "distinct (List.map_filter g xs) \<Longrightarrow> \<forall>x \<in> set xs. g x \<noteq> None \<Longrightarrow> distinct (map g xs)"
proof (induction xs)
  case (Cons x xs)
  then obtain y where y: "g x = Some y" by auto
  have "g x \<notin> g ` set xs"
  proof
    assume "g x \<in> g ` set xs"
    then obtain z where "z \<in> set xs" "g z = Some y" using y by auto
    then have "y \<in> set (List.map_filter g xs)" by (force simp: List.map_filter_def)
    with Cons.prems(1) y show False by (simp add: map_filter_Cons)
  qed
  with Cons y show ?case by (auto simp: map_filter_Cons)
qed simp

text \<open>
  The interface between the two functions: on a conjunction with less than \<open>N\<close> OR nodes,
  \<open>normalize_and\<close> returns an equivalent expression in normal form.
\<close>

locale normalizer =
  fixes X :: "expr_symbol set"
    and S :: "expr_symbol set"
    and N :: nat
    and normalize_and :: "expr list \<Rightarrow> expr option"
  assumes and_ok: "inj_on sym_name S \<Longrightarrow> conj_in X S es \<Longrightarrow> count_or (And es) < N \<Longrightarrow>
      \<exists>e'. normalize_and es = Some e' \<and> normalized X S e' \<and> same_ev e' (And es)"
begin

lemma or_loop_ok:
  assumes "inj_on sym_name S" "\<And>x. x \<in> set es \<Longrightarrow> (\<exists>c. x = Cmp c \<and> eq_cmp X c \<and> cmp_symbol c \<in> S) \<or>
      (\<exists>ks. x = And ks \<and> conj_in X S ks \<and> count_or (And ks) < N)"
  shows "\<exists>r. normalize_or_loop normalize_and es = Some r \<and>
    (case r of
       Inl e \<Rightarrow> e = Boolean True \<and> same_ev e (Or es)
     | Inr es' \<Rightarrow> (\<forall>x \<in> set es'. norm_elem X S x) \<and> same_ev (Or es') (Or es))"
  using assms(2)
proof (induction es)
  case (Cons x es)
  obtain r where r: "normalize_or_loop normalize_and es = Some r" "case r of
       Inl e \<Rightarrow> e = Boolean True \<and> same_ev e (Or es)
     | Inr es' \<Rightarrow> (\<forall>x \<in> set es'. norm_elem X S x) \<and> same_ev (Or es') (Or es)"
    using Cons.IH Cons.prems by auto
  consider c where "x = Cmp c" "eq_cmp X c" "cmp_symbol c \<in> S"
    | ks where "x = And ks" "conj_in X S ks" "count_or (And ks) < N"
    using Cons.prems [of x] by auto
  then show ?case
  proof cases
    case (1 c)
    with r show ?thesis by (cases r) (auto simp: norm_elem_def same_ev_def)
  next
    case (2 ks)
    obtain e' where e': "normalize_and ks = Some e'" "normalized X S e'" "same_ev e' (And ks)"
      using and_ok [OF assms(1) 2(2,3)] by blast
    show ?thesis
    proof (cases "\<exists>b. e' = Boolean b")
      case True
      then obtain b where b: "e' = Boolean b" by blast
      have "ev (cmp_sat f lp) ra x = b" if "inj_ports lp" for f lp ra
        using same_evD [OF e'(3) that, of f ra] b 2(1) by simp
      then have x: "same_ev (Or (x # es)) (if b then Boolean True else Or es)" by (simp add: same_ev_def)
      show ?thesis
      proof (cases b)
        case True
        then show ?thesis using x e'(1) b 2(1) by (auto simp: same_ev_def)
      next
        case False
        then have "normalize_or_loop normalize_and (x # es) = Some r" using r(1) e'(1) b 2(1) by simp
        then show ?thesis using r(2) x False by (cases r) (auto simp: same_ev_def)
      qed
    next
      case False
      then have "normalize_or_loop normalize_and (x # es) =
          Some (map_sum id (\<lambda>es'. expr_insert_andor T_OR e' @ es') r)"
        using r(1) e'(1) 2(1) by (auto split: expr.splits)
      moreover have "same_ev (Or (expr_insert_andor T_OR e' @ es')) (Or (x # es))"
        if "same_ev (Or es') (Or es)" for es'
        unfolding same_ev_def ev_Or_list
      proof (intro allI impI)
        fix f lp r assume inj: "inj_ports lp"
        show "ev_list T_OR (cmp_sat f lp) r (expr_insert_andor T_OR e' @ es') =
            ev_list T_OR (cmp_sat f lp) r (x # es)"
          using same_evD [OF that inj, of f r] same_evD [OF e'(3) inj, of f r] 2(1)
          unfolding ev_Or_list by (simp add: ev_insert_andor del: ev.simps)
      qed
      ultimately show ?thesis
        using r(2) normalized_insert [OF e'(2)] False by (cases r) (auto simp: same_ev_def)
    qed
  qed
qed (auto simp: same_ev_def)

lemma normalize_or_ok:
  assumes "inj_on sym_name S" "\<And>x. x \<in> set es \<Longrightarrow> (\<exists>c. x = Cmp c \<and> eq_cmp X c \<and> cmp_symbol c \<in> S) \<or>
      (\<exists>ks. x = And ks \<and> conj_in X S ks \<and> count_or (And ks) < N)"
  shows "\<exists>e'. expr_normalize_or normalize_and es = Some e' \<and> normalized X S e' \<and> same_ev e' (Or es)"
proof -
  obtain r where r: "normalize_or_loop normalize_and es = Some r" "case r of
       Inl e \<Rightarrow> e = Boolean True \<and> same_ev e (Or es)
     | Inr es' \<Rightarrow> (\<forall>x \<in> set es'. norm_elem X S x) \<and> same_ev (Or es') (Or es)"
    using or_loop_ok [OF assms] by blast
  show ?thesis
  proof (cases r)
    case (Inr es')
    with r show ?thesis
      by (cases es' rule: remdups_adj.cases)
        (auto simp: expr_normalize_or_def normalized_def same_ev_def)
  qed (use r in \<open>auto simp: expr_normalize_or_def normalized_def\<close>)
qed

end

lemma normalizer_and: "normalizer X S N (expr_normalize_and N)"
proof (induction N)
  case 0
  show ?case by unfold_locales simp
next
  case (Suc N)
  show ?case
  proof
    fix es assume inj: "inj_on sym_name S" and es: "conj_in X S es" "count_or (And es) < Suc N"
    from es(1) inj
    show "\<exists>e'. expr_normalize_and (Suc N) es = Some e' \<and> normalized X S e' \<and> same_ev e' (And es)"
    proof (cases rule: expr_sort_cases)
      case false
      then show ?thesis by simp
    next
      case (single x s)
      have "expr_normalize_and (Suc N) es = Some x"
        using single(1,2) by (cases x) (auto simp: out_elem_def in_elem_def)
      with single out_elem_normalized [OF single(2,3)] show ?thesis by blast
    next
      case (conj L)
      have merge: "merge_adjacent L = Some L" by (rule merge_adjacent_id [OF conj(4)])
      obtain r where r: "cross_split [] L = Some r" "case r of
         None \<Rightarrow> \<forall>x \<in> set L. expr_type_of x = T_OR \<longrightarrow> (\<exists>s. expr_get_unique_symbol x = Some s \<and> \<not> must_crossproduct s)
       | Some (p, sub, post) \<Rightarrow> p @ sub # post = [] @ L \<and> sub \<in> set L \<and> expr_type_of sub = T_OR"
        using cross_split_ok [OF conj(3), of "[]"] by blast
      have eval: "expr_normalize_and (Suc N) es = (case r of None \<Rightarrow> Some (And L)
         | Some (pre, sub, post) \<Rightarrow> expr_normalize_or (expr_normalize_and N) (cross_product pre sub post))"
        using conj(1,2) merge r(1) by (cases L rule: remdups_adj.cases) auto
      show ?thesis
      proof (cases r)
        case None
        then have "\<forall>x \<in> set L. clause X S x" using r(2) conj(3) out_elem_clause by auto
        then have "norm_and X S L"
          using conj(2,4) distinct_map_filter [OF conj(4)] clause_symbol [of X S] by (auto simp: norm_and_def)
        with eval None conj(5) show ?thesis by (auto simp: normalized_def norm_elem_def)
      next
        case (Some t)
        then obtain pre sub post where t: "r = Some (pre, sub, post)" by (cases t) auto
        have L: "L = pre @ sub # post" "expr_type_of sub = T_OR" using r(2) t by auto
        have elems: "\<forall>x \<in> set (pre @ sub # post). in_elem X S x" using conj(3) L(1) by (auto simp: out_elem_def)
        have ne: "pre @ post \<noteq> []" using conj(2) L(1) by (cases pre; cases post) auto
        have kids: "(\<exists>c. x = Cmp c \<and> eq_cmp X c \<and> cmp_symbol c \<in> S) \<or>
            (\<exists>ks. x = And ks \<and> conj_in X S ks \<and> count_or (And ks) < N)"
          if "x \<in> set (cross_product pre sub post)" for x
          using elems L(2) ne that
        proof (rule cross_product_ok)
          fix ks assume "x = And ks" "conj_in X S ks" "count_or (And ks) < count_or (And (pre @ sub # post))"
          then show ?thesis using conj(6) es(2) L(1) by auto
        qed
        obtain e' where e': "expr_normalize_or (expr_normalize_and N) (cross_product pre sub post) = Some e'"
          "normalized X S e'" "same_ev e' (Or (cross_product pre sub post))"
          using normalizer.normalize_or_ok [OF Suc inj kids] by blast
        have "same_ev e' (And es)"
          using e'(3) conj(5) cross_product_ev [OF elems L(2)] unfolding same_ev_def L(1) by simp
        with e' eval t show ?thesis by simp
      qed
    qed
  qed
qed

interpretation norm: normalizer X S N "expr_normalize_and N" for X S N
  by (rule normalizer_and)

section \<open>Correctness of normalization\<close>

definition norm_in :: "expr_symbol set \<Rightarrow> expr_symbol set \<Rightarrow> expr \<Rightarrow> bool" where
  "norm_in X S e \<longleftrightarrow> simple False e \<and> (\<forall>c \<in> cmps_of e. eq_cmp X c \<and> cmp_symbol c \<in> S)"

lemma tree_And_conj_in:
  "tree False (And es) \<Longrightarrow> \<forall>c \<in> cmps_of (And es). eq_cmp X c \<and> cmp_symbol c \<in> S \<Longrightarrow> conj_in X S es"
  by (auto simp: conj_in_def in_elem_def)

lemma expr_normalize_ok:
  assumes "norm_in X S e" "inj_on sym_name S"
  shows "\<exists>e'. expr_normalize e = Some e' \<and> normalized X S e' \<and> same_ev e' e"
proof (cases e)
  case (And es)
  then have "conj_in X S es"
    using assms(1) by (intro tree_And_conj_in) (auto simp: norm_in_def simple_def)
  from norm.and_ok [OF assms(2) this, of "Suc (count_or e)"] And show ?thesis
    by (simp add: expr_normalize_def del: expr_normalize_and.simps)
next
  case (Or es)
  have kids: "(\<exists>c. x = Cmp c \<and> eq_cmp X c \<and> cmp_symbol c \<in> S) \<or>
      (\<exists>ks. x = And ks \<and> conj_in X S ks \<and> count_or (And ks) < Suc (count_or e))" if x: "x \<in> set es" for x
  proof -
    have t: "tree False x" "expr_type_of x \<noteq> T_OR" "\<forall>c \<in> cmps_of x. eq_cmp X c \<and> cmp_symbol c \<in> S"
      using x assms(1) Or by (auto simp: norm_in_def simple_def)
    have "count_or x < Suc (count_or e)"
      using member_le_sum_list [of "count_or x" "map count_or es"] x Or by simp
    with t show ?thesis by (cases x) (auto simp: conj_in_def in_elem_def)
  qed
  from norm.normalize_or_ok [OF assms(2) kids] Or show ?thesis
    by (simp add: expr_normalize_def del: expr_normalize_and.simps)
qed (use assms in \<open>auto simp: expr_normalize_def norm_in_def simple_def norm_elem_def normalized_def\<close>)

lemma norm_elem_checks:
  "norm_elem X S x \<Longrightarrow> expr_get_unique_symbol x \<noteq> None \<or> expr_is_normalized_and x"
  using clause_symbol [of X S] by (fastforce simp: norm_elem_def norm_and_def expr_is_normalized_and_def)

lemma normalized_checks: "normalized X S e \<Longrightarrow> expr_is_normalized e"
proof (cases e)
  case (Or es)
  moreover assume "normalized X S e"
  ultimately show ?thesis
    using norm_elem_checks [of X S] by (auto simp: normalized_def norm_elem_def [of X S "Or _"] expr_is_normalized_def)
qed (auto simp: normalized_def norm_elem_def norm_and_def expr_is_normalized_def
    expr_is_normalized_and_def simp del: not_None_eq dest: clause_symbol)

lemma clause_tree: "clause X S x \<Longrightarrow> in_elem X S x"
  using or_form_in by (fastforce simp: clause_def in_elem_def crush_in_def)

lemma norm_elem_tree:
  "norm_elem X S x \<Longrightarrow> tree False x \<and> expr_type_of x \<noteq> T_OR \<and> (\<forall>c \<in> cmps_of x. eq_cmp X c \<and> cmp_symbol c \<in> S)"
  using clause_tree by (fastforce simp: norm_elem_def norm_and_def in_elem_def)

lemma normalized_norm_in: "normalized X S e \<Longrightarrow> norm_in X S e"
  using norm_elem_tree by (fastforce simp: normalized_def norm_in_def simple_def)

lemma norm_in_simplified: "norm_in X S e \<Longrightarrow> simplified X False e"
  by (simp add: norm_in_def simplified_def)

text \<open>
  \<^bold>\<open>C6\<close>: \<open>expr_normalize\<close> is correct. For every simplified expression whose symbols have different
  names it returns (its recursion ends and no assertion fails); the result evaluates like the
  original on every packet, honors the invariants, passes the check \<open>expr_is_normalized\<close>, and is in
  the form that translation to flows relies on: a conjunction of clauses on pairwise different
  symbols, none of which has to be multiplied out, or a disjunction of comparisons and such
  conjunctions.
\<close>

theorem expr_normalize_correct:
  assumes "norm_in X S e" "inj_on sym_name S"
  shows "\<exists>e'. expr_normalize e = Some e' \<and> normalized X S e' \<and> expr_is_normalized e' \<and>
    expr_honors_invariants e' \<and>
    (\<forall>f lp. inj_ports lp \<longrightarrow> expr_evaluate f lp e' = expr_evaluate f lp e)"
proof -
  obtain e' where e': "expr_normalize e = Some e'" "normalized X S e'" "same_ev e' e"
    using expr_normalize_ok [OF assms] by blast
  have s: "simplified X False e'" "simplified X False e"
    using norm_in_simplified normalized_norm_in e'(2) assms(1) by blast+
  have "expr_evaluate f lp e' = expr_evaluate f lp e" if "inj_ports lp" for f lp
    using same_evD [OF e'(3) that] by (simp add: simplified_evaluate [OF s(1)] simplified_evaluate [OF s(2)])
  with e' normalized_checks [OF e'(2)] simplified_honors [OF s(1)] show ?thesis by blast
qed

abbreviation "ex_norm_expr \<equiv> And [Cmp (ex_port_cmp ''lp1''),
  Or [Cmp (ex_flags_cmp R_EQ 7 15), And [Cmp (ex_flags_cmp R_EQ 1 255), Cmp (ex_port_cmp ''lp2'')]]]"

theorem expr_normalize_correct_witness:
  "\<exists>e'. expr_normalize ex_norm_expr = Some e' \<and> normalized {} {ex_flags, ex_inport} e' \<and> expr_is_normalized e' \<and>
    expr_honors_invariants e' \<and>
    (\<forall>f lp. inj_ports lp \<longrightarrow> expr_evaluate f lp e' = expr_evaluate f lp ex_norm_expr)"
  by (rule expr_normalize_correct)
    (simp_all add: norm_in_def simple_def eq_cmp_def whole_mask_def wf_cmp_def cmp_honors_def take_bit_eq_mod)

end
