(* ===== verification/Mf_Match.thy ===== *)
theory Mf_Match
  imports Expr_Crush "HOL-Library.AList"
begin

text \<open>
  OpenFlow matches (\<open>struct match\<close>) and the functions of \<open>ovs/lib/meta-flow.c\<close> and
  \<open>ovs/lib/match.c\<close> that the translation of expressions uses to fill them in.

  A match is a list of the fields that have been set, each with its value and mask, and the member
  \<open>conj_id\<close>; a field that is not listed is wildcarded. Different fields are taken to be different
  storage, which is what the symbol tables of OVN are built for; tunnel metadata options, which have
  no symbol in OVN, are left out. What a packet has to satisfy is \<open>match_hits\<close>.
\<close>

section \<open>Definitions\<close>

record match =
  m_fields :: "(mf_field \<times> value_mask) list"
  conj_id :: u32
  conj_id_mask :: u32

definition match_init_catchall :: match where
  "match_init_catchall = \<lparr>m_fields = [], conj_id = 0, conj_id_mask = 0\<rparr>"

definition mf_get :: "mf_field \<Rightarrow> match \<Rightarrow> value_mask" where
  "mf_get mf m = (case map_of (m_fields m) mf of None \<Rightarrow> (0, 0) | Some vm \<Rightarrow> vm)"

definition put_field :: "mf_field \<Rightarrow> value_mask \<Rightarrow> match \<Rightarrow> match" where
  "put_field mf vm m = m\<lparr>m_fields := AList.update mf vm (m_fields m)\<rparr>"

definition match_equal :: "match \<Rightarrow> match \<Rightarrow> bool" where
  "match_equal a b \<longleftrightarrow> conj_id_mask a = conj_id_mask b \<and> conj_id a = conj_id b \<and>
     (\<forall>mf \<in> set (map fst (m_fields a @ m_fields b)). mf_get mf a = mf_get mf b)"

definition match_set_conj_id :: "match \<Rightarrow> u32 \<Rightarrow> match" where
  "match_set_conj_id m value = m\<lparr>conj_id := value, conj_id_mask := -1\<rparr>"

text \<open>The fields for which \<open>mf_set\<close> returns without doing anything when the mask is a nontrivial one.\<close>

definition mf_set_ignores :: "string \<Rightarrow> bool" where
  "mf_set_ignores i \<longleftrightarrow> i \<in> set
     [''MFF_CT_ZONE'', ''MFF_CT_NW_PROTO'', ''MFF_RECIRC_ID'', ''MFF_PACKET_TYPE'', ''MFF_CONJ_ID'',
      ''MFF_IN_PORT'', ''MFF_IN_PORT_OXM'', ''MFF_ACTSET_OUTPUT'', ''MFF_SKB_PRIORITY'',
      ''MFF_ETH_TYPE'', ''MFF_DL_VLAN'', ''MFF_DL_VLAN_PCP'', ''MFF_VLAN_PCP'', ''MFF_MPLS_LABEL'',
      ''MFF_MPLS_TC'', ''MFF_MPLS_BOS'', ''MFF_MPLS_TTL'', ''MFF_IP_PROTO'', ''MFF_IP_TTL'',
      ''MFF_IP_DSCP'', ''MFF_IP_DSCP_SHIFTED'', ''MFF_IP_ECN'', ''MFF_ARP_OP'', ''MFF_ICMPV4_TYPE'',
      ''MFF_ICMPV4_CODE'', ''MFF_ICMPV6_TYPE'', ''MFF_ICMPV6_CODE'', ''MFF_ND_RESERVED'',
      ''MFF_ND_OPTIONS_TYPE'']"

definition IPV6_LABEL_MASK :: mf_subvalue where
  "IPV6_LABEL_MASK = 0xfffff"

definition mf_set :: "mf_field \<Rightarrow> mf_subvalue \<Rightarrow> mf_subvalue \<Rightarrow> match \<Rightarrow> match" where
  "mf_set mf value msk m =
     (if take_bit (8 * n_bytes mf) msk = mask (8 * n_bytes mf) then
        put_field mf (value, mask (8 * n_bytes mf)) m
      else if take_bit (8 * n_bytes mf) msk = 0 then put_field mf (0, 0) m
      else if mf_set_ignores (mf_id mf) then m
      else if mf_id mf = ''MFF_IPV6_LABEL'' \<and> msk AND IPV6_LABEL_MASK = IPV6_LABEL_MASK then
        put_field mf (value, mask (8 * n_bytes mf)) m
      else put_field mf (value AND msk, msk) m)"

definition mf_mask_subfield :: "mf_field \<Rightarrow> mf_subvalue \<Rightarrow> mf_subvalue \<Rightarrow> match \<Rightarrow> match" where
  "mf_mask_subfield field v m match =
     (let (value, msk) = mf_get field match;
          value = word_copy v 0 value 0 (n_bits field);
          msk = word_copy m 0 msk 0 (n_bits field)
      in mf_set field value msk match)"

definition mf_write_subfield :: "mf_field \<Rightarrow> nat \<Rightarrow> nat \<Rightarrow> mf_subvalue \<Rightarrow> match \<Rightarrow> match" where
  "mf_write_subfield field ofs n x match =
     (let (value, msk) = mf_get field match;
          value = word_copy x 0 value ofs n;
          msk = word_one msk ofs n
      in mf_set field value msk match)"

section \<open>What a match accepts\<close>

text \<open>
  A packet, given by its fields, hits a match when all listed fields agree under their masks and the
  conjunction id of the lookup does.
\<close>

definition match_hits :: "flow \<Rightarrow> u32 \<Rightarrow> match \<Rightarrow> bool" where
  "match_hits f cid m \<longleftrightarrow> cid AND conj_id_mask m = conj_id m \<and>
     (\<forall>mf \<in> set (map fst (m_fields m)). vm_holds (f mf) (mf_get mf m))"

lemma match_hits_iff:
  "match_hits f cid m \<longleftrightarrow> cid AND conj_id_mask m = conj_id m \<and> (\<forall>mf. vm_holds (f mf) (mf_get mf m))"
proof -
  have "vm_holds (f mf) (mf_get mf m)" if "mf \<notin> set (map fst (m_fields m))" for mf
  proof -
    from that have "mf_get mf m = (0, 0)" by (simp add: mf_get_def map_of_eq_None_iff [THEN iffD2])
    then show ?thesis by simp
  qed
  then show ?thesis unfolding match_hits_def by blast
qed

lemma match_equal_get:
  assumes "match_equal a b"
  shows "mf_get mf a = mf_get mf b"
proof (cases "mf \<in> set (map fst (m_fields a @ m_fields b))")
  case False
  then have "mf_get mf a = (0, 0)" "mf_get mf b = (0, 0)"
    by (auto simp: mf_get_def map_of_eq_None_iff [THEN iffD2])
  then show ?thesis by simp
qed (use assms in \<open>simp add: match_equal_def\<close>)

lemma match_equal_hits: "match_equal a b \<Longrightarrow> match_hits f cid a = match_hits f cid b"
  by (simp add: match_hits_iff match_equal_get) (simp add: match_equal_def)

lemma match_hits_catchall [simp]: "match_hits f cid match_init_catchall"
  by (simp add: match_hits_def match_init_catchall_def)

lemma mf_get_catchall [simp]: "mf_get mf match_init_catchall = (0, 0)"
  by (simp add: mf_get_def match_init_catchall_def)

lemma catchall_conj [simp]: "conj_id match_init_catchall = 0" "conj_id_mask match_init_catchall = 0"
  by (simp_all add: match_init_catchall_def)

lemma mf_get_put: "mf_get mf' (put_field mf vm m) = (if mf' = mf then vm else mf_get mf' m)"
  by (simp add: mf_get_def put_field_def update_conv')

lemma put_field_conj [simp]:
  "conj_id (put_field mf vm m) = conj_id m" "conj_id_mask (put_field mf vm m) = conj_id_mask m"
  by (simp_all add: put_field_def)

text \<open>Setting a field that was wildcarded so far adds one condition.\<close>

lemma match_hits_put:
  assumes "mf_get mf m = (0, 0)"
  shows "match_hits f cid (put_field mf vm m) \<longleftrightarrow> match_hits f cid m \<and> vm_holds (f mf) vm"
proof -
  have "vm_holds (f mf) (mf_get mf m)" by (simp add: assms)
  then have "(\<forall>mf'. vm_holds (f mf') (if mf' = mf then vm else mf_get mf' m)) \<longleftrightarrow>
      (\<forall>mf'. vm_holds (f mf') (mf_get mf' m)) \<and> vm_holds (f mf) vm"
    by (simp split: if_split) blast
  then show ?thesis by (simp add: match_hits_iff mf_get_put)
qed

lemma match_hits_conj_id:
  "conj_id_mask m = 0 \<Longrightarrow> conj_id m = 0 \<Longrightarrow> match_hits f cid (match_set_conj_id m k) \<longleftrightarrow> cid = k \<and> match_hits f c m"
  unfolding match_hits_iff by (simp add: match_set_conj_id_def mf_get_def)

section \<open>Setting fields\<close>

text \<open>
  A field as the functions above need it: its bits fit into its bytes, which fit into a subvalue.
  Under these conditions, and unless the field is one that \<open>mf_set\<close> ignores, a value under a nonzero
  mask within the field is stored as it is, up to bits of the mask that no packet has.
\<close>

definition field_ok :: "mf_field \<Rightarrow> bool" where
  "field_ok mf \<longleftrightarrow> 0 < n_bits mf \<and> n_bits mf \<le> 8 * n_bytes mf \<and> n_bytes mf \<le> 128 \<and>
     (mf_id mf = ''MFF_IPV6_LABEL'' \<longrightarrow> n_bits mf = 20)"

definition packet_ok :: "flow \<Rightarrow> bool" where
  "packet_ok f \<longleftrightarrow> (\<forall>mf. take_bit (n_bits mf) (f mf) = f mf)"

lemma packet_bit: "packet_ok f \<Longrightarrow> bit (f mf) i \<Longrightarrow> i < n_bits mf"
  unfolding packet_ok_def by (metis bit_take_bit_iff)

lemma vm_holds_wider:
  assumes "\<And>i. bit x i \<Longrightarrow> bit m i = bit m' i"
  shows "vm_holds x (v, m') \<longleftrightarrow> vm_holds x (v, m)"
proof -
  have "x AND m' = x AND m" unfolding sv_eq_iff bit_and_iff using assms by blast
  then show ?thesis by (simp add: vm_holds_def)
qed

lemma ipv6_label_mask: "IPV6_LABEL_MASK = mask 20"
  by (simp add: IPV6_LABEL_MASK_def mask_eq_exp_minus_1)

lemma mf_set_ok:
  assumes "field_ok mf" "vm_ok (v, m)" "\<And>i. bit m i \<Longrightarrow> i < n_bits mf" "m \<noteq> 0"
    and "mf_set_ignores (mf_id mf) \<Longrightarrow> m = mask (8 * n_bytes mf)"
  obtains m' where "mf_set mf v m M = put_field mf (v, m') M" "vm_ok (v, m')"
    "\<And>f. packet_ok f \<Longrightarrow> vm_holds (f mf) (v, m') \<longleftrightarrow> vm_holds (f mf) (v, m)"
proof -
  have n: "n_bits mf \<le> 8 * n_bytes mf" "8 * n_bytes mf \<le> 1024" using assms(1) by (auto simp: field_ok_def)
  have t: "take_bit (8 * n_bytes mf) m = m"
    using assms(3) n(1) by (auto simp: sv_eq_iff bit_take_bit_iff intro: less_le_trans)
  consider (exact) "m = mask (8 * n_bytes mf)"
    | (label) "m \<noteq> mask (8 * n_bytes mf)" "\<not> mf_set_ignores (mf_id mf)" "mf_id mf = ''MFF_IPV6_LABEL''"
        "m AND IPV6_LABEL_MASK = IPV6_LABEL_MASK"
    | (masked) "m \<noteq> mask (8 * n_bytes mf)" "\<not> mf_set_ignores (mf_id mf)"
        "\<not> (mf_id mf = ''MFF_IPV6_LABEL'' \<and> m AND IPV6_LABEL_MASK = IPV6_LABEL_MASK)"
    using assms(5) by blast
  then show ?thesis
  proof cases
    case exact
    then show ?thesis using that [of m] assms(2) t by (simp add: mf_set_def)
  next
    case label
    have bits: "n_bits mf = 20" using assms(1) label(3) by (simp add: field_ok_def)
    have "bit m i" if "i < 20" for i
    proof -
      have "m AND mask 20 = mask 20" using label(4) by (simp only: ipv6_label_mask)
      then have "bit (m AND mask 20) i" using that by (simp only:) (simp add: bit_mask_iff)
      then show ?thesis by (simp only: bit_and_iff)
    qed
    with assms(3) bits have m: "bit m i \<longleftrightarrow> i < 20" for i by auto
    have full: "bit (mask (8 * n_bytes mf) :: mf_subvalue) i \<longleftrightarrow> i < 8 * n_bytes mf" for i
      using n(2) by (auto simp: bit_mask_iff)
    have "vm_holds (f mf) (v, mask (8 * n_bytes mf)) \<longleftrightarrow> vm_holds (f mf) (v, m)" if "packet_ok f" for f
    proof (rule vm_holds_wider)
      fix i assume "bit (f mf) i"
      then have "i < 20" using packet_bit [OF that, of mf i] bits by simp
      then show "bit m i = bit (mask (8 * n_bytes mf) :: mf_subvalue) i" using n(1) bits by (simp add: m full)
    qed
    moreover have "vm_ok (v, mask (8 * n_bytes mf))"
      using assms(2) n(1) bits by (auto simp: vm_ok_def m full)
    ultimately show ?thesis
      using that [of "mask (8 * n_bytes mf)"] label t assms(4) by (simp add: mf_set_def)
  next
    case masked
    have "v AND m = v" using assms(2) by (auto simp: sv_eq_iff bit_simps vm_ok_def)
    with masked show ?thesis using that [of m] assms(2,4) t by (auto simp: mf_set_def)
  qed
qed

lemma word_copy_all: "(\<And>i. bit v i \<Longrightarrow> i < n) \<Longrightarrow> word_copy v 0 (0 :: mf_subvalue) 0 n = v" for v :: mf_subvalue
  by (auto simp: sv_eq_iff bits_simps dest: sv_bit_len)

lemma word_one_mask: "word_one (0 :: mf_subvalue) 0 n = mask n"
  by (simp add: word_one_def)

text \<open>
  What the translation relies on: a field that was wildcarded is constrained as asked, and no other
  part of the match changes.
\<close>

lemma mf_mask_subfield_ok:
  assumes "field_ok mf" "vm_ok (v, m)" "\<And>i. bit m i \<Longrightarrow> i < n_bits mf" "m \<noteq> 0"
    and "mf_set_ignores (mf_id mf) \<Longrightarrow> m = mask (8 * n_bytes mf)" "mf_get mf M = (0, 0)"
  shows "packet_ok f \<Longrightarrow> match_hits f cid (mf_mask_subfield mf v m M) \<longleftrightarrow> match_hits f cid M \<and> vm_holds (f mf) (v, m)"
    and "mf' \<noteq> mf \<Longrightarrow> mf_get mf' (mf_mask_subfield mf v m M) = mf_get mf' M"
    and "conj_id (mf_mask_subfield mf v m M) = conj_id M"
    and "conj_id_mask (mf_mask_subfield mf v m M) = conj_id_mask M"
proof -
  have "word_copy v 0 0 0 (n_bits mf) = v" "word_copy m 0 0 0 (n_bits mf) = m"
    using assms(2,3) by (auto intro!: word_copy_all simp: vm_ok_def)
  then have "mf_mask_subfield mf v m M = mf_set mf v m M"
    by (simp add: mf_mask_subfield_def assms(6))
  moreover obtain m' where "mf_set mf v m M = put_field mf (v, m') M"
    "\<And>f. packet_ok f \<Longrightarrow> vm_holds (f mf) (v, m') \<longleftrightarrow> vm_holds (f mf) (v, m)"
    using mf_set_ok [OF assms(1-5), of M] by metis
  ultimately show "packet_ok f \<Longrightarrow> match_hits f cid (mf_mask_subfield mf v m M) \<longleftrightarrow> match_hits f cid M \<and> vm_holds (f mf) (v, m)"
    "mf' \<noteq> mf \<Longrightarrow> mf_get mf' (mf_mask_subfield mf v m M) = mf_get mf' M"
    "conj_id (mf_mask_subfield mf v m M) = conj_id M"
    "conj_id_mask (mf_mask_subfield mf v m M) = conj_id_mask M"
    by (simp_all add: match_hits_put [OF assms(6)] mf_get_put)
qed

lemma mf_write_subfield_whole:
  assumes "field_ok mf" "n_bits mf = 8 * n_bytes mf" "\<And>i. bit x i \<Longrightarrow> i < n_bits mf" "mf_get mf M = (0, 0)"
  shows "mf_write_subfield mf 0 (n_bits mf) x M = mf_mask_subfield mf x (mask (n_bits mf)) M"
proof -
  have "word_copy x 0 0 0 (n_bits mf) = x" by (rule word_copy_all) (rule assms(3))
  moreover have "word_copy (mask (n_bits mf) :: mf_subvalue) 0 0 0 (n_bits mf) = (mask (n_bits mf) :: mf_subvalue)"
    by (rule word_copy_all) (simp add: bit_mask_iff)
  ultimately show ?thesis
    by (simp add: mf_write_subfield_def mf_mask_subfield_def assms(4) word_one_mask)
qed

text \<open>
  \<^bold>\<open>C24\<close>: a comparison with a field that has fewer bits than its bytes and that OpenFlow cannot match
  under a mask has no effect at all: for a value under any mask of the bits of the field,
  \<open>mf_mask_subfield\<close> leaves the match as it was. The mask of all bits of such a field is not all ones
  in its bytes, so \<open>mf_set\<close> takes it for a partial mask and returns early, and the flow that is built
  from \<open>ip.dscp == 46\<close> or \<open>ip.ecn == 3\<close> accepts packets with every value of that field.
\<close>

theorem mf_mask_subfield_ignored:
  assumes "field_ok mf" "n_bits mf < 8 * n_bytes mf" "mf_set_ignores (mf_id mf)"
    and "take_bit (n_bits mf) m \<noteq> 0" "mf_get mf M = (0, 0)"
  shows "mf_mask_subfield mf v m M = M"
proof -
  let ?m = "word_copy m 0 (0 :: mf_subvalue) 0 (n_bits mf)"
  have n: "n_bits mf \<le> 8 * n_bytes mf" "8 * n_bytes mf \<le> 1024" using assms(1) by (auto simp: field_ok_def)
  have m: "?m = take_bit (n_bits mf) m"
    by (auto simp: sv_eq_iff bits_simps bit_take_bit_iff dest: sv_bit_len)
  have "\<not> bit ?m (n_bits mf)" by (simp add: m bit_take_bit_iff)
  moreover have "bit (mask (8 * n_bytes mf) :: mf_subvalue) (n_bits mf)"
    using assms(2) n(2) by (simp add: bit_mask_iff)
  moreover have "take_bit (8 * n_bytes mf) ?m = ?m" using n(1) by (simp add: m min_def)
  ultimately have "mf_set mf w ?m M = M" for w
    using assms(3,4) m unfolding mf_set_def by metis
  then show ?thesis using assms(5) by (simp add: mf_mask_subfield_def)
qed

text \<open>The field of the symbol \<open>ip.dscp\<close>.\<close>

abbreviation "ex_dscp_field \<equiv> \<lparr>mf_id = ''MFF_IP_DSCP_SHIFTED'', n_bytes = 1, n_bits = 6, maskable_fully = False\<rparr>"

theorem mf_mask_subfield_ignored_witness:
  "mf_mask_subfield ex_dscp_field 46 63 match_init_catchall = match_init_catchall \<and>
   match_hits (\<lambda>_. 0) 0 (mf_mask_subfield ex_dscp_field 46 63 match_init_catchall)"
proof -
  have "mf_mask_subfield ex_dscp_field 46 63 match_init_catchall = match_init_catchall"
    by (rule mf_mask_subfield_ignored) (simp_all add: field_ok_def mf_set_ignores_def take_bit_eq_mod)
  then show ?thesis by simp
qed

end
