(* ===== verification/Expr_Matches.thy ===== *)
theory Expr_Matches
  imports Expr_Normalize Mf_Match
begin

text \<open>
  \<open>expr_to_matches\<close> of \<open>ovn/lib/expr.c\<close>: the translation of a normalized expression into OpenFlow
  matches, with conjunctive matches for conjunctions of several disjunctions, and
  \<open>expr_matches_prepare\<close>, which moves the conjunction ids into the range of the caller.

  The hash table of matches is a list; the order of a hash table is of no significance, and equal
  matches have equal hashes. A function that returns \<open>bool\<close> in C returns a pair here when it also
  changes its argument.
\<close>

section \<open>Definitions\<close>

record cls_conjunction =
  cj_id :: u32
  cj_clause :: u8
  cj_n_clauses :: u8

record expr_match =
  em_match :: match
  conjunctions :: "cls_conjunction list"
  em_as_name :: "string option"
  as_ip :: mf_subvalue
  as_mask :: mf_subvalue

definition expr_match_new :: "match option \<Rightarrow> u8 \<Rightarrow> u8 \<Rightarrow> u32 \<Rightarrow> expr_match" where
  "expr_match_new m k n_clauses cid =
     \<lparr>em_match = (case m of Some m' \<Rightarrow> m' | None \<Rightarrow> match_init_catchall),
      conjunctions =
        (if cid \<noteq> 0 then [\<lparr>cj_id = cid, cj_clause = k, cj_n_clauses = n_clauses\<rparr>] else []),
      em_as_name = None, as_ip = 0, as_mask = 0\<rparr>"

text \<open>\<open>None\<close> is a failed assertion.\<close>

fun expr_match_add :: "expr_match \<Rightarrow> expr_match list \<Rightarrow> expr_match list option" where
  "expr_match_add x [] = Some [x]"
| "expr_match_add x (m # ms) =
     (if match_equal (em_match m) (em_match x) then
        (if conjunctions m = [] \<or> conjunctions x = [] then
           Some (m\<lparr>conjunctions := [], em_as_name := None\<rparr> # ms)
         else if length (conjunctions x) = 1 then
           Some (m\<lparr>conjunctions := conjunctions m @ conjunctions x, em_as_name := None\<rparr> # ms)
         else None)
      else map_option (Cons m) (expr_match_add x ms))"

text \<open>\<open>None\<close> is a failed assertion or the dereference of a symbol's NULL field.\<close>

definition constrain_match :: "expr \<Rightarrow> ports \<Rightarrow> match \<Rightarrow> (bool \<times> match) option" where
  "constrain_match e lookup_port m =
     (case e of
        Cmp c \<Rightarrow>
          (case sym_field (cmp_symbol c) of
             None \<Rightarrow> None
           | Some field \<Rightarrow>
              (if sym_width (cmp_symbol c) \<noteq> 0 then
                 Some (True, mf_mask_subfield field (cmp_value c) (cmp_mask c) m)
               else
                 case lookup_port (cmp_string c) of
                   None \<Rightarrow> Some (False, m)
                 | Some port \<Rightarrow> Some (True, mf_write_subfield field 0 (n_bits field) (ucast port) m)))
      | _ \<Rightarrow> None)"

primrec disjunction_loop ::
  "ports \<Rightarrow> match \<Rightarrow> u8 \<Rightarrow> u8 \<Rightarrow> u32 \<Rightarrow> expr list \<Rightarrow> nat \<Rightarrow> expr_match list \<Rightarrow>
     (nat \<times> expr_match list) option" where
  "disjunction_loop lp m k n_clauses cid [] n ms = Some (n, ms)"
| "disjunction_loop lp m k n_clauses cid (sub # es) n ms =
     (let x = expr_match_new (Some m) k n_clauses cid in
      do {
        x \<leftarrow> (case sub of
                Cmp c \<Rightarrow>
                  (case as_name c of
                     None \<Rightarrow> Some x
                   | Some a \<Rightarrow>
                      (if sym_width (cmp_symbol c) \<noteq> 0 then
                         Some (x\<lparr>em_as_name := Some a, as_ip := take_bit 128 (cmp_value c),
                                 as_mask := take_bit 128 (cmp_mask c)\<rparr>)
                       else None))
              | _ \<Rightarrow> Some x);
        (ok, m') \<leftarrow> constrain_match sub lp (em_match x);
        if ok then do {
          ms' \<leftarrow> expr_match_add (x\<lparr>em_match := m'\<rparr>) ms;
          disjunction_loop lp m k n_clauses cid es (n + 1) ms'
        } else disjunction_loop lp m k n_clauses cid es n ms
      })"

definition add_disjunction ::
  "expr \<Rightarrow> ports \<Rightarrow> match \<Rightarrow> u8 \<Rightarrow> u8 \<Rightarrow> u32 \<Rightarrow> expr_match list \<Rightarrow> (bool \<times> expr_match list) option" where
  "add_disjunction or' lp m k n_clauses cid ms =
     (case or' of
        Or es \<Rightarrow>
          do {
            (n, ms') \<leftarrow> disjunction_loop lp m k n_clauses cid es 0 ms;
            Some (n > 0, ms')
          }
      | _ \<Rightarrow> None)"

text \<open>The first loop of \<open>add_conjunction\<close>; the inner \<open>None\<close> is the early return.\<close>

primrec conjunction_base :: "ports \<Rightarrow> expr list \<Rightarrow> match \<Rightarrow> nat \<Rightarrow> (match \<times> nat) option option" where
  "conjunction_base lp [] m n = Some (Some (m, n))"
| "conjunction_base lp (sub # es) m n =
     (case sub of
        Cmp c \<Rightarrow>
          do {
            (ok, m') \<leftarrow> constrain_match sub lp m;
            if ok then conjunction_base lp es m' n else Some None
          }
      | Or _ \<Rightarrow> conjunction_base lp es m (n + 1)
      | _ \<Rightarrow> None)"

text \<open>The loop over the clauses; the flag is false after the early return.\<close>

primrec conjunction_clauses ::
  "ports \<Rightarrow> match \<Rightarrow> nat \<Rightarrow> u32 \<Rightarrow> expr list \<Rightarrow> nat \<Rightarrow> expr_match list \<Rightarrow> (bool \<times> expr_match list) option" where
  "conjunction_clauses lp m n_clauses cid [] k ms = Some (True, ms)"
| "conjunction_clauses lp m n_clauses cid (sub # es) k ms =
     (if expr_type_of sub = T_OR then do {
        (ok, ms') \<leftarrow> add_disjunction sub lp m (of_nat k) (of_nat n_clauses) cid ms;
        if ok then conjunction_clauses lp m n_clauses cid es (k + 1) ms' else Some (False, ms')
      } else conjunction_clauses lp m n_clauses cid es k ms)"

text \<open>The loop for a single clause.\<close>

primrec conjunction_single :: "ports \<Rightarrow> match \<Rightarrow> expr list \<Rightarrow> expr_match list \<Rightarrow> expr_match list option" where
  "conjunction_single lp m [] ms = Some ms"
| "conjunction_single lp m (sub # es) ms =
     (if expr_type_of sub = T_OR then do {
        (_, ms') \<leftarrow> add_disjunction sub lp m 0 0 0 ms;
        conjunction_single lp m es ms'
      } else conjunction_single lp m es ms)"

definition add_conjunction :: "expr \<Rightarrow> ports \<Rightarrow> u32 \<Rightarrow> expr_match list \<Rightarrow> (u32 \<times> expr_match list) option" where
  "add_conjunction and' lp n_conjs ms =
     (case and' of
        And es \<Rightarrow>
          do {
            r \<leftarrow> conjunction_base lp es match_init_catchall 0;
            case r of
              None \<Rightarrow> Some (n_conjs, ms)
            | Some (m, n_clauses) \<Rightarrow>
               (if n_clauses = 0 then do {
                  ms' \<leftarrow> expr_match_add (expr_match_new (Some m) 0 0 0) ms;
                  Some (n_conjs, ms')
                } else if n_clauses = 1 then do {
                  ms' \<leftarrow> conjunction_single lp m es ms;
                  Some (n_conjs, ms')
                } else do {
                  (ok, ms') \<leftarrow> conjunction_clauses lp m n_clauses (n_conjs + 1) es 0 ms;
                  if ok then do {
                    ms'' \<leftarrow> expr_match_add (expr_match_new (Some (match_set_conj_id m (n_conjs + 1))) 0 0 0) ms';
                    Some (n_conjs + 1, ms'')
                  } else Some (n_conjs + 1, ms')
                })
          }
      | _ \<Rightarrow> None)"

definition add_cmp_flow :: "expr \<Rightarrow> ports \<Rightarrow> expr_match list \<Rightarrow> expr_match list option" where
  "add_cmp_flow cmp lp ms =
     (let x = expr_match_new None 0 0 0 in
      do {
        (ok, m') \<leftarrow> constrain_match cmp lp (em_match x);
        if ok then expr_match_add (x\<lparr>em_match := m'\<rparr>) ms else Some ms
      })"

primrec to_matches_or :: "bool \<Rightarrow> ports \<Rightarrow> expr list \<Rightarrow> u32 \<Rightarrow> expr_match list \<Rightarrow> (u32 \<times> expr_match list) option" where
  "to_matches_or unique lp [] n_conjs ms = Some (n_conjs, ms)"
| "to_matches_or unique lp (sub # es) n_conjs ms =
     (if \<not> unique \<and> expr_type_of sub = T_AND then do {
        (n_conjs', ms') \<leftarrow> add_conjunction sub lp n_conjs ms;
        to_matches_or unique lp es n_conjs' ms'
      } else do {
        ms' \<leftarrow> add_cmp_flow sub lp ms;
        to_matches_or unique lp es n_conjs ms'
      })"

definition expr_to_matches :: "expr \<Rightarrow> ports \<Rightarrow> (u32 \<times> expr_match list) option" where
  "expr_to_matches e lp =
     (case e of
        Cmp c \<Rightarrow> map_option (Pair 0) (add_cmp_flow e lp [])
      | And es \<Rightarrow> add_conjunction e lp 0 []
      | Or es \<Rightarrow> to_matches_or (expr_get_unique_symbol e \<noteq> None) lp es 0 []
      | Boolean b \<Rightarrow> if b then map_option (Pair 0) (expr_match_add (expr_match_new None 0 0 0) []) else Some (0, [])
      | Condition n s \<Rightarrow> None)"

definition prepare_match :: "u32 \<Rightarrow> expr_match \<Rightarrow> expr_match" where
  "prepare_match conj_id_ofs m = m\<lparr>
     em_match :=
       (if conj_id_mask (em_match m) \<noteq> 0 then (em_match m)\<lparr>conj_id := conj_id (em_match m) + conj_id_ofs\<rparr>
        else em_match m),
     conjunctions := map (\<lambda>src. src\<lparr>cj_id := cj_id src + conj_id_ofs\<rparr>) (conjunctions m)\<rparr>"

text \<open>\<open>expr_matches_prepare\<close> also returns the size of the table in bytes, which is left out.\<close>

definition expr_matches_prepare :: "expr_match list \<Rightarrow> u32 \<Rightarrow> expr_match list" where
  "expr_matches_prepare ms conj_id_ofs = map (prepare_match conj_id_ofs) ms"

section \<open>What a table of flows accepts\<close>

text \<open>
  The meaning of a table of flows of one priority, as the OpenFlow extension for conjunctive matches
  defines it. A flow without \<open>conjunction\<close> actions accepts the packets that hit its match. If for some
  id the packet hits flows for all clauses \<open>0 .. n - 1\<close> of \<open>n\<close>, it is looked up again with that
  conjunction id.
\<close>

definition accepts :: "flow \<Rightarrow> u32 \<Rightarrow> expr_match list \<Rightarrow> bool" where
  "accepts f cid ms \<longleftrightarrow> (\<exists>m \<in> set ms. conjunctions m = [] \<and> match_hits f cid (em_match m))"

definition clause_hit :: "flow \<Rightarrow> cls_conjunction \<Rightarrow> expr_match list \<Rightarrow> bool" where
  "clause_hit f c ms \<longleftrightarrow> (\<exists>m \<in> set ms. c \<in> set (conjunctions m) \<and> match_hits f 0 (em_match m))"

definition conj_hit :: "flow \<Rightarrow> u32 \<Rightarrow> expr_match list \<Rightarrow> bool" where
  "conj_hit f cid ms \<longleftrightarrow>
     (\<exists>n. n \<noteq> 0 \<and> (\<forall>k < n. clause_hit f \<lparr>cj_id = cid, cj_clause = k, cj_n_clauses = n\<rparr> ms))"

definition table_hits :: "flow \<Rightarrow> expr_match list \<Rightarrow> bool" where
  "table_hits f ms \<longleftrightarrow> accepts f 0 ms \<or> (\<exists>cid. conj_hit f cid ms \<and> accepts f cid ms)"

subsection \<open>Merging is transparent\<close>

text \<open>
  \<open>expr_match_add\<close> merges a match into an equal one, and drops conjunctions when one of the two has
  none. The table accepts the same packets as the list of everything that was added.
\<close>

definition table_eq :: "flow \<Rightarrow> expr_match list \<Rightarrow> expr_match list \<Rightarrow> bool" where
  "table_eq f ms xs \<longleftrightarrow> (\<forall>cid. accepts f cid ms = accepts f cid xs) \<and>
     (accepts f 0 ms \<or> (\<forall>c. clause_hit f c ms = clause_hit f c xs))"

lemma table_eq_hits: "table_eq f ms xs \<Longrightarrow> table_hits f ms = table_hits f xs"
  unfolding table_eq_def table_hits_def conj_hit_def by (elim conjE disjE) simp_all

lemma accepts_simps [simp]:
  "\<not> accepts f cid []"
  "accepts f cid (m # ms) \<longleftrightarrow> (conjunctions m = [] \<and> match_hits f cid (em_match m)) \<or> accepts f cid ms"
  "accepts f cid (xs @ ys) \<longleftrightarrow> accepts f cid xs \<or> accepts f cid ys"
  by (auto simp: accepts_def)

lemma clause_hit_simps [simp]:
  "\<not> clause_hit f c []"
  "clause_hit f c (m # ms) \<longleftrightarrow> (c \<in> set (conjunctions m) \<and> match_hits f 0 (em_match m)) \<or> clause_hit f c ms"
  "clause_hit f c (xs @ ys) \<longleftrightarrow> clause_hit f c xs \<or> clause_hit f c ys"
  by (auto simp: clause_hit_def)

lemma expr_match_add_accepts:
  "expr_match_add x ms = Some ms' \<Longrightarrow>
     accepts f cid ms' \<longleftrightarrow> accepts f cid ms \<or> (conjunctions x = [] \<and> match_hits f cid (em_match x))"
proof (induction ms arbitrary: ms')
  case (Cons m ms)
  then show ?case using match_equal_hits [of "em_match m" "em_match x" f cid]
    by (auto split: if_splits)
qed auto

lemma expr_match_add_clause:
  "expr_match_add x ms = Some ms' \<Longrightarrow> \<not> accepts f 0 ms' \<Longrightarrow>
     clause_hit f c ms' \<longleftrightarrow> clause_hit f c ms \<or> (c \<in> set (conjunctions x) \<and> match_hits f 0 (em_match x))"
proof (induction ms arbitrary: ms')
  case (Cons m ms)
  then show ?case using match_equal_hits [of "em_match m" "em_match x" f 0]
    by (auto split: if_splits)
qed auto

lemma expr_match_add_total: "length (conjunctions x) \<le> 1 \<Longrightarrow> \<exists>ms'. expr_match_add x ms = Some ms'"
  by (induction ms) (auto simp: le_Suc_eq)

lemma table_eq_add:
  "table_eq f ms xs \<Longrightarrow> expr_match_add x ms = Some ms' \<Longrightarrow> table_eq f ms' (xs @ [x])"
  using expr_match_add_accepts [of x ms ms' f] expr_match_add_clause [of x ms ms' f]
  by (auto simp: table_eq_def)

definition small :: "expr_match list \<Rightarrow> bool" where
  "small xs \<longleftrightarrow> (\<forall>x \<in> set xs. length (conjunctions x) \<le> 1)"

text \<open>\<open>adds ms xs ms'\<close>: adding the matches \<open>xs\<close> one after the other turns \<open>ms\<close> into \<open>ms'\<close>.\<close>

abbreviation adds :: "expr_match list \<Rightarrow> expr_match list \<Rightarrow> expr_match list option" where
  "adds ms xs \<equiv> fold_opt expr_match_add xs ms"

lemma adds_total: "small xs \<Longrightarrow> \<exists>ms'. adds ms xs = Some ms'"
proof (induction xs arbitrary: ms)
  case (Cons x xs)
  then obtain ms1 where "expr_match_add x ms = Some ms1"
    using expr_match_add_total [of x ms] by (auto simp: small_def)
  with Cons show ?case by (simp add: small_def)
qed simp

lemma adds_table_eq: "table_eq f ms ys \<Longrightarrow> adds ms xs = Some ms' \<Longrightarrow> table_eq f ms' (ys @ xs)"
proof (induction xs arbitrary: ms ys)
  case (Cons x xs)
  then obtain ms1 where "expr_match_add x ms = Some ms1" "adds ms1 xs = Some ms'"
    by (auto simp: bind_eq_Some_conv)
  with Cons.IH [OF table_eq_add [OF Cons.prems(1)]] show ?case by auto
qed simp

lemma adds_single: "adds ms [x] = expr_match_add x ms"
  by (cases "expr_match_add x ms") simp_all

lemma adds_append: "adds ms (xs @ ys) = Option.bind (adds ms xs) (\<lambda>ms'. adds ms' ys)"
  by (induction xs arbitrary: ms) (auto split: bind_splits)

lemma adds_hits: "adds [] xs = Some ms \<Longrightarrow> table_hits f ms = table_hits f xs"
  using adds_table_eq [of f "[]" "[]" xs ms] table_eq_hits by (auto simp: table_eq_def)

section \<open>Constraining a match\<close>

text \<open>
  What a symbol needs so that comparisons with it can be translated: its field is in order; a string
  is a port number in a 32-bit register; and a field that OpenFlow can only match as a whole is as wide
  as its bytes and only tested as a whole.
\<close>

definition flow_sym :: "expr_symbol set \<Rightarrow> expr_symbol \<Rightarrow> bool" where
  "flow_sym X s \<longleftrightarrow> (\<exists>mf. sym_field s = Some mf \<and> field_ok mf \<and>
     (if sym_width s = 0 then n_bits mf = 32 \<and> n_bytes mf = 4
      else sym_width s \<le> n_bits mf \<and>
        (mf_set_ignores (mf_id mf) \<longrightarrow> s \<in> X \<and> sym_width s = 8 * n_bytes mf)))"

definition constrained :: "ports \<Rightarrow> expr_cmp \<Rightarrow> match \<Rightarrow> match" where
  "constrained lp c m = snd (the (constrain_match (Cmp c) lp m))"

lemma flow_sym_field: "flow_sym X (cmp_symbol c) \<Longrightarrow> sym_field (cmp_symbol c) = Some (cmp_field c)"
  by (auto simp: flow_sym_def cmp_field_def)

lemma constrain_match_eq:
  assumes "flow_sym X (cmp_symbol c)"
  shows "constrain_match (Cmp c) lp m = Some (if known_port lp c then (True, constrained lp c m) else (False, m))"
  using flow_sym_field [OF assms]
  by (auto simp: constrain_match_def constrained_def known_port_def split: option.splits)

lemma unknown_port_sat: "sym_width (cmp_symbol c) = 0 \<Longrightarrow> eq_cmp X c \<Longrightarrow> \<not> known_port lp c \<Longrightarrow> \<not> cmp_sat f lp c"
  by (simp add: cmp_sat_string port_sat_def known_port_def)

lemma not_known_port: "eq_cmp X c \<Longrightarrow> \<not> known_port lp c \<Longrightarrow> \<not> cmp_sat f lp c"
  using unknown_port_sat by (auto simp: known_port_def)

definition narrows :: "ports \<Rightarrow> match \<Rightarrow> expr_cmp \<Rightarrow> match \<Rightarrow> bool" where
  "narrows lp m c m' \<longleftrightarrow>
     (\<forall>f cid. packet_ok f \<longrightarrow> match_hits f cid m' = (match_hits f cid m \<and> cmp_sat f lp c)) \<and>
     (\<forall>mf. mf \<noteq> cmp_field c \<longrightarrow> mf_get mf m' = mf_get mf m) \<and>
     conj_id m' = conj_id m \<and> conj_id_mask m' = conj_id_mask m"

lemma constrained_numeric:
  assumes "eq_cmp X c" "flow_sym X (cmp_symbol c)" "sym_width (cmp_symbol c) \<noteq> 0" "mf_get (cmp_field c) m = (0, 0)"
  shows "narrows lp m c (constrained lp c m)"
proof -
  let ?mf = "cmp_field c"
  have fld: "sym_field (cmp_symbol c) = Some ?mf" by (rule flow_sym_field [OF assms(2)])
  have ok: "field_ok ?mf" "sym_width (cmp_symbol c) \<le> n_bits ?mf"
    "mf_set_ignores (mf_id ?mf) \<Longrightarrow> cmp_symbol c \<in> X \<and> sym_width (cmp_symbol c) = 8 * n_bytes ?mf"
    using assms(2,3) fld by (auto simp: flow_sym_def)
  note vm = eq_cmp_vm [OF assms(1,3)]
  have whole: "mf_set_ignores (mf_id ?mf) \<Longrightarrow> cmp_mask c = mask (8 * n_bytes ?mf)"
    using ok(3) assms(1,3) by (auto simp: eq_cmp_def whole_mask_def)
  have bits: "bit (cmp_mask c) i \<Longrightarrow> i < n_bits ?mf" for i using vm(3) ok(2) less_le_trans by blast
  have "constrained lp c m = mf_mask_subfield ?mf (cmp_value c) (cmp_mask c) m"
    using fld assms(3) by (simp add: constrained_def constrain_match_def)
  with mf_mask_subfield_ok [OF ok(1) vm(1) bits vm(4) whole assms(4)] vm(2) show ?thesis
    by (simp add: narrows_def)
qed

lemma bit_ucast_port: "bit (ucast (p :: u32) :: mf_subvalue) i \<longleftrightarrow> bit p i"
  using bit_imp_le_length [of p i] by (auto simp: bit_ucast_iff)

lemma port_bits: "(ucast (take_bit 32 x) :: u64) = ucast p \<longleftrightarrow> x AND mask 32 = ucast p"
  for x :: mf_subvalue and p :: u32
proof -
  have p: "bit (ucast p :: u64) i \<longleftrightarrow> bit p i" for i
    using bit_imp_le_length [of p i] by (auto simp: bit_ucast_iff)
  have x: "bit (ucast (take_bit 32 x) :: u64) i \<longleftrightarrow> i < 32 \<and> bit x i" for i
    by (auto simp: bit_simps)
  have a: "bit (x AND mask 32) i \<longleftrightarrow> i < 32 \<and> bit x i" for i
    by (auto simp: bit_simps)
  have "(ucast (take_bit 32 x) :: u64) = ucast p \<longleftrightarrow> (\<forall>i. (i < 32 \<and> bit x i) = bit p i)"
  proof
    assume "(ucast (take_bit 32 x) :: u64) = ucast p"
    then show "\<forall>i. (i < 32 \<and> bit x i) = bit p i" using p x by metis
  next
    assume "\<forall>i. (i < 32 \<and> bit x i) = bit p i"
    then show "(ucast (take_bit 32 x) :: u64) = ucast p" by (intro bit_eqI) (simp add: p x)
  qed
  then show ?thesis by (simp add: sv_eq_iff a bit_ucast_port)
qed

lemma constrained_string:
  assumes "eq_cmp X c" "flow_sym X (cmp_symbol c)" "sym_width (cmp_symbol c) = 0" "mf_get (cmp_field c) m = (0, 0)"
    and "lp (cmp_string c) = Some p"
  shows "narrows lp m c (constrained lp c m)"
proof -
  let ?mf = "cmp_field c"
  have fld: "sym_field (cmp_symbol c) = Some ?mf" by (rule flow_sym_field [OF assms(2)])
  have ok: "field_ok ?mf" "n_bits ?mf = 32" "n_bytes ?mf = 4"
    using assms(2,3) fld by (auto simp: flow_sym_def)
  have bits: "bit (ucast p :: mf_subvalue) i \<Longrightarrow> i < n_bits ?mf" for i
    using bit_imp_le_length [of p i] ok(2) by (auto simp: bit_ucast_port)
  have "constrained lp c m = mf_mask_subfield ?mf (ucast p) (mask (n_bits ?mf)) m"
    using fld assms(3,5) mf_write_subfield_whole [OF ok(1) _ bits assms(4)] ok(2,3)
    by (simp add: constrained_def constrain_match_def)
  moreover have vm: "vm_ok (ucast p :: mf_subvalue, mask (n_bits ?mf))"
    using bits ok(2) by (auto simp: vm_ok_def bit_mask_iff dest: sv_bit_len)
  moreover have "cmp_sat f lp c \<longleftrightarrow> vm_holds (f ?mf) (ucast p, mask (n_bits ?mf))" for f
    using assms(5) ok(2) fld port_bits [of "f ?mf" p]
    unfolding cmp_sat_string [OF assms(1,3)] port_sat_def sym_value_def vm_holds_def by simp
  moreover have "(mask (n_bits ?mf) :: mf_subvalue) \<noteq> 0" using ok(2) by simp
  ultimately show ?thesis
    using mf_mask_subfield_ok [OF ok(1) vm, of m] ok(2,3) assms(4)
    by (simp add: narrows_def bit_mask_iff)
qed

lemma constrained_narrows:
  assumes "eq_cmp X c" "flow_sym X (cmp_symbol c)" "known_port lp c" "mf_get (cmp_field c) m = (0, 0)"
  shows "narrows lp m c (constrained lp c m)"
proof (cases "sym_width (cmp_symbol c) = 0")
  case True
  then obtain p where "lp (cmp_string c) = Some p" using assms(3) by (auto simp: known_port_def)
  then show ?thesis using constrained_string [OF assms(1,2) True assms(4)] by blast
qed (rule constrained_numeric [OF assms(1,2) _ assms(4)])

section \<open>Blocks of flows\<close>

text \<open>
  \<open>block I xs P\<close>: the flows \<open>xs\<close> use the conjunction ids \<open>I\<close>, and as a table of their own they accept
  the packets that satisfy \<open>P\<close>. Blocks with different ids do not interfere.
\<close>

definition ids_in :: "u32 set \<Rightarrow> expr_match list \<Rightarrow> bool" where
  "ids_in I ms \<longleftrightarrow> (\<forall>m \<in> set ms.
     (conj_id_mask (em_match m) = 0 \<or> (conj_id_mask (em_match m) = -1 \<and> conj_id (em_match m) \<in> I)) \<and>
     (\<forall>c \<in> set (conjunctions m). cj_id c \<in> I))"

definition block :: "u32 set \<Rightarrow> expr_match list \<Rightarrow> (flow \<Rightarrow> bool) \<Rightarrow> bool" where
  "block I xs P \<longleftrightarrow> small xs \<and> 0 \<notin> I \<and> ids_in I xs \<and> (\<forall>f. packet_ok f \<longrightarrow> table_hits f xs = P f)"

lemma ids_in_clause: "ids_in I xs \<Longrightarrow> clause_hit f t xs \<Longrightarrow> cj_id t \<in> I"
  by (auto simp: ids_in_def clause_hit_def)

lemma ids_in_accepts:
  assumes "ids_in I xs" "accepts f c xs"
  shows "c \<in> I \<or> accepts f 0 xs"
proof -
  obtain m where m: "m \<in> set xs" "conjunctions m = []" "match_hits f c (em_match m)"
    using assms(2) by (auto simp: accepts_def)
  then consider "conj_id_mask (em_match m) = 0" | "conj_id_mask (em_match m) = -1" "conj_id (em_match m) \<in> I"
    using assms(1) by (auto simp: ids_in_def)
  then show ?thesis
  proof cases
    case 1
    then have "match_hits f 0 (em_match m)" using m(3) by (simp add: match_hits_def)
    then show ?thesis using m(1,2) by (auto simp: accepts_def)
  next
    case 2
    then show ?thesis using m(3) by (auto simp: match_hits_def)
  qed
qed

lemma blockD:
  assumes "block I xs P" "packet_ok f"
  shows "clause_hit f t xs \<Longrightarrow> cj_id t \<in> I" "accepts f c xs \<Longrightarrow> c \<in> I \<or> accepts f 0 xs" "table_hits f xs = P f"
  using assms ids_in_clause ids_in_accepts by (auto simp: block_def)

lemma conj_hit_append:
  assumes "block I xs P" "block J ys Q" "I \<inter> J = {}" "packet_ok f" "conj_hit f c (xs @ ys)"
  shows "c \<in> I \<Longrightarrow> conj_hit f c xs" "c \<in> J \<Longrightarrow> conj_hit f c ys"
proof -
  obtain n where n: "n \<noteq> 0"
    "\<And>k. k < n \<Longrightarrow> clause_hit f \<lparr>cj_id = c, cj_clause = k, cj_n_clauses = n\<rparr> (xs @ ys)"
    using assms(5) by (auto simp: conj_hit_def)
  show "conj_hit f c xs" if "c \<in> I"
  proof -
    have "c \<notin> J" using that assms(3) by blast
    then have "\<not> clause_hit f \<lparr>cj_id = c, cj_clause = k, cj_n_clauses = n\<rparr> ys" for k
      using blockD(1) [OF assms(2,4)] by fastforce
    with n show ?thesis unfolding conj_hit_def clause_hit_simps by blast
  qed
  show "conj_hit f c ys" if "c \<in> J"
  proof -
    have "c \<notin> I" using that assms(3) by blast
    then have "\<not> clause_hit f \<lparr>cj_id = c, cj_clause = k, cj_n_clauses = n\<rparr> xs" for k
      using blockD(1) [OF assms(1,4)] by fastforce
    with n show ?thesis unfolding conj_hit_def clause_hit_simps by blast
  qed
qed

lemma block_append:
  assumes "block I xs P" "block J ys Q" "I \<inter> J = {}"
  shows "block (I \<union> J) (xs @ ys) (\<lambda>f. P f \<or> Q f)"
proof -
  have hits: "table_hits f (xs @ ys) \<longleftrightarrow> P f \<or> Q f" if f: "packet_ok f" for f
  proof
    assume h: "table_hits f (xs @ ys)"
    show "P f \<or> Q f"
    proof (cases "accepts f 0 (xs @ ys)")
      case True
      then have "table_hits f xs \<or> table_hits f ys" by (auto simp: table_hits_def)
      then show ?thesis using blockD(3) [OF assms(1) f] blockD(3) [OF assms(2) f] by blast
    next
      case False
      with h obtain c where c: "conj_hit f c (xs @ ys)" "accepts f c (xs @ ys)" by (auto simp: table_hits_def)
      have "(accepts f c xs \<and> c \<in> I) \<or> (accepts f c ys \<and> c \<in> J)"
        using c(2) False blockD(2) [OF assms(1) f, of c] blockD(2) [OF assms(2) f, of c] by auto
      then have "table_hits f xs \<or> table_hits f ys"
        using conj_hit_append [OF assms f c(1)] by (auto simp: table_hits_def)
      then show ?thesis using blockD(3) [OF assms(1) f] blockD(3) [OF assms(2) f] by blast
    qed
  next
    assume "P f \<or> Q f"
    then have "table_hits f xs \<or> table_hits f ys"
      using blockD(3) [OF assms(1) f] blockD(3) [OF assms(2) f] by blast
    then show "table_hits f (xs @ ys)" by (auto simp: table_hits_def conj_hit_def)
  qed
  have "small (xs @ ys)" "0 \<notin> I \<union> J" "ids_in (I \<union> J) (xs @ ys)"
    using assms(1,2) unfolding block_def small_def ids_in_def by auto
  with hits show ?thesis by (simp add: block_def)
qed

text \<open>Ordinary flows: no conjunctions, and no match on the conjunction id.\<close>

lemma block_ordinary:
  assumes "\<And>x. x \<in> set xs \<Longrightarrow> conjunctions x = [] \<and> conj_id_mask (em_match x) = 0"
    and "\<And>f c. packet_ok f \<Longrightarrow> accepts f c xs \<longleftrightarrow> P f"
  shows "block {} xs P"
proof -
  have "\<not> clause_hit f t xs" for f t using assms(1) by (auto simp: clause_hit_def)
  then show ?thesis using assms by (auto simp: block_def ids_in_def table_hits_def conj_hit_def small_def)
qed

lemma block_cong: "block I xs P \<Longrightarrow> (\<And>f. packet_ok f \<Longrightarrow> P f = Q f) \<Longrightarrow> block I xs Q"
  by (simp add: block_def)

lemma block_Nil: "block {} [] (\<lambda>f. False)"
  by (rule block_ordinary) auto

section \<open>Disjunctions\<close>

definition disjunct :: "ports \<Rightarrow> match \<Rightarrow> u8 \<Rightarrow> u8 \<Rightarrow> u32 \<Rightarrow> expr_cmp \<Rightarrow> expr_match" where
  "disjunct lp m k n cid c =
     (let x = expr_match_new (Some m) k n cid in
      (case as_name c of
         None \<Rightarrow> x
       | Some a \<Rightarrow> x\<lparr>em_as_name := Some a, as_ip := take_bit 128 (cmp_value c), as_mask := take_bit 128 (cmp_mask c)\<rparr>)
      \<lparr>em_match := constrained lp c m\<rparr>)"

lemma disjunct_sel [simp]:
  "em_match (disjunct lp m k n cid c) = constrained lp c m"
  "conjunctions (disjunct lp m k n cid c) =
     (if cid \<noteq> 0 then [\<lparr>cj_id = cid, cj_clause = k, cj_n_clauses = n\<rparr>] else [])"
  by (auto simp: disjunct_def expr_match_new_def Let_def split: option.splits)

definition disjuncts :: "ports \<Rightarrow> match \<Rightarrow> u8 \<Rightarrow> u8 \<Rightarrow> u32 \<Rightarrow> expr_cmp list \<Rightarrow> expr_match list" where
  "disjuncts lp m k n cid cs = map (disjunct lp m k n cid) (filter (known_port lp) cs)"

definition flow_cmp :: "expr_symbol set \<Rightarrow> expr_cmp \<Rightarrow> bool" where
  "flow_cmp X c \<longleftrightarrow> eq_cmp X c \<and> flow_sym X (cmp_symbol c)"

lemma disjunction_loop_eq:
  "\<forall>c \<in> set cs. flow_cmp X c \<Longrightarrow>
     disjunction_loop lp m k n cid (map Cmp cs) i ms =
       map_option (Pair (i + length (filter (known_port lp) cs))) (adds ms (disjuncts lp m k n cid cs))"
proof (induction cs arbitrary: i ms)
  case (Cons c cs)
  let ?x = "expr_match_new (Some m) k n cid"
  have wf: "eq_cmp X c" "flow_sym X (cmp_symbol c)" using Cons.prems by (auto simp: flow_cmp_def)
  have as: "sym_width (cmp_symbol c) = 0 \<longrightarrow> as_name c = None" using wf(1) by (simp add: eq_cmp_def wf_cmp_def)
  define y where "y = (case as_name c of None \<Rightarrow> ?x
    | Some a \<Rightarrow> ?x\<lparr>em_as_name := Some a, as_ip := take_bit 128 (cmp_value c), as_mask := take_bit 128 (cmp_mask c)\<rparr>)"
  have y: "(case as_name c of None \<Rightarrow> Some ?x | Some a \<Rightarrow> if sym_width (cmp_symbol c) \<noteq> 0
      then Some (?x\<lparr>em_as_name := Some a, as_ip := take_bit 128 (cmp_value c), as_mask := take_bit 128 (cmp_mask c)\<rparr>)
      else None) = Some y"
    using as by (auto simp: y_def split: option.splits)
  have "em_match y = m" by (simp add: y_def expr_match_new_def split: option.splits)
  moreover have "y\<lparr>em_match := constrained lp c m\<rparr> = disjunct lp m k n cid c"
    by (simp add: y_def disjunct_def Let_def)
  ultimately show ?case
    using Cons y
    by (auto simp: Let_def constrain_match_eq [OF wf(2)] disjuncts_def option.map_comp comp_def split: bind_splits)
qed (simp add: disjuncts_def)

lemma add_disjunction_eq:
  "\<forall>c \<in> set cs. flow_cmp X c \<Longrightarrow>
     add_disjunction (Or (map Cmp cs)) lp m k n cid ms =
       map_option (Pair (\<exists>c \<in> set cs. known_port lp c)) (adds ms (disjuncts lp m k n cid cs))"
  by (auto simp: add_disjunction_def disjunction_loop_eq option.map_comp comp_def filter_empty_conv split: bind_splits)

lemma disjuncts_hits:
  assumes "\<forall>c \<in> set cs. flow_cmp X c \<and> mf_get (cmp_field c) m = (0, 0)" "packet_ok f"
  shows "accepts f c' (disjuncts lp m k n cid cs) \<longleftrightarrow> cid = 0 \<and> match_hits f c' m \<and> (\<exists>c \<in> set cs. cmp_sat f lp c)"
    and "clause_hit f t (disjuncts lp m k n cid cs) \<longleftrightarrow> cid \<noteq> 0 \<and> t = \<lparr>cj_id = cid, cj_clause = k, cj_n_clauses = n\<rparr> \<and>
      match_hits f 0 m \<and> (\<exists>c \<in> set cs. cmp_sat f lp c)"
proof -
  have hit: "match_hits f i (constrained lp c m) \<longleftrightarrow> match_hits f i m \<and> cmp_sat f lp c"
    if "c \<in> set cs" "known_port lp c" for c i
    using that assms constrained_narrows [of X c lp m] by (auto simp: flow_cmp_def narrows_def)
  have known: "known_port lp c" if "c \<in> set cs" "cmp_sat f lp c" for c
    using that assms(1) not_known_port [of X c lp f] by (auto simp: flow_cmp_def)
  show "accepts f c' (disjuncts lp m k n cid cs) \<longleftrightarrow> cid = 0 \<and> match_hits f c' m \<and> (\<exists>c \<in> set cs. cmp_sat f lp c)"
    using hit known by (auto simp: accepts_def disjuncts_def)
  show "clause_hit f t (disjuncts lp m k n cid cs) \<longleftrightarrow> cid \<noteq> 0 \<and> t = \<lparr>cj_id = cid, cj_clause = k, cj_n_clauses = n\<rparr> \<and>
      match_hits f 0 m \<and> (\<exists>c \<in> set cs. cmp_sat f lp c)"
    using hit known by (auto simp: clause_hit_def disjuncts_def)
qed

lemma small_disjuncts: "small (disjuncts lp m k n cid cs)"
  by (simp add: small_def disjuncts_def)

section \<open>Conjunctions\<close>

definition cmps_in :: "expr list \<Rightarrow> expr_cmp list" where
  "cmps_in es = List.map_filter (\<lambda>e. case e of Cmp c \<Rightarrow> Some c | _ \<Rightarrow> None) es"

definition ors_in :: "expr list \<Rightarrow> expr_cmp list list" where
  "ors_in es = List.map_filter (\<lambda>e. case e of Or ks \<Rightarrow> cmp_list ks | _ \<Rightarrow> None) es"

lemma in_simps [simp]:
  "cmps_in [] = []" "cmps_in (Cmp c # es) = c # cmps_in es" "cmps_in (Or ks # es) = cmps_in es"
  "ors_in [] = []" "ors_in (Cmp c # es) = ors_in es" "ors_in (Or (map Cmp cs) # es) = cs # ors_in es"
  by (simp_all add: cmps_in_def ors_in_def)

text \<open>A conjunction that can be translated: its clauses are on pairwise different fields.\<close>

definition clause_field :: "expr \<Rightarrow> mf_field" where
  "clause_field e = the (sym_field (the (expr_get_unique_symbol e)))"

definition flow_clause :: "expr_symbol set \<Rightarrow> expr \<Rightarrow> bool" where
  "flow_clause X e \<longleftrightarrow> (\<exists>c. e = Cmp c \<and> flow_cmp X c) \<or>
     (\<exists>cs. e = Or (map Cmp cs) \<and> cs \<noteq> [] \<and> (\<forall>c \<in> set cs. flow_cmp X c \<and> cmp_field c = clause_field e))"

lemma clause_field_Cmp [simp]: "clause_field (Cmp c) = cmp_field c"
  by (simp add: clause_field_def cmp_field_def)

lemma ev_clauses:
  "\<forall>e \<in> set es. flow_clause X e \<Longrightarrow>
     ev s r (And es) \<longleftrightarrow> (\<forall>c \<in> set (cmps_in es). s c) \<and> (\<forall>cs \<in> set (ors_in es). \<exists>c \<in> set cs. s c)"
proof (induction es)
  case (Cons e es)
  from Cons.prems have "flow_clause X e" by simp
  then show ?case using Cons by (auto simp: flow_clause_def)
qed simp

lemma conjunction_base_ok:
  assumes "\<forall>e \<in> set es. flow_clause X e" "distinct (map clause_field es)"
    and "\<forall>e \<in> set es. mf_get (clause_field e) m = (0, 0)"
  shows "if \<forall>c \<in> set (cmps_in es). known_port lp c
    then \<exists>m'. conjunction_base lp es m n = Some (Some (m', n + length (ors_in es))) \<and>
      (\<forall>f cid. packet_ok f \<longrightarrow> match_hits f cid m' = (match_hits f cid m \<and> (\<forall>c \<in> set (cmps_in es). cmp_sat f lp c))) \<and>
      (\<forall>mf. mf \<notin> cmp_field ` set (cmps_in es) \<longrightarrow> mf_get mf m' = mf_get mf m) \<and>
      conj_id m' = conj_id m \<and> conj_id_mask m' = conj_id_mask m
    else conjunction_base lp es m n = Some None"
  using assms
proof (induction es arbitrary: m n)
  case (Cons e es)
  from Cons.prems(1) have "flow_clause X e" by simp
  then consider (cmp) c where "e = Cmp c" "flow_cmp X c" | (or') cs where "e = Or (map Cmp cs)"
    by (auto simp: flow_clause_def)
  then show ?case
  proof cases
    case cmp
    then have sym: "eq_cmp X c" "flow_sym X (cmp_symbol c)" by (auto simp: flow_cmp_def)
    show ?thesis
    proof (cases "known_port lp c")
      case True
      have n: "narrows lp m c (constrained lp c m)"
        using constrained_narrows [OF sym True] Cons.prems(3) cmp by simp
      have "mf_get (clause_field x) (constrained lp c m) = (0, 0)" if "x \<in> set es" for x
      proof -
        have "clause_field x \<noteq> cmp_field c" using that Cons.prems(2) cmp(1) by force
        then show ?thesis using n that Cons.prems(3) by (simp add: narrows_def)
      qed
      then have "\<forall>e \<in> set es. mf_get (clause_field e) (constrained lp c m) = (0, 0)" by blast
      from Cons.IH [OF _ _ this, of n] Cons.prems n True cmp(1) show ?thesis
        by (auto simp: constrain_match_eq [OF sym(2)] narrows_def)
    qed (simp add: cmp(1) constrain_match_eq [OF sym(2)])
  next
    case or'
    with Cons.IH [of m "Suc n"] Cons.prems show ?thesis by (simp split: if_splits)
  qed
qed auto

text \<open>The flows for the clauses, up to the first clause that no port can satisfy.\<close>

primrec clause_flows :: "ports \<Rightarrow> match \<Rightarrow> u8 \<Rightarrow> u32 \<Rightarrow> expr_cmp list list \<Rightarrow> nat \<Rightarrow> bool \<times> expr_match list" where
  "clause_flows lp m N cid [] k = (True, [])"
| "clause_flows lp m N cid (cs # css) k =
     (if \<exists>c \<in> set cs. known_port lp c then
        let (ok, xs) = clause_flows lp m N cid css (k + 1) in (ok, disjuncts lp m (of_nat k) N cid cs @ xs)
      else (False, []))"

lemma disjuncts_none: "\<not> (\<exists>c \<in> set cs. known_port lp c) \<Longrightarrow> disjuncts lp m k n cid cs = []"
  by (auto simp: disjuncts_def filter_empty_conv)

lemma conjunction_clauses_eq:
  "\<forall>e \<in> set es. flow_clause X e \<Longrightarrow>
     conjunction_clauses lp m N cid es k ms =
       map_option (Pair (fst (clause_flows lp m (of_nat N) cid (ors_in es) k)))
         (adds ms (snd (clause_flows lp m (of_nat N) cid (ors_in es) k)))"
proof (induction es arbitrary: k ms)
  case (Cons e es)
  from Cons.prems have "flow_clause X e" by simp
  then consider (cmp) c where "e = Cmp c" | (or') cs where "e = Or (map Cmp cs)" "\<forall>c \<in> set cs. flow_cmp X c"
    by (auto simp: flow_clause_def)
  then show ?case
  proof cases
    case or'
    show ?thesis
    proof (cases "\<exists>c \<in> set cs. known_port lp c")
      case True
      with Cons or' show ?thesis
        by (auto simp: add_disjunction_eq [OF or'(2)] adds_append case_prod_unfold option.map_comp comp_def Let_def
            split: bind_splits)
    next
      case False
      then show ?thesis using or' by (simp add: add_disjunction_eq [OF or'(2)] disjuncts_none [OF False])
    qed
  qed (use Cons in simp)
qed simp

lemma conjunction_single_eq:
  "\<forall>e \<in> set es. flow_clause X e \<Longrightarrow>
     conjunction_single lp m es ms = adds ms (concat (map (disjuncts lp m 0 0 0) (ors_in es)))"
proof (induction es arbitrary: ms)
  case (Cons e es)
  from Cons.prems have "flow_clause X e" by simp
  then consider (cmp) c where "e = Cmp c" | (or') cs where "e = Or (map Cmp cs)" "\<forall>c \<in> set cs. flow_cmp X c"
    by (auto simp: flow_clause_def)
  then show ?case
    by cases (use Cons in \<open>auto simp: add_disjunction_eq adds_append case_prod_unfold split: bind_splits\<close>)
qed simp

lemma disjuncts_mask:
  assumes "\<forall>c \<in> set cs. flow_cmp X c \<and> mf_get (cmp_field c) m = (0, 0)" "x \<in> set (disjuncts lp m k n cid cs)"
  shows "conj_id_mask (em_match x) = conj_id_mask m"
proof -
  obtain c where "c \<in> set cs" "known_port lp c" "x = disjunct lp m k n cid c"
    using assms(2) by (auto simp: disjuncts_def)
  then show ?thesis using assms(1) constrained_narrows [of X c lp m] by (auto simp: flow_cmp_def narrows_def)
qed

lemma clause_flows_ids:
  assumes "\<forall>cs \<in> set css. \<forall>c \<in> set cs. flow_cmp X c \<and> mf_get (cmp_field c) m = (0, 0)" "conj_id_mask m = 0"
  shows "ids_in {cid} (snd (clause_flows lp m N cid css k))"
  using assms(1)
proof (induction css arbitrary: k)
  case (Cons cs css)
  have "\<forall>x \<in> set (disjuncts lp m (of_nat k) N cid cs). conj_id_mask (em_match x) = 0 \<and>
      (\<forall>c \<in> set (conjunctions x). cj_id c = cid)"
    using disjuncts_mask [of cs X m] Cons.prems assms(2) by (auto simp: disjuncts_def)
  with Cons show ?case by (auto simp: ids_in_def case_prod_unfold Let_def)
qed (simp add: ids_in_def)

lemma clause_flows_hits:
  assumes "\<forall>cs \<in> set css. \<forall>c \<in> set cs. flow_cmp X c \<and> mf_get (cmp_field c) m = (0, 0)" "packet_ok f" "cid \<noteq> 0"
  shows "\<not> accepts f c' (snd (clause_flows lp m N cid css k))"
    and "clause_hit f t (snd (clause_flows lp m N cid css k)) \<Longrightarrow> cj_id t = cid \<and> cj_n_clauses t = N"
    and "fst (clause_flows lp m N cid css k) \<Longrightarrow>
      clause_hit f t (snd (clause_flows lp m N cid css k)) \<longleftrightarrow>
        (\<exists>i < length css. t = \<lparr>cj_id = cid, cj_clause = of_nat (k + i), cj_n_clauses = N\<rparr> \<and>
           match_hits f 0 m \<and> (\<exists>c \<in> set (css ! i). cmp_sat f lp c))"
  using assms(1)
proof (induction css arbitrary: k)
  case (Cons cs css)
  note d = disjuncts_hits [OF _ assms(2), of cs X m, where cid = cid and n = N and lp = lp]
  {
    case 1
    then show ?case using Cons.IH(1) d(1) assms(3) by (simp add: case_prod_unfold Let_def)
  next
    case 2
    then show ?case using Cons.IH(2) [of "Suc k"] d(2) by (auto simp: case_prod_unfold Let_def split: if_splits)
  next
    case 3
    then have "fst (clause_flows lp m N cid css (Suc k))" "\<exists>c \<in> set cs. known_port lp c"
      by (auto simp: case_prod_unfold Let_def split: if_splits)
    with 3 show ?case using Cons.IH(3) [of "Suc k"] d(2) assms(3)
      by (simp add: case_prod_unfold Let_def Ex_less_Suc2 ac_simps) blast
  }
qed auto

lemma clause_flows_fst: "fst (clause_flows lp m N cid css k) \<longleftrightarrow> (\<forall>cs \<in> set css. \<exists>c \<in> set cs. known_port lp c)"
  by (induction css arbitrary: k) (auto simp: case_prod_unfold Let_def)

lemma small_clause_flows: "small (snd (clause_flows lp m N cid css k))"
  using small_disjuncts by (induction css arbitrary: k) (auto simp: case_prod_unfold Let_def small_def)

lemma all_clauses_iff:
  assumes "N < 256" "0 < N"
  shows "(\<exists>n :: u8. n \<noteq> 0 \<and> (\<forall>k < n. \<exists>i < N. k = of_nat i \<and> n = of_nat N \<and> Q i)) \<longleftrightarrow> (\<forall>i < N. Q i)"
proof
  assume "\<exists>n :: u8. n \<noteq> 0 \<and> (\<forall>k < n. \<exists>i < N. k = of_nat i \<and> n = of_nat N \<and> Q i)"
  then obtain n :: u8 where n: "n \<noteq> 0" "\<And>k. k < n \<Longrightarrow> \<exists>i < N. k = of_nat i \<and> n = of_nat N \<and> Q i" by blast
  have "0 < n" using n(1) by (simp add: word_neq_0_conv)
  with n(2) have N: "n = of_nat N" by blast
  show "\<forall>i < N. Q i"
  proof (intro allI impI)
    fix i assume i: "i < N"
    then have "(of_nat i :: u8) < n" using assms(1) by (simp add: N word_less_nat_alt unat_of_nat)
    then obtain j where j: "j < N" "(of_nat i :: u8) = of_nat j" "Q j" using n(2) by blast
    have "i mod 256 = j mod 256" using arg_cong [OF j(2), of unat] by (simp add: unat_of_nat)
    then have "i = j" using i j(1) assms(1) by simp
    with j(3) show "Q i" by simp
  qed
next
  assume Q: "\<forall>i < N. Q i"
  have "unat (of_nat N :: u8) = N" using assms(1) by (simp add: unat_of_nat)
  then have "\<exists>i < N. k = of_nat i \<and> Q i" if "k < (of_nat N :: u8)" for k
    using that Q by (intro exI [of _ "unat k"]) (simp add: word_less_nat_alt)
  moreover have "(of_nat N :: u8) \<noteq> 0" using assms \<open>unat _ = N\<close> by auto
  ultimately show "\<exists>n :: u8. n \<noteq> 0 \<and> (\<forall>k < n. \<exists>i < N. k = of_nat i \<and> n = of_nat N \<and> Q i)" by blast
qed

definition conj_flows :: "ports \<Rightarrow> match \<Rightarrow> u32 \<Rightarrow> expr_cmp list list \<Rightarrow> expr_match list" where
  "conj_flows lp m cid css =
     (let (ok, xs) = clause_flows lp m (of_nat (length css)) cid css 0 in
      xs @ (if ok then [expr_match_new (Some (match_set_conj_id m cid)) 0 0 0] else []))"

lemma block_conj:
  assumes css: "\<forall>cs \<in> set css. \<forall>c \<in> set cs. flow_cmp X c \<and> mf_get (cmp_field c) m = (0, 0)" "css \<noteq> []" "length css < 256"
    and m: "conj_id m = 0" "conj_id_mask m = 0" "\<And>f c. packet_ok f \<Longrightarrow> match_hits f c m = B f"
    and cid: "cid \<noteq> 0"
  shows "block {cid} (conj_flows lp m cid css) (\<lambda>f. B f \<and> (\<forall>cs \<in> set css. \<exists>c \<in> set cs. cmp_sat f lp c))"
proof -
  let ?cf = "clause_flows lp m (of_nat (length css)) cid css 0"
  let ?xs = "conj_flows lp m cid css"
  have small: "small ?xs"
    using small_clause_flows [of lp m _ cid css] by (auto simp: conj_flows_def case_prod_unfold Let_def small_def expr_match_new_def)
  have conj: "match_hits f c (match_set_conj_id m cid) \<longleftrightarrow> c = cid \<and> B f" if "packet_ok f" for f c
    using match_hits_conj_id [OF m(2,1), of f c cid 0] m(3) [OF that] by simp
  note h = clause_flows_hits [OF css(1) _ cid, where lp = lp and k = 0 and N = "of_nat (length css)"]
  have acc: "accepts f c ?xs \<longleftrightarrow> fst ?cf \<and> c = cid \<and> B f" if "packet_ok f" for f c
    using h(1) [OF that] conj [OF that] by (simp add: conj_flows_def case_prod_unfold Let_def expr_match_new_def)
  have cl: "clause_hit f t ?xs \<longleftrightarrow> clause_hit f t (snd ?cf)" for f t
    by (simp add: conj_flows_def case_prod_unfold Let_def expr_match_new_def)
  have "table_hits f ?xs \<longleftrightarrow> B f \<and> (\<forall>cs \<in> set css. \<exists>c \<in> set cs. cmp_sat f lp c)" if f: "packet_ok f" for f
  proof (cases "fst ?cf")
    case True
    have hit: "clause_hit f \<lparr>cj_id = cid, cj_clause = k, cj_n_clauses = n\<rparr> ?xs \<longleftrightarrow>
        (\<exists>i < length css. k = of_nat i \<and> n = of_nat (length css) \<and> (B f \<and> (\<exists>c \<in> set (css ! i). cmp_sat f lp c)))" for k n
      using h(3) [OF f True] m(3) [OF f] by (auto simp: cl)
    have "conj_hit f cid ?xs \<longleftrightarrow> (\<forall>i < length css. B f \<and> (\<exists>c \<in> set (css ! i). cmp_sat f lp c))"
      unfolding conj_hit_def hit by (rule all_clauses_iff) (use css in auto)
    moreover have "table_hits f ?xs \<longleftrightarrow> B f \<and> conj_hit f cid ?xs"
      using True acc [OF f] cid by (auto simp: table_hits_def)
    ultimately show ?thesis by (auto simp: all_set_conv_all_nth)
  next
    case False
    then obtain cs where cs: "cs \<in> set css" "\<forall>c \<in> set cs. \<not> known_port lp c" by (auto simp: clause_flows_fst)
    then have "\<not> (\<exists>c \<in> set cs. cmp_sat f lp c)" using css(1) not_known_port [of X] by (auto simp: flow_cmp_def)
    then show ?thesis using False acc [OF f] cs(1) by (auto simp: table_hits_def)
  qed
  moreover have "ids_in {cid} ?xs"
    using clause_flows_ids [OF css(1) m(2), of cid lp "of_nat (length css)" 0]
    by (auto simp: ids_in_def conj_flows_def case_prod_unfold Let_def expr_match_new_def match_set_conj_id_def)
  ultimately show ?thesis using small cid by (simp add: block_def)
qed

lemma set_cmps_in: "c \<in> set (cmps_in es) \<longleftrightarrow> Cmp c \<in> set es"
proof (induction es)
  case (Cons e es)
  then show ?case by (cases e) (auto simp: cmps_in_def)
qed simp

lemma set_ors_in:
  assumes "\<forall>e \<in> set es. flow_clause X e" "cs \<in> set (ors_in es)"
  shows "Or (map Cmp cs) \<in> set es"
  using assms
proof (induction es)
  case (Cons e es)
  from Cons.prems have "flow_clause X e" by simp
  then show ?case using Cons by (auto simp: flow_clause_def)
qed simp

lemma ors_fields:
  assumes "\<forall>e \<in> set es. flow_clause X e" "distinct (map clause_field es)" "cs \<in> set (ors_in es)" "c \<in> set cs"
  shows "flow_cmp X c" "cmp_field c \<notin> cmp_field ` set (cmps_in es)"
proof -
  have o: "Or (map Cmp cs) \<in> set es" by (rule set_ors_in [OF assms(1,3)])
  with assms(1) have "flow_clause X (Or (map Cmp cs))" by blast
  then obtain ds where ds: "map Cmp cs = map Cmp ds"
    "\<forall>c \<in> set ds. flow_cmp X c \<and> cmp_field c = clause_field (Or (map Cmp cs))"
    by (auto simp: flow_clause_def)
  from arg_cong [OF ds(1), of cmp_list] have "cs = ds" by simp
  with ds assms(4) have c: "flow_cmp X c" "cmp_field c = clause_field (Or (map Cmp cs))" by auto
  then show "flow_cmp X c" by simp
  have "clause_field (Cmp d) \<noteq> cmp_field c" if "Cmp d \<in> set es" for d
    using that o c(2) assms(2) unfolding distinct_map inj_on_def by (metis expr.distinct(3))
  then show "cmp_field c \<notin> cmp_field ` set (cmps_in es)"
    unfolding image_iff set_cmps_in by (metis set_cmps_in clause_field_Cmp)
qed

definition conjunction_flows :: "ports \<Rightarrow> match \<Rightarrow> u32 \<Rightarrow> expr_cmp list list \<Rightarrow> u32 \<times> expr_match list" where
  "conjunction_flows lp m n css =
     (case css of
        [] \<Rightarrow> (n, [expr_match_new (Some m) 0 0 0])
      | [cs] \<Rightarrow> (n, disjuncts lp m 0 0 0 cs)
      | _ \<Rightarrow> (n + 1, conj_flows lp m (n + 1) css))"

lemma bind_Some_map: "Option.bind x (\<lambda>y. Some (g y)) = map_option g x"
  by (cases x) auto

lemma add_conjunction_eq:
  assumes "\<forall>e \<in> set es. flow_clause X e"
    and "conjunction_base lp es match_init_catchall 0 = Some (Some (m, length (ors_in es)))"
  shows "add_conjunction (And es) lp n ms =
    map_option (Pair (fst (conjunction_flows lp m n (ors_in es)))) (adds ms (snd (conjunction_flows lp m n (ors_in es))))"
proof (cases "ors_in es" rule: remdups_adj.cases)
  case (3 cs ds css)
  let ?N = "length (ors_in es)"
  have "?N \<noteq> 0" "?N \<noteq> 1" by (simp_all add: 3)
  then have "add_conjunction (And es) lp n ms = Option.bind (conjunction_clauses lp m ?N (n + 1) es 0 ms)
      (\<lambda>(ok, ms'). if ok then map_option (Pair (n + 1))
         (expr_match_add (expr_match_new (Some (match_set_conj_id m (n + 1))) 0 0 0) ms') else Some (n + 1, ms'))"
    using assms(2) unfolding add_conjunction_def bind_Some_map by simp
  also have "\<dots> = map_option (Pair (n + 1)) (adds ms (conj_flows lp m (n + 1) (ors_in es)))"
    unfolding conjunction_clauses_eq [OF assms(1)]
    by (auto simp: conj_flows_def case_prod_unfold Let_def adds_append split: bind_splits)
  finally show ?thesis by (simp add: conjunction_flows_def 3)
qed (use assms(2) conjunction_single_eq [OF assms(1), of lp m ms] in
    \<open>auto simp: add_conjunction_def conjunction_flows_def split: bind_splits\<close>)

lemma conjunction_flows_block:
  assumes es: "\<forall>e \<in> set es. flow_clause X e" "distinct (map clause_field es)" "length (ors_in es) < 256"
    and m: "conj_id m = 0" "conj_id_mask m = 0"
      "\<And>f c. packet_ok f \<Longrightarrow> match_hits f c m \<longleftrightarrow> (\<forall>c \<in> set (cmps_in es). cmp_sat f lp c)"
      "\<And>mf. mf \<notin> cmp_field ` set (cmps_in es) \<Longrightarrow> mf_get mf m = (0, 0)"
    and n: "n + 1 < 2 ^ 32"
  shows "\<exists>n' \<in> {n, n + 1}. fst (conjunction_flows lp m (of_nat n) (ors_in es)) = of_nat n' \<and>
    block (of_nat ` {n<..n'}) (snd (conjunction_flows lp m (of_nat n) (ors_in es))) (\<lambda>f. ev (cmp_sat f lp) r (And es))"
proof -
  note ev = ev_clauses [OF es(1)]
  have css: "\<forall>cs \<in> set (ors_in es). \<forall>c \<in> set cs. flow_cmp X c \<and> mf_get (cmp_field c) m = (0, 0)"
    using ors_fields [OF es(1,2)] m(4) by blast
  show ?thesis
  proof (cases "ors_in es" rule: remdups_adj.cases)
    case 1
    have "block {} [expr_match_new (Some m) 0 0 0] (\<lambda>f. ev (cmp_sat f lp) r (And es))"
      unfolding ev 1 by (rule block_ordinary) (use m(2,3) in \<open>auto simp: expr_match_new_def\<close>)
    then show ?thesis by (auto simp: conjunction_flows_def 1)
  next
    case (2 cs)
    have "block {} (disjuncts lp m 0 0 0 cs) (\<lambda>f. ev (cmp_sat f lp) r (And es))"
    proof (rule block_ordinary)
      show "conjunctions x = [] \<and> conj_id_mask (em_match x) = 0" if "x \<in> set (disjuncts lp m 0 0 0 cs)" for x
        using that disjuncts_mask [OF _ that, of X] css m(2) 2 by (auto simp: disjuncts_def)
      show "accepts f c (disjuncts lp m 0 0 0 cs) \<longleftrightarrow> ev (cmp_sat f lp) r (And es)" if "packet_ok f" for f c
        using disjuncts_hits(1) [OF _ that, of cs X m] css m(3) [OF that] unfolding ev 2 by simp
    qed
    then show ?thesis by (auto simp: conjunction_flows_def 2)
  next
    case (3 cs ds rest)
    have cid: "(of_nat n + 1 :: u32) \<noteq> 0"
    proof -
      have "unat (of_nat (Suc n) :: u32) = Suc n" using n by (simp only: unat_of_nat) simp
      then show ?thesis by (metis Suc_neq_Zero of_nat_Suc add.commute unat_0)
    qed
    have "block {of_nat n + 1} (conj_flows lp m (of_nat n + 1) (ors_in es)) (\<lambda>f. ev (cmp_sat f lp) r (And es))"
      unfolding ev by (rule block_conj [OF css _ es(3) m(1,2,3) cid]) (simp_all add: 3)
    moreover have "{n<..n + 1} = {n + 1}" by auto
    ultimately show ?thesis by (intro bexI [of _ "n + 1"]) (simp_all add: conjunction_flows_def 3 add.commute)
  qed
qed

lemma add_conjunction_ok:
  assumes es: "\<forall>e \<in> set es. flow_clause X e" "distinct (map clause_field es)" "length (ors_in es) < 256"
    and n: "n + 1 < 2 ^ 32"
  shows "\<exists>n' xs. (n' = n \<or> n' = n + 1) \<and>
    (\<forall>ms. add_conjunction (And es) lp (of_nat n) ms = map_option (Pair (of_nat n')) (adds ms xs)) \<and>
    block (of_nat ` {n<..n'}) xs (\<lambda>f. ev (cmp_sat f lp) r (And es))"
proof (cases "\<forall>c \<in> set (cmps_in es). known_port lp c")
  case True
  then obtain m where m: "conjunction_base lp es match_init_catchall 0 = Some (Some (m, length (ors_in es)))"
    "\<And>f cid. packet_ok f \<Longrightarrow> match_hits f cid m = (\<forall>c \<in> set (cmps_in es). cmp_sat f lp c)"
    "\<And>mf. mf \<notin> cmp_field ` set (cmps_in es) \<Longrightarrow> mf_get mf m = (0, 0)" "conj_id m = 0" "conj_id_mask m = 0"
    using conjunction_base_ok [OF es(1,2), of match_init_catchall lp 0] by auto
  show ?thesis
    using conjunction_flows_block [OF es m(4,5,2,3) n, of r] add_conjunction_eq [OF es(1) m(1)] by fastforce
next
  case False
  then have "conjunction_base lp es match_init_catchall 0 = Some None"
    using conjunction_base_ok [OF es(1,2), of match_init_catchall lp 0] by simp
  then have "add_conjunction (And es) lp (of_nat n) ms = map_option (Pair (of_nat n)) (adds ms [])" for ms
    by (simp add: add_conjunction_def)
  moreover have "\<not> ev (cmp_sat f lp) r (And es)" for f
  proof -
    from False obtain c where c: "Cmp c \<in> set es" "\<not> known_port lp c" by (auto simp: set_cmps_in)
    with es(1) have "flow_clause X (Cmp c)" by blast
    then have "\<not> cmp_sat f lp c" using not_known_port [of X c lp f] c(2) by (auto simp: flow_clause_def flow_cmp_def)
    with c(1) show ?thesis by force
  qed
  then have "block {} [] (\<lambda>f. ev (cmp_sat f lp) r (And es))" using block_Nil by (simp add: block_cong)
  ultimately show ?thesis by (intro exI [of _ n] exI [of _ "[]"]) simp
qed

section \<open>Normalized expressions\<close>

lemma block_append_ids:
  assumes "block (of_nat ` {a<..b}) xs P" "block (of_nat ` {b<..c}) ys Q" "a \<le> b" "b \<le> c" "c < 2 ^ 32"
  shows "block (of_nat ` {a<..c}) (xs @ ys) (\<lambda>f. P f \<or> Q f)"
proof -
  have inj: "i = j" if "(of_nat i :: u32) = of_nat j" "i \<le> c" "j \<le> c" for i j
  proof -
    have "unat (of_nat i :: u32) = i" "unat (of_nat j :: u32) = j"
      using that(2,3) assms(5) by (simp_all only: unat_of_nat) simp_all
    then show ?thesis using that(1) by metis
  qed
  have "(of_nat ` {a<..b} :: u32 set) \<inter> of_nat ` {b<..c} = {}" using assms(4) by (auto dest: inj)
  moreover have "(of_nat ` {a<..b} :: u32 set) \<union> of_nat ` {b<..c} = of_nat ` {a<..c}"
    using assms(3,4) by (auto simp flip: image_Un intro!: arg_cong [where f = "image of_nat"])
  ultimately show ?thesis using block_append [OF assms(1,2)] by simp
qed

lemma add_cmp_flow_ok:
  assumes "flow_cmp X c"
  shows "\<exists>xs. (\<forall>ms. add_cmp_flow (Cmp c) lp ms = adds ms xs) \<and> block {} xs (\<lambda>f. cmp_sat f lp c)"
proof (cases "known_port lp c")
  case True
  let ?x = "(expr_match_new None 0 0 0)\<lparr>em_match := constrained lp c match_init_catchall\<rparr>"
  have c: "eq_cmp X c" "flow_sym X (cmp_symbol c)" using assms by (auto simp: flow_cmp_def)
  have "add_cmp_flow (Cmp c) lp ms = adds ms [?x]" for ms
    using True unfolding adds_single
    by (simp add: add_cmp_flow_def Let_def constrain_match_eq [OF c(2)] expr_match_new_def)
  moreover have "block {} [?x] (\<lambda>f. cmp_sat f lp c)"
    using constrained_narrows [OF c True, of match_init_catchall]
    by (intro block_ordinary) (auto simp: expr_match_new_def narrows_def)
  ultimately show ?thesis by blast
next
  case False
  have c: "eq_cmp X c" "flow_sym X (cmp_symbol c)" using assms by (auto simp: flow_cmp_def)
  have "add_cmp_flow (Cmp c) lp ms = adds ms []" for ms
    using False by (simp add: add_cmp_flow_def Let_def constrain_match_eq [OF c(2)] expr_match_new_def)
  moreover have "block {} [] (\<lambda>f. cmp_sat f lp c)"
    using block_Nil not_known_port [OF c(1) False] by (simp add: block_cong)
  ultimately show ?thesis by blast
qed

definition flow_elem :: "expr_symbol set \<Rightarrow> expr \<Rightarrow> bool" where
  "flow_elem X e \<longleftrightarrow> (\<exists>c. e = Cmp c \<and> flow_cmp X c) \<or>
     (\<exists>es. e = And es \<and> (\<forall>k \<in> set es. flow_clause X k) \<and> distinct (map clause_field es) \<and> length (ors_in es) < 256)"

lemma flow_elem_ok:
  assumes "flow_elem X e" "n + 1 < 2 ^ 32"
  shows "\<exists>n' xs. n \<le> n' \<and> n' \<le> n + 1 \<and>
    (\<forall>ms. (if expr_type_of e = T_AND then add_conjunction e lp (of_nat n) ms
           else map_option (Pair (of_nat n)) (add_cmp_flow e lp ms)) = map_option (Pair (of_nat n')) (adds ms xs)) \<and>
    block (of_nat ` {n<..n'}) xs (\<lambda>f. ev (cmp_sat f lp) r e)"
  using assms(1) unfolding flow_elem_def
proof
  assume "\<exists>c. e = Cmp c \<and> flow_cmp X c"
  then obtain c where c: "e = Cmp c" "flow_cmp X c" by blast
  from add_cmp_flow_ok [OF c(2), of lp] obtain xs where
    "\<forall>ms. add_cmp_flow (Cmp c) lp ms = adds ms xs" "block {} xs (\<lambda>f. cmp_sat f lp c)" by blast
  then show ?thesis by (intro exI [of _ n] exI [of _ xs]) (simp add: c(1))
next
  assume "\<exists>es. e = And es \<and> (\<forall>k \<in> set es. flow_clause X k) \<and> distinct (map clause_field es) \<and> length (ors_in es) < 256"
  then obtain es where es: "e = And es" "\<forall>k \<in> set es. flow_clause X k" "distinct (map clause_field es)" "length (ors_in es) < 256"
    by blast
  from add_conjunction_ok [OF es(2-4) assms(2), of lp r] obtain n' xs where "n' = n \<or> n' = n + 1"
    "\<forall>ms. add_conjunction (And es) lp (of_nat n) ms = map_option (Pair (of_nat n')) (adds ms xs)"
    "block (of_nat ` {n<..n'}) xs (\<lambda>f. ev (cmp_sat f lp) r (And es))" by blast
  then show ?thesis unfolding es(1) by (intro exI [of _ n'] exI [of _ xs]) (auto simp del: ev.simps)
qed

lemma to_matches_or_ok:
  "\<forall>e \<in> set es. flow_elem X e \<Longrightarrow> (u \<Longrightarrow> \<forall>e \<in> set es. expr_type_of e \<noteq> T_AND) \<Longrightarrow> n + length es < 2 ^ 32 \<Longrightarrow>
   \<exists>n' xs. n \<le> n' \<and> n' \<le> n + length es \<and>
    (\<forall>ms. to_matches_or u lp es (of_nat n) ms = map_option (Pair (of_nat n')) (adds ms xs)) \<and>
    block (of_nat ` {n<..n'}) xs (\<lambda>f. \<exists>e \<in> set es. ev (cmp_sat f lp) r e)"
proof (induction es arbitrary: n)
  case Nil
  then show ?case using block_Nil by (intro exI [of _ n] exI [of _ "[]"]) simp
next
  case (Cons e es)
  have "flow_elem X e" "n + 1 < 2 ^ 32" using Cons.prems by auto
  from flow_elem_ok [OF this, of lp r] obtain n1 xs where 1: "n \<le> n1" "n1 \<le> n + 1"
    "\<And>ms. (if expr_type_of e = T_AND then add_conjunction e lp (of_nat n) ms
       else map_option (Pair (of_nat n)) (add_cmp_flow e lp ms)) = map_option (Pair (of_nat n1)) (adds ms xs)"
    "block (of_nat ` {n<..n1}) xs (\<lambda>f. ev (cmp_sat f lp) r e)" by blast
  obtain n2 ys where 2: "n1 \<le> n2" "n2 \<le> n1 + length es"
    "\<And>ms. to_matches_or u lp es (of_nat n1) ms = map_option (Pair (of_nat n2)) (adds ms ys)"
    "block (of_nat ` {n1<..n2}) ys (\<lambda>f. \<exists>e \<in> set es. ev (cmp_sat f lp) r e)"
    using Cons.IH [of n1] Cons.prems 1(1,2) by (auto simp: order_trans)
  have "to_matches_or u lp (e # es) (of_nat n) ms = map_option (Pair (of_nat n2)) (adds ms (xs @ ys))" for ms
  proof -
    have "to_matches_or u lp (e # es) (of_nat n) ms =
        Option.bind (if expr_type_of e = T_AND then add_conjunction e lp (of_nat n) ms
          else map_option (Pair (of_nat n)) (add_cmp_flow e lp ms)) (\<lambda>(k, ms'). to_matches_or u lp es k ms')"
      using Cons.prems(2) by (auto simp: map_conv_bind_option)
    then show ?thesis unfolding 1(3) by (simp add: adds_append 2(3) map_conv_bind_option)
  qed
  moreover have "block (of_nat ` {n<..n2}) (xs @ ys) (\<lambda>f. \<exists>e \<in> set (e # es). ev (cmp_sat f lp) r e)"
    using block_append_ids [OF 1(4) 2(4) 1(1) 2(1)] 1(2) 2(2) Cons.prems(3) by simp
  ultimately show ?case using 1(1,2) 2(1,2) by (intro exI [of _ n2] exI [of _ "xs @ ys"]) simp
qed

text \<open>Merging keeps the ids.\<close>

lemma expr_match_add_ids: "expr_match_add x ms = Some ms' \<Longrightarrow> ids_in I ms \<Longrightarrow> ids_in I [x] \<Longrightarrow> ids_in I ms'"
proof (induction ms arbitrary: ms')
  case (Cons m ms)
  have m: "ids_in I [m]" "ids_in I ms" using Cons.prems(2) by (auto simp: ids_in_def)
  have "ids_in I (m\<lparr>conjunctions := [], em_as_name := None\<rparr> # ms)"
    "ids_in I (m\<lparr>conjunctions := conjunctions m @ conjunctions x, em_as_name := None\<rparr> # ms)"
    using m Cons.prems(3) by (simp_all add: ids_in_def ball_Un)
  moreover have "ids_in I (m # ms1)" if "expr_match_add x ms = Some ms1" for ms1
    using Cons.IH [OF that m(2) Cons.prems(3)] m(1) by (simp add: ids_in_def)
  ultimately show ?case using Cons.prems(1) by (auto split: if_splits)
qed simp

lemma adds_ids: "adds ms xs = Some ms' \<Longrightarrow> ids_in I ms \<Longrightarrow> ids_in I xs \<Longrightarrow> ids_in I ms'"
proof (induction xs arbitrary: ms)
  case (Cons x xs)
  then obtain ms1 where ms1: "expr_match_add x ms = Some ms1" "adds ms1 xs = Some ms'"
    by (auto simp: bind_eq_Some_conv)
  have "ids_in I [x]" "ids_in I xs" using Cons.prems(3) by (auto simp: ids_in_def)
  then show ?case using Cons.IH [OF ms1(2)] expr_match_add_ids [OF ms1(1) Cons.prems(2)] by blast
qed simp

text \<open>
  The symbols of an expression that can be translated: each has a field of its own, and is in order
  in the sense of \<open>flow_sym\<close>. \<open>fits\<close> bounds the size of the expression by what the members of
  \<open>struct cls_conjunction\<close> can hold: fewer than 256 clauses in a conjunction, and as many
  conjunctions as there are nonzero 32-bit ids.
\<close>

definition flow_syms :: "expr_symbol set \<Rightarrow> expr_symbol set \<Rightarrow> bool" where
  "flow_syms X S \<longleftrightarrow> (\<forall>s \<in> S. flow_sym X s) \<and> inj_on sym_field S"

definition fits :: "expr \<Rightarrow> bool" where
  "fits e \<longleftrightarrow> length (andor e) + 1 < 2 ^ 32 \<and>
     (\<forall>x \<in> set (e # andor e). expr_type_of x = T_AND \<longrightarrow> length (filter (\<lambda>k. expr_type_of k = T_OR) (andor x)) < 256)"

lemma length_ors_in: "length (ors_in es) \<le> length (filter (\<lambda>k. expr_type_of k = T_OR) es)"
proof (induction es)
  case (Cons e es)
  then show ?case by (cases e) (auto simp: ors_in_def split: option.splits)
qed simp

lemma clause_flow:
  assumes "clause X S x" "flow_syms X S"
  shows "flow_clause X x"
proof -
  obtain s where s: "s \<in> S" "(\<exists>c. x = Cmp c \<and> eq_cmp X c \<and> cmp_symbol c = s) \<or> or_form X s x"
    using assms(1) unfolding clause_def by blast
  have fs: "flow_sym X s" using assms(2) s(1) by (simp add: flow_syms_def)
  from s(2) show ?thesis
  proof
    assume "or_form X s x"
    then obtain cs where cs: "x = Or (map Cmp cs)" "2 \<le> length cs" "ok_cmps X s cs" by (rule or_formE)
    have "expr_get_unique_symbol x = Some s" by (rule unique_symbol_or_form [OF \<open>or_form X s x\<close>])
    then have "flow_cmp X c \<and> cmp_field c = clause_field x" if "c \<in> set cs" for c
      using that cs(3) fs by (simp add: ok_cmps_def flow_cmp_def clause_field_def cmp_field_def)
    moreover have "cs \<noteq> []" using cs(2) by auto
    ultimately show ?thesis using cs(1) unfolding flow_clause_def
      by (intro disjI2 exI [of _ cs] conjI ballI) simp_all
  next
    assume "\<exists>c. x = Cmp c \<and> eq_cmp X c \<and> cmp_symbol c = s"
    then show ?thesis using fs by (intro disjI1 flow_clause_def [THEN iffD2]) (auto simp: flow_cmp_def)
  qed
qed

lemma norm_and_fields:
  assumes "norm_and X S es" "flow_syms X S"
  shows "distinct (map clause_field es)"
proof -
  have sub: "set (map expr_get_unique_symbol es) \<subseteq> Some ` S"
    using assms(1) unique_symbol_or_form by (fastforce simp: norm_and_def clause_def)
  have "inj_on (\<lambda>u. the (sym_field (the u))) (Some ` S)"
  proof (rule inj_onI, clarsimp)
    fix s t assume st: "s \<in> S" "t \<in> S" "the (sym_field s) = the (sym_field t)"
    moreover have "sym_field s \<noteq> None" "sym_field t \<noteq> None"
      using assms(2) st(1,2) by (auto simp: flow_syms_def flow_sym_def)
    ultimately have "sym_field s = sym_field t" by auto
    then show "s = t" using assms(2) st(1,2) by (auto simp: flow_syms_def dest: inj_onD)
  qed
  then have "inj_on (\<lambda>u. the (sym_field (the u))) (set (map expr_get_unique_symbol es))"
    using sub by (rule inj_on_subset)
  then have "distinct (map (\<lambda>u. the (sym_field (the u))) (map expr_get_unique_symbol es))"
    using assms(1) by (subst distinct_map) (simp add: norm_and_def)
  moreover have "map clause_field es = map (\<lambda>u. the (sym_field (the u))) (map expr_get_unique_symbol es)"
    by (simp add: clause_field_def)
  ultimately show ?thesis by (simp only:)
qed

lemma norm_elem_flow:
  assumes "norm_elem X S x" "flow_syms X S"
    and "expr_type_of x = T_AND \<Longrightarrow> length (filter (\<lambda>k. expr_type_of k = T_OR) (andor x)) < 256"
  shows "flow_elem X x"
  using assms(1) unfolding norm_elem_def
proof
  assume "\<exists>es. x = And es \<and> norm_and X S es"
  then obtain es where es: "x = And es" "norm_and X S es" by blast
  then have "\<forall>k \<in> set es. flow_clause X k" using clause_flow [OF _ assms(2)] by (auto simp: norm_and_def)
  then show ?thesis
    using norm_and_fields [OF es(2) assms(2)] assms(3) length_ors_in [of es] es(1) by (auto simp: flow_elem_def)
qed (use assms(2) in \<open>auto simp: flow_elem_def flow_cmp_def flow_syms_def\<close>)

text \<open>A disjunction with a single symbol has no conjunctions below it.\<close>

lemma norm_and_no_unique: "norm_and X S es \<Longrightarrow> expr_get_unique_symbol (And es) = None"
proof -
  assume a: "norm_and X S es"
  then obtain x y zs where es: "es = x # y # zs" by (cases es rule: remdups_adj.cases) (auto simp: norm_and_def)
  with a have "expr_get_unique_symbol x \<noteq> expr_get_unique_symbol y" by (simp add: norm_and_def)
  then show ?thesis by (auto simp: es split: option.splits)
qed

lemma unique_loop_none: "x \<in> set es \<Longrightarrow> expr_get_unique_symbol x = None \<Longrightarrow> unique_symbol_loop p es = None"
  by (induction es arbitrary: p) (auto split: option.splits)

lemma unique_no_and:
  assumes "expr_get_unique_symbol (Or es) \<noteq> None" "\<forall>x \<in> set es. norm_elem X S x" "x \<in> set es"
  shows "expr_type_of x \<noteq> T_AND"
  using assms unique_loop_none [OF assms(3)] norm_and_no_unique [of X S]
  by (auto simp: norm_elem_def)

lemma expr_to_matches_block:
  assumes "normalized X S e" "flow_syms X S" "fits e"
  shows "\<exists>n xs. n < 2 ^ 32 \<and> expr_to_matches e lp = map_option (Pair (of_nat n)) (adds [] xs) \<and>
    block (of_nat ` {0<..n}) xs (\<lambda>f. ev (cmp_sat f lp) r e)"
proof -
  consider (bool) b where "e = Boolean b" | (elem) "norm_elem X S e"
    | (or') es where "e = Or es" "\<forall>x \<in> set es. norm_elem X S x"
    using assms(1) by (auto simp: normalized_def)
  then show ?thesis
  proof cases
    case bool
    let ?xs = "if b then [expr_match_new None 0 0 0] else []"
    have "block {} ?xs (\<lambda>f. b)" by (rule block_ordinary) (auto simp: expr_match_new_def split: if_splits)
    then show ?thesis by (intro exI [of _ 0] exI [of _ ?xs]) (simp add: bool expr_to_matches_def)
  next
    case elem
    then have "flow_elem X e" using norm_elem_flow [OF elem assms(2)] assms(3) by (simp add: fits_def)
    have "(0 :: nat) + 1 < 2 ^ 32" by simp
    from flow_elem_ok [OF \<open>flow_elem X e\<close> this, of lp r]
    obtain n xs where n: "n \<le> 0 + 1" "block (of_nat ` {0<..n}) xs (\<lambda>f. ev (cmp_sat f lp) r e)"
      "\<And>ms. (if expr_type_of e = T_AND then add_conjunction e lp (of_nat 0) ms
        else map_option (Pair (of_nat 0)) (add_cmp_flow e lp ms)) = map_option (Pair (of_nat n)) (adds ms xs)" by blast
    have "expr_to_matches e lp = (if expr_type_of e = T_AND then add_conjunction e lp (of_nat 0) []
        else map_option (Pair (of_nat 0)) (add_cmp_flow e lp []))"
      using elem by (auto simp: norm_elem_def expr_to_matches_def)
    with n show ?thesis by (intro exI [of _ n] exI [of _ xs]) simp
  next
    case or'
    have e: "\<forall>x \<in> set es. flow_elem X x" "length es < 2 ^ 32"
      using norm_elem_flow [OF _ assms(2)] or' assms(3) by (auto simp: fits_def)
    from to_matches_or_ok [OF e(1), of "expr_get_unique_symbol e \<noteq> None" 0 lp r] e(2)
      unique_no_and [of es X S] or'
    obtain n xs where n: "n \<le> length es" "block (of_nat ` {0<..n}) xs (\<lambda>f. \<exists>e \<in> set es. ev (cmp_sat f lp) r e)"
      "to_matches_or (expr_get_unique_symbol e \<noteq> None) lp es 0 [] = map_option (Pair (of_nat n)) (adds [] xs)" by auto
    with e(2) show ?thesis by (intro exI [of _ n] exI [of _ xs]) (simp add: or'(1) expr_to_matches_def)
  qed
qed

lemma simple_ev: "simple False e \<Longrightarrow> ev s r e = ev s r' e"
proof (induction e)
  case (And es)
  then have "ev s r e = ev s r' e" if "e \<in> set es" for e using that by (auto simp: simple_def)
  then show ?case by simp
next
  case (Or es)
  then have "ev s r e = ev s r' e" if "e \<in> set es" for e using that by (auto simp: simple_def)
  then show ?case by simp
qed (auto simp: simple_def)

lemma expr_to_matches_ok:
  assumes "normalized X S e" "flow_syms X S" "fits e"
  shows "\<exists>n ms. expr_to_matches e lp = Some (n, ms) \<and> ids_in {1..n} ms \<and>
    (\<forall>f r. packet_ok f \<longrightarrow> table_hits f ms = ev (cmp_sat f lp) r e)"
proof -
  obtain n xs where n: "n < 2 ^ 32" "expr_to_matches e lp = map_option (Pair (of_nat n)) (adds [] xs)"
    "block (of_nat ` {0<..n}) xs (\<lambda>f. ev (cmp_sat f lp) (\<lambda>_. True) e)"
    using expr_to_matches_block [OF assms] by blast
  have "small xs" "ids_in (of_nat ` {0<..n}) xs" using n(3) by (auto simp: block_def)
  obtain ms where ms: "adds [] xs = Some ms" using adds_total [OF \<open>small xs\<close>] by blast
  have ids: "ids_in (of_nat ` {0<..n}) ms"
    by (rule adds_ids [OF ms _ \<open>ids_in _ xs\<close>]) (simp add: ids_in_def)
  have "(of_nat ` {0<..n} :: u32 set) \<subseteq> {1..of_nat n}"
  proof
    fix x :: u32 assume "x \<in> of_nat ` {0<..n}"
    then obtain i where i: "x = of_nat i" "0 < i" "i \<le> n" by auto
    have "unat (of_nat i :: u32) = i" "unat (of_nat n :: u32) = n"
      using i(3) n(1) by (simp_all only: unat_of_nat) simp_all
    then show "x \<in> {1..of_nat n}" using i by (simp add: word_le_nat_alt)
  qed
  then have "ids_in {1..of_nat n} ms" using ids unfolding ids_in_def by blast
  moreover have "table_hits f ms = ev (cmp_sat f lp) r e" if "packet_ok f" for f r
  proof -
    have "ev (cmp_sat f lp) (\<lambda>_. True) e = ev (cmp_sat f lp) r e"
      by (rule simple_ev) (use normalized_norm_in [OF assms(1)] in \<open>auto simp: norm_in_def\<close>)
    then show ?thesis using adds_hits [OF ms] blockD(3) [OF n(3) that] by simp
  qed
  ultimately show ?thesis using ms n(2) by auto
qed

section \<open>Moving the conjunction ids\<close>

lemma unat_add_u32: "unat a + unat b < 2 ^ 32 \<Longrightarrow> unat (a + b) = unat a + unat b" for a b :: u32
  by (simp add: unat_word_ariths)

lemma prepare_hits:
  assumes "conj_id_mask (em_match m) = 0 \<or> conj_id_mask (em_match m) = -1"
  shows "match_hits f (c + ofs) (em_match (prepare_match ofs m)) \<longleftrightarrow> match_hits f c (em_match m)"
  using assms by (auto simp: prepare_match_def match_hits_def mf_get_def)

lemma prepare_zero:
  assumes "conj_id_mask (em_match m) = 0 \<or> (conj_id_mask (em_match m) = -1 \<and> conj_id (em_match m) \<in> {1..n})"
    and "unat n + unat ofs < 2 ^ 32"
  shows "match_hits f 0 (em_match (prepare_match ofs m)) \<longleftrightarrow> match_hits f 0 (em_match m)"
proof (cases "conj_id_mask (em_match m) = 0")
  case False
  let ?i = "conj_id (em_match m)"
  have i: "?i \<in> {1..n}" "conj_id_mask (em_match m) = -1" using assms(1) False by auto
  have "unat (?i + ofs) = unat ?i + unat ofs"
    by (rule unat_add_u32) (use i(1) assms(2) in \<open>simp add: word_le_nat_alt\<close>)
  moreover have "unat ?i \<noteq> 0" using i(1) by (auto simp: word_le_nat_alt)
  ultimately have "?i + ofs \<noteq> 0" "?i \<noteq> 0" by auto
  then show ?thesis using i(2) by (simp add: match_hits_def prepare_match_def)
qed (simp add: prepare_match_def)

lemma add_range:
  fixes i n ofs :: u32
  assumes "i \<in> {1..n}" "unat n + unat ofs < 2 ^ 32"
  shows "i + ofs \<in> {ofs + 1..ofs + n}"
proof -
  have *: "unat (j + ofs) = unat j + unat ofs" if "j \<le> n" for j
    by (rule unat_add_u32) (use that assms(2) in \<open>simp add: word_le_nat_alt\<close>)
  have i: "1 \<le> i" "i \<le> n" "1 \<le> n" using assms(1) order_trans [of 1 i n] by auto
  show ?thesis
    using i * [of i] * [of 1] * [of n] by (simp add: word_le_nat_alt add.commute)
qed

lemma expr_matches_prepare_ok:
  assumes "ids_in {1..n} ms" "unat n + unat ofs < 2 ^ 32"
  shows "ids_in {ofs + 1..ofs + n} (expr_matches_prepare ms ofs)"
    and "table_hits f (expr_matches_prepare ms ofs) = table_hits f ms"
proof -
  have ok: "conj_id_mask (em_match m) = 0 \<or> (conj_id_mask (em_match m) = -1 \<and> conj_id (em_match m) \<in> {1..n})"
    "\<forall>c \<in> set (conjunctions m). cj_id c \<in> {1..n}" if "m \<in> set ms" for m
    using assms(1) that by (auto simp: ids_in_def)
  show "ids_in {ofs + 1..ofs + n} (expr_matches_prepare ms ofs)"
    unfolding ids_in_def expr_matches_prepare_def set_map ball_simps(9)
  proof (rule ballI, rule conjI)
    fix m assume m: "m \<in> set ms"
    from ok(1) [OF m] show "conj_id_mask (em_match (prepare_match ofs m)) = 0 \<or>
        conj_id_mask (em_match (prepare_match ofs m)) = -1 \<and> conj_id (em_match (prepare_match ofs m)) \<in> {ofs + 1..ofs + n}"
    proof
      assume "conj_id_mask (em_match m) = -1 \<and> conj_id (em_match m) \<in> {1..n}"
      then show ?thesis using add_range [OF _ assms(2)] by (simp add: prepare_match_def)
    qed (simp add: prepare_match_def)
    show "\<forall>c \<in> set (conjunctions (prepare_match ofs m)). cj_id c \<in> {ofs + 1..ofs + n}"
      using ok(2) [OF m] add_range [OF _ assms(2)] by (simp add: prepare_match_def)
  qed
  have conj: "conjunctions (prepare_match ofs m) = [] \<longleftrightarrow> conjunctions m = []" for m
    by (simp add: prepare_match_def)
  have a0: "accepts f 0 (expr_matches_prepare ms ofs) = accepts f 0 ms"
    using prepare_zero [OF ok(1) assms(2)] by (auto simp: accepts_def expr_matches_prepare_def conj)
  have "match_hits f (c + ofs) (em_match (prepare_match ofs m)) = match_hits f c (em_match m)"
    if "m \<in> set ms" for c m by (rule prepare_hits) (use ok(1) [OF that] in blast)
  then have ac: "accepts f (c + ofs) (expr_matches_prepare ms ofs) = accepts f c ms" for c
    by (auto simp: accepts_def expr_matches_prepare_def conj)
  have mem: "\<lparr>cj_id = c + ofs, cj_clause = k, cj_n_clauses = n\<rparr> \<in> set (conjunctions (prepare_match ofs m)) \<longleftrightarrow>
      \<lparr>cj_id = c, cj_clause = k, cj_n_clauses = n\<rparr> \<in> set (conjunctions m)" for c k n m
  proof -
    have "\<lparr>cj_id = c + ofs, cj_clause = k, cj_n_clauses = n\<rparr> = x\<lparr>cj_id := cj_id x + ofs\<rparr> \<longleftrightarrow>
        x = \<lparr>cj_id = c, cj_clause = k, cj_n_clauses = n\<rparr>" for x by (cases x) auto
    then show ?thesis by (simp add: prepare_match_def image_iff)
  qed
  have "conj_hit f (c + ofs) (expr_matches_prepare ms ofs) = conj_hit f c ms" for c
    using prepare_zero [OF ok(1) assms(2)]
    by (auto simp: conj_hit_def clause_hit_def expr_matches_prepare_def mem)
  moreover have "(\<exists>c. P c) \<longleftrightarrow> (\<exists>c. P (c + ofs))" for P :: "u32 \<Rightarrow> bool"
    by (metis diff_add_cancel)
  from this [of "\<lambda>c. conj_hit f c (expr_matches_prepare ms ofs) \<and> accepts f c (expr_matches_prepare ms ofs)"]
  have "(\<exists>c. conj_hit f c (expr_matches_prepare ms ofs) \<and> accepts f c (expr_matches_prepare ms ofs)) \<longleftrightarrow>
      (\<exists>c. conj_hit f (c + ofs) (expr_matches_prepare ms ofs) \<and> accepts f (c + ofs) (expr_matches_prepare ms ofs))" .
  ultimately show "table_hits f (expr_matches_prepare ms ofs) = table_hits f ms"
    by (simp add: table_hits_def a0 ac)
qed

section \<open>Correctness of the translation\<close>

text \<open>
  \<^bold>\<open>C4\<close>: \<open>expr_to_matches\<close> is correct. For every normalized expression on symbols with fields of their
  own it returns (no assertion fails), the conjunction ids it uses are those from 1 to the number it
  returns, and the table of flows accepts exactly the packets for which the expression evaluates to
  true. This covers merging of equal matches, conjunctive matches with all their clauses, and ports
  that are not known.
\<close>

theorem expr_to_matches_correct:
  assumes "normalized X S e" "flow_syms X S" "fits e"
  shows "\<exists>n ms. expr_to_matches e lp = Some (n, ms) \<and> ids_in {1..n} ms \<and>
    (\<forall>f. packet_ok f \<longrightarrow> table_hits f ms = (expr_evaluate f lp e = Some True))"
proof -
  have "expr_evaluate f lp e = Some (ev (cmp_sat f lp) (\<lambda>_. True) e)" for f
    using simplified_evaluate [OF norm_in_simplified [OF normalized_norm_in [OF assms(1)]]] .
  then show ?thesis using expr_to_matches_ok [OF assms, of lp] by auto
qed

abbreviation "ex_conj_expr \<equiv> And [Cmp (ex_port_cmp ''lp1''),
  Or [Cmp (ex_flags_cmp R_EQ 7 15), Cmp (ex_flags_cmp R_EQ 16 48)]]"

lemma ex_flow_syms: "flow_syms {} {ex_flags, ex_inport}"
  by (simp add: flow_syms_def flow_sym_def field_ok_def mf_set_ignores_def)

theorem expr_to_matches_correct_witness:
  "normalized {} {ex_flags, ex_inport} ex_conj_expr \<and> fits ex_conj_expr \<and>
   (\<exists>n ms. expr_to_matches ex_conj_expr (\<lambda>p. if p = ''lp1'' then Some 5 else None) = Some (n, ms) \<and> ids_in {1..n} ms \<and>
    (\<forall>f. packet_ok f \<longrightarrow> table_hits f ms =
      (expr_evaluate f (\<lambda>p. if p = ''lp1'' then Some 5 else None) ex_conj_expr = Some True)))"
proof -
  have "or_form {} ex_flags (Or (map Cmp [ex_flags_cmp R_EQ 7 15, ex_flags_cmp R_EQ 16 48]))"
    by (rule or_formI)
      (simp_all add: ok_cmps_def eq_cmp_def whole_mask_def wf_cmp_def cmp_honors_def take_bit_eq_mod)
  then have "normalized {} {ex_flags, ex_inport} ex_conj_expr"
    by (simp add: normalized_def norm_elem_def norm_and_def clause_def eq_cmp_def whole_mask_def wf_cmp_def cmp_honors_def)
  moreover have "fits ex_conj_expr" by (simp add: fits_def)
  ultimately show ?thesis using expr_to_matches_correct [OF _ ex_flow_syms] by blast
qed

end
