(* ===== verification/Lflow_Cache.thy ===== *)
theory Lflow_Cache
  imports Expr_Matches Hmap Uuid
begin

text \<open>
  The cache of logical flows (\<open>ovn/controller/lflow-cache.c\<close>) with the memory trimmer that it
  uses (\<open>ovn/lib/memory-trim.c\<close>).

  The array \<open>entries\<close>, indexed by the type of an entry, is a function from types to hash
  maps. The time that \<open>time_msec\<close> returns and the size of \<open>struct lflow_cache_entry\<close> are
  arguments. The pointer that \<open>lflow_cache_add__\<close> returns is used once, to fill in the value of
  the new entry, so that the model passes the value to \<open>lflow_cache_add__\<close>. The cache itself
  always exists (the checks for a NULL cache are left out), and \<open>malloc_trim\<close> has no effect in
  the model.

  The theorems show that the counters agree with the entries in every state that the
  operations reach, that the limits on entries and memory hold, and that no assertion
  fails.
\<close>

section \<open>The memory trimmer\<close>

record memory_trimmer =
  trim_timeout_ms :: u32
  last_active_ms :: int
  recently_active :: bool

definition memory_trimmer_create :: memory_trimmer where
  "memory_trimmer_create = \<lparr>trim_timeout_ms = 0, last_active_ms = 0, recently_active = False\<rparr>"

definition memory_trimmer_set :: "memory_trimmer \<Rightarrow> u32 \<Rightarrow> memory_trimmer" where
  "memory_trimmer_set mt timeout = mt\<lparr>trim_timeout_ms := (if timeout < 1000 then 1000 else timeout)\<rparr>"

definition memory_trimmer_can_run :: "int \<Rightarrow> memory_trimmer \<Rightarrow> bool \<times> memory_trimmer" where
  "memory_trimmer_can_run now mt =
     (if \<not> recently_active mt then (False, mt)
      else if now < last_active_ms mt then (True, mt\<lparr>recently_active := False\<rparr>)
      else if now > uint (trim_timeout_ms mt) \<and> now - uint (trim_timeout_ms mt) \<ge> last_active_ms mt
           then (True, mt\<lparr>recently_active := False\<rparr>)
      else (False, mt))"

definition memory_trimmer_wait :: "memory_trimmer \<Rightarrow> int option" where
  "memory_trimmer_wait mt =
     (if \<not> recently_active mt then None else Some (last_active_ms mt + uint (trim_timeout_ms mt)))"

definition memory_trimmer_record_activity :: "int \<Rightarrow> memory_trimmer \<Rightarrow> memory_trimmer" where
  "memory_trimmer_record_activity now mt = mt\<lparr>last_active_ms := now, recently_active := True\<rparr>"

section \<open>The cache\<close>

datatype lflow_cache_type = LCACHE_T_EXPR | LCACHE_T_MATCHES

text \<open>The value of an entry; the matches come with \<open>n_conjs\<close> and \<open>conj_id_ofs\<close>.\<close>

datatype lflow_cache_value =
  LCV_EXPR expr
| LCV_MATCHES u32 u32 "expr_match list"

fun lcv_type :: "lflow_cache_value \<Rightarrow> lflow_cache_type" where
  "lcv_type (LCV_EXPR e) = LCACHE_T_EXPR"
| "lcv_type (LCV_MATCHES n ofs ms) = LCACHE_T_MATCHES"

record lflow_cache_entry =
  lce_uuid :: uuid
  lce_size :: u64
  lce_value :: lflow_cache_value

record lflow_cache =
  entries :: "lflow_cache_type \<Rightarrow> lflow_cache_entry hmap"
  mt :: memory_trimmer
  n_entries :: u32
  high_watermark :: u32
  capacity :: u32
  mem_usage :: u64
  max_mem_usage :: u64
  trim_limit :: u32
  trim_wmark_perc :: u32
  trim_count :: u64
  enabled :: bool

definition lflow_cache_create :: lflow_cache where
  "lflow_cache_create =
     \<lparr>entries = (\<lambda>_. hmap_init), mt = memory_trimmer_create, n_entries = 0, high_watermark = 0,
      capacity = 0, mem_usage = 0, max_mem_usage = 0, trim_limit = 0, trim_wmark_perc = 0,
      trim_count = 0, enabled = False\<rparr>"

definition lflow_cache_is_enabled :: "lflow_cache \<Rightarrow> bool" where
  "lflow_cache_is_enabled lc = enabled lc"

definition lflow_cache_delete' :: "lflow_cache \<Rightarrow> lflow_cache_entry hmap_node \<Rightarrow> lflow_cache option" where
  "lflow_cache_delete' lc lce =
     (let ty = lcv_type (lce_value (snd lce)) in
      if \<not> n_entries lc > 0 then None
      else do {
        h \<leftarrow> hmap_remove (entries lc ty) lce;
        if \<not> mem_usage lc \<ge> lce_size (snd lce) then None
        else Some (lc\<lparr>entries := (entries lc)(ty := h), n_entries := n_entries lc - 1,
                      mem_usage := mem_usage lc - lce_size (snd lce)\<rparr>)
      })"

definition lflow_cache_trim' :: "lflow_cache \<Rightarrow> bool \<Rightarrow> lflow_cache option" where
  "lflow_cache_trim' lc force =
     (let upper_trim_limit = high_watermark lc * trim_wmark_perc lc div 100 in
      if \<not> high_watermark lc \<ge> n_entries lc then None
      else if \<not> force \<and> (high_watermark lc \<le> trim_limit lc \<or> n_entries lc > upper_trim_limit) then Some lc
      else do {
        e \<leftarrow> hmap_shrink (entries lc LCACHE_T_EXPR);
        m \<leftarrow> hmap_shrink (entries lc LCACHE_T_MATCHES);
        Some (lc\<lparr>entries := (\<lambda>ty. case ty of LCACHE_T_EXPR \<Rightarrow> e | LCACHE_T_MATCHES \<Rightarrow> m),
                 high_watermark := n_entries lc, trim_count := trim_count lc + 1\<rparr>)
      })"

definition flush_type :: "lflow_cache_type \<Rightarrow> lflow_cache \<Rightarrow> lflow_cache option" where
  "flush_type ty lc =
     do {
       nodes \<leftarrow> hmap_for_each (entries lc ty);
       fold_opt (\<lambda>lce lc. lflow_cache_delete' lc lce) nodes lc
     }"

definition lflow_cache_flush :: "lflow_cache \<Rightarrow> lflow_cache option" where
  "lflow_cache_flush lc =
     do {
       lc \<leftarrow> flush_type LCACHE_T_EXPR lc;
       lc \<leftarrow> flush_type LCACHE_T_MATCHES lc;
       lflow_cache_trim' lc True
     }"

definition lflow_cache_enable :: "int \<Rightarrow> lflow_cache \<Rightarrow> bool \<Rightarrow> u32 \<Rightarrow> u64 \<Rightarrow> u32 \<Rightarrow> u32 \<Rightarrow> u32 \<Rightarrow>
    lflow_cache option" where
  "lflow_cache_enable now lc enabled' capacity' max_mem_usage_kb lflow_trim_limit trim_wmark_perc' trim_timeout =
     (let trim_wmark_perc' = (if trim_wmark_perc' > 100 then 100 else trim_wmark_perc');
          max_mem_usage' = max_mem_usage_kb * 1024;
          need_flush = (enabled lc \<and> \<not> enabled' \<or> capacity' < n_entries lc \<or> max_mem_usage' < mem_usage lc);
          need_trim = (\<not> need_flush \<and> enabled lc \<and>
            (trim_limit lc \<noteq> lflow_trim_limit \<or> trim_wmark_perc lc \<noteq> trim_wmark_perc'));
          lc = lc\<lparr>enabled := enabled', capacity := capacity', max_mem_usage := max_mem_usage',
                  trim_limit := lflow_trim_limit, trim_wmark_perc := trim_wmark_perc',
                  mt := memory_trimmer_set (mt lc) trim_timeout\<rparr>
      in if need_flush then lflow_cache_flush (lc\<lparr>mt := memory_trimmer_record_activity now (mt lc)\<rparr>)
         else if need_trim then lflow_cache_trim' (lc\<lparr>mt := memory_trimmer_record_activity now (mt lc)\<rparr>) False
         else Some lc)"

definition find_type :: "lflow_cache \<Rightarrow> uuid \<Rightarrow> lflow_cache_type \<Rightarrow> lflow_cache_entry hmap_node option" where
  "find_type lc u ty =
     find (\<lambda>lce. uuid_equals (lce_uuid (snd lce)) u) (hmap_for_each_with_hash (entries lc ty) (uuid_hash u))"

text \<open>The result is the entry whose value the C function returns.\<close>

definition lflow_cache_get :: "lflow_cache \<Rightarrow> uuid \<Rightarrow> lflow_cache_entry hmap_node option" where
  "lflow_cache_get lc u =
     (if \<not> lflow_cache_is_enabled lc then None
      else case find_type lc u LCACHE_T_EXPR of
             Some lce \<Rightarrow> Some lce
           | None \<Rightarrow> find_type lc u LCACHE_T_MATCHES)"

definition lflow_cache_delete :: "int \<Rightarrow> lflow_cache \<Rightarrow> uuid \<Rightarrow> lflow_cache option" where
  "lflow_cache_delete now lc u =
     (case lflow_cache_get lc u of
        None \<Rightarrow> Some lc
      | Some lce \<Rightarrow>
          do {
            lc \<leftarrow> lflow_cache_delete' lc lce;
            lc \<leftarrow> lflow_cache_trim' lc False;
            Some (lc\<lparr>mt := memory_trimmer_record_activity now (mt lc)\<rparr>)
          })"

text \<open>
  Entries of a type below \<open>ty\<close> make room; only expressions are below matches.
\<close>

definition lflow_cache_make_room' :: "lflow_cache \<Rightarrow> lflow_cache_type \<Rightarrow> (bool \<times> lflow_cache) option" where
  "lflow_cache_make_room' lc ty =
     (case ty of
        LCACHE_T_EXPR \<Rightarrow> Some (False, lc)
      | LCACHE_T_MATCHES \<Rightarrow>
          (if hmap_count (entries lc LCACHE_T_EXPR) > 0
           then (case hmap_first (entries lc LCACHE_T_EXPR) of
                   [] \<Rightarrow> None
                 | lce # _ \<Rightarrow> map_option (Pair True) (lflow_cache_delete' lc lce))
           else Some (False, lc)))"

definition add_entry :: "int \<Rightarrow> lflow_cache \<Rightarrow> uuid \<Rightarrow> lflow_cache_value \<Rightarrow> u64 \<Rightarrow> lflow_cache option" where
  "add_entry now lc u v size' =
     do {
       h \<leftarrow> hmap_insert (entries lc (lcv_type v)) \<lparr>lce_uuid = u, lce_size = size', lce_value = v\<rparr> (uuid_hash u);
       Some (lc\<lparr>mt := memory_trimmer_record_activity now (mt lc), mem_usage := mem_usage lc + size',
                entries := (entries lc)(lcv_type v := h), n_entries := n_entries lc + 1,
                high_watermark := max (high_watermark lc) (n_entries lc + 1)\<rparr>)
     }"

text \<open>The flag tells whether an entry was added.\<close>

definition lflow_cache_add' :: "u64 \<Rightarrow> int \<Rightarrow> lflow_cache \<Rightarrow> uuid \<Rightarrow> lflow_cache_value \<Rightarrow> u64 \<Rightarrow>
    (bool \<times> lflow_cache) option" where
  "lflow_cache_add' sizeof_lce now lc u v value_size =
     (if \<not> lflow_cache_is_enabled lc then Some (False, lc)
      else let size' = sizeof_lce + value_size in
        if size' + mem_usage lc > max_mem_usage lc then Some (False, lc)
        else do {
          (room, lc) \<leftarrow> (if n_entries lc = capacity lc
                        then lflow_cache_make_room' lc (lcv_type v) else Some (True, lc));
          if \<not> room then Some (False, lc)
          else map_option (Pair True) (add_entry now lc u v size')
        })"

definition lflow_cache_add_expr :: "u64 \<Rightarrow> int \<Rightarrow> lflow_cache \<Rightarrow> uuid \<Rightarrow> expr \<Rightarrow> u64 \<Rightarrow> lflow_cache option" where
  "lflow_cache_add_expr sizeof_lce now lc u e expr_sz =
     map_option snd (lflow_cache_add' sizeof_lce now lc u (LCV_EXPR e) expr_sz)"

definition lflow_cache_add_matches :: "u64 \<Rightarrow> int \<Rightarrow> lflow_cache \<Rightarrow> uuid \<Rightarrow> u32 \<Rightarrow> u32 \<Rightarrow> expr_match list \<Rightarrow> u64 \<Rightarrow>
    lflow_cache option" where
  "lflow_cache_add_matches sizeof_lce now lc u conj_id_ofs n_conjs' matches matches_sz =
     map_option snd (lflow_cache_add' sizeof_lce now lc u (LCV_MATCHES n_conjs' conj_id_ofs matches) matches_sz)"

definition lflow_cache_run :: "int \<Rightarrow> lflow_cache \<Rightarrow> lflow_cache option" where
  "lflow_cache_run now lc =
     (case memory_trimmer_can_run now (mt lc) of
        (run, mt') \<Rightarrow> if run then lflow_cache_trim' (lc\<lparr>mt := mt'\<rparr>) True else Some (lc\<lparr>mt := mt'\<rparr>))"

definition lflow_cache_wait :: "lflow_cache \<Rightarrow> int option" where
  "lflow_cache_wait lc = memory_trimmer_wait (mt lc)"

text \<open>What is left when the hash maps are destroyed: the number of nodes that would leak.\<close>

definition lflow_cache_destroy :: "lflow_cache \<Rightarrow> (lflow_cache_type \<Rightarrow> u64) option" where
  "lflow_cache_destroy lc =
     do {
       lc \<leftarrow> lflow_cache_flush lc;
       Some (\<lambda>ty. hmap_count (entries lc ty))
     }"

section \<open>The invariant\<close>

abbreviation entry_type :: "lflow_cache_entry \<Rightarrow> lflow_cache_type" where
  "entry_type e \<equiv> lcv_type (lce_value e)"

text \<open>The set \<open>S\<close> of all entries, of both types.\<close>

definition cache_inv :: "lflow_cache \<Rightarrow> lflow_cache_entry set \<Rightarrow> bool" where
  "cache_inv lc S \<longleftrightarrow>
     (\<forall>ty. holds lce_uuid uuid_hash (entries lc ty) {e \<in> S. entry_type e = ty}) \<and>
     finite S \<and> inj_on lce_uuid S \<and>
     unat (n_entries lc) = card S \<and>
     unat (mem_usage lc) = (\<Sum>e \<in> S. unat (lce_size e)) \<and>
     n_entries lc \<le> high_watermark lc"

definition cache_limits :: "lflow_cache \<Rightarrow> lflow_cache_entry set \<Rightarrow> bool" where
  "cache_limits lc S \<longleftrightarrow>
     n_entries lc \<le> capacity lc \<and> mem_usage lc \<le> max_mem_usage lc \<and> (\<not> enabled lc \<longrightarrow> S = {})"

definition same_conf :: "lflow_cache \<Rightarrow> lflow_cache \<Rightarrow> bool" where
  "same_conf lc lc' \<longleftrightarrow>
     capacity lc' = capacity lc \<and> max_mem_usage lc' = max_mem_usage lc \<and> enabled lc' = enabled lc"

lemma cache_invD:
  assumes "cache_inv lc S"
  shows "holds lce_uuid uuid_hash (entries lc ty) {e \<in> S. entry_type e = ty}"
    and "finite S" and "inj_on lce_uuid S" and "unat (n_entries lc) = card S"
    and "unat (mem_usage lc) = (\<Sum>e \<in> S. unat (lce_size e))" and "n_entries lc \<le> high_watermark lc"
  using assms by (simp_all add: cache_inv_def)

lemma cache_inv_conf: "cache_inv (lc\<lparr>enabled := b, capacity := c, max_mem_usage := m, trim_limit := l,
    trim_wmark_perc := p\<rparr>) S = cache_inv lc S" "cache_inv (lc\<lparr>mt := t\<rparr>) S = cache_inv lc S"
  by (simp_all add: cache_inv_def)

lemma lflow_cache_delete'_ok:
  assumes inv: "cache_inv lc S" and e: "e \<in> S"
  shows "\<exists>lc'. lflow_cache_delete' lc (uuid_hash (lce_uuid e), e) = Some lc' \<and> cache_inv lc' (S - {e}) \<and>
    same_conf lc lc' \<and> n_entries lc' = n_entries lc - 1 \<and> mem_usage lc' = mem_usage lc - lce_size e \<and>
    lce_size e \<le> mem_usage lc \<and> high_watermark lc' = high_watermark lc"
proof -
  note D = cache_invD [OF inv]
  let ?ty = "entry_type e"
  have n: "n_entries lc > 0" using D(2,4) e by (metis card_gt_0_iff empty_iff unat_gt_0 word_neq_0_conv)
  then have n1: "unat (n_entries lc - 1) = unat (n_entries lc) - 1" by (simp add: unat_minus_one word_neq_0_conv)
  have sum: "(\<Sum>x \<in> S. unat (lce_size x)) = unat (lce_size e) + (\<Sum>x \<in> S - {e}. unat (lce_size x))"
    by (rule sum.remove [OF D(2) e])
  then have le: "lce_size e \<le> mem_usage lc" using D(5) by (simp add: word_le_nat_alt)
  then have m: "unat (mem_usage lc - lce_size e) = unat (mem_usage lc) - unat (lce_size e)"
    by (simp add: unat_sub)
  from hm.keyed_rem [OF D(1) [of ?ty], of e] e obtain h where
    h: "hmap_remove (entries lc ?ty) (uuid_hash (lce_uuid e), e) = Some h"
    "holds lce_uuid uuid_hash h ({x \<in> S. entry_type x = ?ty} - {e})" by auto
  let ?lc = "lc\<lparr>entries := (entries lc)(?ty := h), n_entries := n_entries lc - 1,
      mem_usage := mem_usage lc - lce_size e\<rparr>"
  have sets: "{x \<in> S - {e}. entry_type x = ty} =
      (if ty = ?ty then {x \<in> S. entry_type x = ?ty} - {e} else {x \<in> S. entry_type x = ty})" for ty by auto
  have "n_entries lc - 1 \<le> high_watermark lc"
    using D(6) n n1 by (simp add: word_le_nat_alt)
  then have "cache_inv ?lc (S - {e})"
    unfolding cache_inv_def sets using D h(2) n1 m sum e by (auto simp: inj_on_diff card_Diff_singleton)
  moreover have "lflow_cache_delete' lc (uuid_hash (lce_uuid e), e) = Some ?lc"
    using n le h(1) by (simp add: lflow_cache_delete'_def)
  ultimately show ?thesis using le by (auto simp: same_conf_def)
qed

lemma lflow_cache_trim'_ok:
  assumes inv: "cache_inv lc S"
  shows "\<exists>lc'. lflow_cache_trim' lc b = Some lc' \<and> cache_inv lc' S \<and> same_conf lc lc' \<and>
    n_entries lc' = n_entries lc \<and> mem_usage lc' = mem_usage lc"
proof -
  note D = cache_invD [OF inv]
  obtain e where e: "hmap_shrink (entries lc LCACHE_T_EXPR) = Some e"
    "holds lce_uuid uuid_hash e {x \<in> S. entry_type x = LCACHE_T_EXPR}"
    using holds_shrink [OF D(1) [of LCACHE_T_EXPR]] by blast
  obtain m where m: "hmap_shrink (entries lc LCACHE_T_MATCHES) = Some m"
    "holds lce_uuid uuid_hash m {x \<in> S. entry_type x = LCACHE_T_MATCHES}"
    using holds_shrink [OF D(1) [of LCACHE_T_MATCHES]] by blast
  let ?lc = "lc\<lparr>entries := (\<lambda>ty. case ty of LCACHE_T_EXPR \<Rightarrow> e | LCACHE_T_MATCHES \<Rightarrow> m),
                 high_watermark := n_entries lc, trim_count := trim_count lc + 1\<rparr>"
  have "cache_inv ?lc S"
    unfolding cache_inv_def using D(2-5) e(2) m(2) by (simp split: lflow_cache_type.split)
  moreover have "lflow_cache_trim' lc b = Some lc \<or> lflow_cache_trim' lc b = Some ?lc"
    using D(6) e(1) m(1) by (simp add: lflow_cache_trim'_def Let_def)
  ultimately show ?thesis using inv by (elim disjE) (simp_all add: same_conf_def)
qed

lemma same_conf_trans: "same_conf a b \<Longrightarrow> same_conf b c \<Longrightarrow> same_conf a c"
  by (simp add: same_conf_def)

lemma delete_list_ok:
  "cache_inv lc S \<Longrightarrow> set es \<subseteq> S \<Longrightarrow> distinct es \<Longrightarrow>
     \<exists>lc'. fold_opt (\<lambda>lce lc. lflow_cache_delete' lc lce) (map (\<lambda>e. (uuid_hash (lce_uuid e), e)) es) lc = Some lc' \<and>
       cache_inv lc' (S - set es) \<and> same_conf lc lc'"
proof (induction es arbitrary: lc S)
  case Nil
  then show ?case by (auto simp: same_conf_def)
next
  case (Cons e es)
  from lflow_cache_delete'_ok [OF Cons.prems(1), of e] Cons.prems(2) obtain lc1 where
    lc1: "lflow_cache_delete' lc (uuid_hash (lce_uuid e), e) = Some lc1" "cache_inv lc1 (S - {e})"
      "same_conf lc lc1" by auto
  have s: "S - {e} - set es = S - set (e # es)" by auto
  have "set es \<subseteq> S - {e}" "distinct es" using Cons.prems(2,3) by auto
  from Cons.IH [OF lc1(2) this] obtain lc2 where
    "fold_opt (\<lambda>lce lc. lflow_cache_delete' lc lce) (map (\<lambda>e. (uuid_hash (lce_uuid e), e)) es) lc1 = Some lc2"
    "cache_inv lc2 (S - set (e # es))" "same_conf lc1 lc2" unfolding s by blast
  with lc1 show ?case by (auto intro: same_conf_trans)
qed

lemma flush_type_ok:
  assumes inv: "cache_inv lc S"
  shows "\<exists>lc'. flush_type ty lc = Some lc' \<and> cache_inv lc' {e \<in> S. entry_type e \<noteq> ty} \<and> same_conf lc lc'"
proof -
  from hm.keyed_each [OF cache_invD(1) [OF inv, of ty]] obtain es where
    es: "hmap_for_each (entries lc ty) = Some (map (\<lambda>e. (uuid_hash (lce_uuid e), e)) es)"
    "distinct es" "set es = {e \<in> S. entry_type e = ty}" by blast
  have "S - set es = {e \<in> S. entry_type e \<noteq> ty}" using es(3) by auto
  with delete_list_ok [OF inv _ es(2)] es(1,3) show ?thesis by (auto simp: flush_type_def)
qed

lemma lflow_cache_flush_ok:
  assumes inv: "cache_inv lc S"
  shows "\<exists>lc'. lflow_cache_flush lc = Some lc' \<and> cache_inv lc' {} \<and> same_conf lc lc' \<and>
    n_entries lc' = 0 \<and> mem_usage lc' = 0"
proof -
  from flush_type_ok [OF inv, of LCACHE_T_EXPR] obtain lc1 where lc1: "flush_type LCACHE_T_EXPR lc = Some lc1"
    "cache_inv lc1 {e \<in> S. entry_type e \<noteq> LCACHE_T_EXPR}" "same_conf lc lc1" by blast
  have none: "{e \<in> {e \<in> S. entry_type e \<noteq> LCACHE_T_EXPR}. entry_type e \<noteq> LCACHE_T_MATCHES} = {}"
    using lflow_cache_type.exhaust by auto
  from flush_type_ok [OF lc1(2), of LCACHE_T_MATCHES] obtain lc2 where
    lc2: "flush_type LCACHE_T_MATCHES lc1 = Some lc2" "cache_inv lc2 {}" "same_conf lc1 lc2"
    unfolding none by blast
  from lflow_cache_trim'_ok [OF lc2(2), of True] obtain lc3 where
    lc3: "lflow_cache_trim' lc2 True = Some lc3" "cache_inv lc3 {}" "same_conf lc2 lc3" by blast
  have "lflow_cache_flush lc = Some lc3" using lc1(1) lc2(1) lc3(1) by (simp add: lflow_cache_flush_def)
  moreover have "same_conf lc lc3" using lc1(3) lc2(3) lc3(3) same_conf_trans by blast
  ultimately show ?thesis using lc3(2) by (simp add: cache_inv_def unat_eq_0)
qed

section \<open>Look-up and insertion\<close>

lemma find_type_Some:
  "cache_inv lc S \<Longrightarrow> find_type lc u ty = Some nd \<longleftrightarrow>
     nd = (uuid_hash u, snd nd) \<and> snd nd \<in> {e \<in> S. entry_type e = ty} \<and> lce_uuid (snd nd) = u"
  unfolding find_type_def uuid_equals_iff by (rule hm.keyed_look(1) [OF cache_invD(1)])

lemma find_type_None:
  "cache_inv lc S \<Longrightarrow> find_type lc u ty = None \<longleftrightarrow> u \<notin> lce_uuid ` {e \<in> S. entry_type e = ty}"
  unfolding find_type_def uuid_equals_iff by (rule hm.keyed_look(2) [OF cache_invD(1)])

lemma lflow_cache_get_None:
  assumes "cache_inv lc S" "enabled lc"
  shows "lflow_cache_get lc u = None \<longleftrightarrow> u \<notin> lce_uuid ` S"
proof -
  have "lflow_cache_get lc u = None \<longleftrightarrow> find_type lc u LCACHE_T_EXPR = None \<and> find_type lc u LCACHE_T_MATCHES = None"
    using assms(2) by (simp add: lflow_cache_get_def lflow_cache_is_enabled_def split: option.split)
  moreover have "S = {e \<in> S. entry_type e = LCACHE_T_EXPR} \<union> {e \<in> S. entry_type e = LCACHE_T_MATCHES}"
    using lflow_cache_type.exhaust by auto
  then have "lce_uuid ` S = lce_uuid ` {e \<in> S. entry_type e = LCACHE_T_EXPR}
      \<union> lce_uuid ` {e \<in> S. entry_type e = LCACHE_T_MATCHES}" by (metis image_Un)
  ultimately show ?thesis unfolding find_type_None [OF assms(1)] by simp
qed

lemma lflow_cache_get_Some:
  assumes "cache_inv lc S" "lflow_cache_get lc u = Some nd"
  shows "nd = (uuid_hash (lce_uuid (snd nd)), snd nd)" "snd nd \<in> S" "lce_uuid (snd nd) = u"
proof -
  obtain ty where "find_type lc u ty = Some nd"
    using assms(2) by (auto simp: lflow_cache_get_def split: option.splits if_splits)
  then have "nd = (uuid_hash u, snd nd) \<and> snd nd \<in> {e \<in> S. entry_type e = ty} \<and> lce_uuid (snd nd) = u"
    using find_type_Some [OF assms(1)] by blast
  then show "nd = (uuid_hash (lce_uuid (snd nd)), snd nd)" "snd nd \<in> S" "lce_uuid (snd nd) = u" by blast+
qed

lemma lflow_cache_make_room'_ok:
  assumes inv: "cache_inv lc S"
  shows "lflow_cache_make_room' lc ty = Some (False, lc) \<or>
    (\<exists>lc' e. lflow_cache_make_room' lc ty = Some (True, lc') \<and> e \<in> S \<and> entry_type e = LCACHE_T_EXPR \<and>
      ty = LCACHE_T_MATCHES \<and> cache_inv lc' (S - {e}) \<and> same_conf lc lc' \<and> n_entries lc' = n_entries lc - 1 \<and>
      mem_usage lc' = mem_usage lc - lce_size e \<and> lce_size e \<le> mem_usage lc)"
proof (cases "ty = LCACHE_T_MATCHES \<and> hmap_count (entries lc LCACHE_T_EXPR) > 0")
  case False
  then show ?thesis by (cases ty) (auto simp: lflow_cache_make_room'_def)
next
  case True
  let ?h = "entries lc LCACHE_T_EXPR"
  note h = cache_invD(1) [OF inv, of LCACHE_T_EXPR]
  then have ok: "hmap_ok ?h" by (simp add: keyed_def)
  have "hmap_bag ?h \<noteq> {#}" using True hmap_is_empty_iff [OF ok] by (auto simp: hmap_is_empty_def hmap_count_def)
  then obtain nd r where nd: "hmap_first ?h = nd # r" "nd \<in># hmap_bag ?h" using hmap_first_ok [OF ok] by blast
  then obtain e where e: "nd = (uuid_hash (lce_uuid e), e)" "e \<in> S" "entry_type e = LCACHE_T_EXPR"
    using h by (auto simp: keyed_def)
  from lflow_cache_delete'_ok [OF inv e(2)] obtain lc' where lc':
    "lflow_cache_delete' lc nd = Some lc'" "cache_inv lc' (S - {e})"
    "same_conf lc lc'" "n_entries lc' = n_entries lc - 1" "mem_usage lc' = mem_usage lc - lce_size e"
    "lce_size e \<le> mem_usage lc" unfolding e(1) by blast
  moreover have "lflow_cache_make_room' lc ty = Some (True, lc')"
    using True nd(1) lc'(1) by (simp add: lflow_cache_make_room'_def)
  ultimately show ?thesis using True e by blast
qed

lemma add_entry_ok:
  assumes inv: "cache_inv lc S" and new: "u \<notin> lce_uuid ` S"
    and room: "n_entries lc < capacity lc" and mem: "unat (mem_usage lc) + unat sz < 2 ^ 64"
  shows "\<exists>lc'. add_entry now lc u v sz = Some lc' \<and>
    cache_inv lc' (insert \<lparr>lce_uuid = u, lce_size = sz, lce_value = v\<rparr> S) \<and> same_conf lc lc' \<and>
    n_entries lc' = n_entries lc + 1 \<and> mem_usage lc' = mem_usage lc + sz"
proof -
  note D = cache_invD [OF inv]
  let ?e = "\<lparr>lce_uuid = u, lce_size = sz, lce_value = v\<rparr>"
  let ?ty = "lcv_type v"
  have e: "?e \<notin> S" using new by (metis image_eqI lflow_cache_entry.select_convs(1))
  have n: "unat (n_entries lc + 1) = card (insert ?e S)"
  proof -
    have "unat (n_entries lc) + 1 < 2 ^ 32"
      using room unsigned_less [of "capacity lc", where ?'a = nat] by (simp add: word_less_nat_alt)
    then show ?thesis using D(2,4) e by (simp add: unat_word_ariths)
  qed
  have m: "unat (mem_usage lc + sz) = (\<Sum>x \<in> insert ?e S. unat (lce_size x))"
    using D(2,5) e mem by (simp add: unat_word_ariths)
  have "card {x \<in> S. entry_type x = ?ty} \<le> card S" using D(2) by (intro card_mono) auto
  also have "\<dots> < 2 ^ 64 - 1" using D(4) unsigned_less [of "n_entries lc", where ?'a = nat] by simp
  finally have c: "card {x \<in> S. entry_type x = ?ty} < 2 ^ 64 - 1" .
  have "lce_uuid ?e \<notin> lce_uuid ` {x \<in> S. entry_type x = ?ty}" using new by auto
  from hm.keyed_ins [OF D(1) this c] obtain h where
    h: "hmap_insert (entries lc ?ty) ?e (uuid_hash u) = Some h"
    "holds lce_uuid uuid_hash h (insert ?e {x \<in> S. entry_type x = ?ty})" by auto
  have sets: "{x \<in> insert ?e S. entry_type x = ty} =
      (if ty = ?ty then insert ?e {x \<in> S. entry_type x = ?ty} else {x \<in> S. entry_type x = ty})" for ty by auto
  let ?lc = "lc\<lparr>mt := memory_trimmer_record_activity now (mt lc), mem_usage := mem_usage lc + sz,
                entries := (entries lc)(?ty := h), n_entries := n_entries lc + 1,
                high_watermark := max (high_watermark lc) (n_entries lc + 1)\<rparr>"
  have "cache_inv ?lc (insert ?e S)"
    unfolding cache_inv_def sets using D(1,2,3) h(2) n m new e by simp
  then show ?thesis using h(1) by (simp add: add_entry_def same_conf_def)
qed

text \<open>
  A new entry may push out one expression, and only in favour of matches; otherwise the
  cache stays as it is.
\<close>

definition cache_added :: "lflow_cache_entry set \<Rightarrow> lflow_cache_entry \<Rightarrow> lflow_cache_entry set \<Rightarrow> bool" where
  "cache_added S e S' \<longleftrightarrow>
     S' = insert e S \<or>
     (\<exists>x \<in> S. S' = insert e (S - {x}) \<and> entry_type x = LCACHE_T_EXPR \<and> entry_type e = LCACHE_T_MATCHES)"

text \<open>
  Either nothing happens, or the entry goes into a cache with room for it.
\<close>

definition room_for :: "lflow_cache \<Rightarrow> lflow_cache_entry set \<Rightarrow> lflow_cache_entry \<Rightarrow> lflow_cache \<Rightarrow> lflow_cache_entry set \<Rightarrow> bool" where
  "room_for lc S e lc1 S1 \<longleftrightarrow>
     cache_inv lc1 S1 \<and> same_conf lc lc1 \<and> n_entries lc1 < capacity lc \<and> mem_usage lc1 \<le> mem_usage lc \<and>
     S1 \<subseteq> S \<and> cache_added S e (insert e S1)"

lemma room_for_make_room:
  assumes inv: "cache_inv lc S" and full: "n_entries lc = capacity lc"
  shows "lflow_cache_make_room' lc (entry_type e) = Some (False, lc) \<or>
    (\<exists>lc1 S1. lflow_cache_make_room' lc (entry_type e) = Some (True, lc1) \<and> room_for lc S e lc1 S1)"
  using lflow_cache_make_room'_ok [OF inv, of "entry_type e"]
proof (elim disjE exE conjE)
  fix lc1 x assume r: "lflow_cache_make_room' lc (entry_type e) = Some (True, lc1)" "x \<in> S"
    "entry_type x = LCACHE_T_EXPR" "entry_type e = LCACHE_T_MATCHES" "cache_inv lc1 (S - {x})"
    "same_conf lc lc1" "n_entries lc1 = n_entries lc - 1" "mem_usage lc1 = mem_usage lc - lce_size x"
    "lce_size x \<le> mem_usage lc"
  have "0 < card S" using r(2) cache_invD(2) [OF inv] by (auto simp: card_gt_0_iff)
  then have "n_entries lc \<noteq> 0" using cache_invD(4) [OF inv] by auto
  then have "n_entries lc1 < capacity lc" using r(7) full by (simp add: word_less_nat_alt unat_minus_one unat_gt_0)
  moreover have "mem_usage lc1 \<le> mem_usage lc" using r(8,9) by (simp add: word_le_nat_alt unat_sub)
  ultimately have "room_for lc S e lc1 (S - {x})" using r by (auto simp: room_for_def cache_added_def)
  with r(1) show ?thesis by blast
qed blast

lemma lflow_cache_add'_cases:
  assumes inv: "cache_inv lc S" and lim: "cache_limits lc S"
    and e: "e = \<lparr>lce_uuid = u, lce_size = sizeof_lce + value_size, lce_value = v\<rparr>"
  shows "lflow_cache_add' sizeof_lce now lc u v value_size = Some (False, lc) \<or>
    (\<exists>lc1 S1. enabled lc \<and> lce_size e + mem_usage lc \<le> max_mem_usage lc \<and> room_for lc S e lc1 S1 \<and>
      lflow_cache_add' sizeof_lce now lc u v value_size = map_option (Pair True) (add_entry now lc1 u v (lce_size e)))"
proof (cases "enabled lc \<and> lce_size e + mem_usage lc \<le> max_mem_usage lc")
  case False
  then show ?thesis by (auto simp: e lflow_cache_add'_def lflow_cache_is_enabled_def Let_def not_le)
next
  case True
  then have add: "lflow_cache_add' sizeof_lce now lc u v value_size =
      Option.bind (if n_entries lc = capacity lc then lflow_cache_make_room' lc (entry_type e) else Some (True, lc))
        (\<lambda>(room, lc). if \<not> room then Some (False, lc)
           else map_option (Pair True) (add_entry now lc u v (lce_size e)))"
    by (auto simp: e lflow_cache_add'_def lflow_cache_is_enabled_def Let_def not_less [symmetric] cong: if_cong)
  show ?thesis
  proof (cases "n_entries lc = capacity lc")
    case False
    then have "n_entries lc < capacity lc" using lim by (simp add: cache_limits_def order.strict_iff_order)
    then have "room_for lc S e lc S" using inv by (simp add: room_for_def same_conf_def cache_added_def)
    with add True False show ?thesis by auto
  next
    case full: True
    with room_for_make_room [OF inv full, of e] add True show ?thesis by auto
  qed
qed

lemma lflow_cache_add'_ok:
  assumes inv: "cache_inv lc S" and lim: "cache_limits lc S" and new: "enabled lc \<Longrightarrow> u \<notin> lce_uuid ` S"
    and mem: "unat sizeof_lce + unat value_size + unat (mem_usage lc) < 2 ^ 64"
  shows "\<exists>b lc' S'. lflow_cache_add' sizeof_lce now lc u v value_size = Some (b, lc') \<and>
    cache_inv lc' S' \<and> cache_limits lc' S' \<and> same_conf lc lc' \<and>
    (if b then cache_added S \<lparr>lce_uuid = u, lce_size = sizeof_lce + value_size, lce_value = v\<rparr> S'
     else lc' = lc \<and> S' = S)"
proof -
  define e where "e = \<lparr>lce_uuid = u, lce_size = sizeof_lce + value_size, lce_value = v\<rparr>"
  have sz: "unat (lce_size e) = unat sizeof_lce + unat value_size" using mem by (simp add: e_def unat_word_ariths)
  have sum: "unat (lce_size e + mem_usage lc) = unat (lce_size e) + unat (mem_usage lc)"
    using mem sz by (simp add: unat_word_ariths)
  from lflow_cache_add'_cases [OF inv lim e_def, of now] show ?thesis
  proof (elim disjE exE conjE)
    assume "lflow_cache_add' sizeof_lce now lc u v value_size = Some (False, lc)"
    with inv lim show ?thesis by (intro exI [of _ False]) (auto simp: same_conf_def)
  next
    fix lc1 S1 assume go: "enabled lc" "lce_size e + mem_usage lc \<le> max_mem_usage lc" "room_for lc S e lc1 S1"
      "lflow_cache_add' sizeof_lce now lc u v value_size = map_option (Pair True) (add_entry now lc1 u v (lce_size e))"
    then have lc1: "cache_inv lc1 S1" "same_conf lc lc1" "n_entries lc1 < capacity lc1"
      "mem_usage lc1 \<le> mem_usage lc" "S1 \<subseteq> S" "cache_added S e (insert e S1)"
      by (auto simp: room_for_def same_conf_def)
    have "u \<notin> lce_uuid ` S1" using new go(1) lc1(5) by auto
    moreover have fit: "unat (mem_usage lc1) + unat (lce_size e) < 2 ^ 64"
      using lc1(4) mem sz by (simp add: word_le_nat_alt)
    ultimately obtain lc2 where lc2: "add_entry now lc1 u v (lce_size e) = Some lc2" "cache_inv lc2 (insert e S1)"
      "same_conf lc1 lc2" "n_entries lc2 = n_entries lc1 + 1" "mem_usage lc2 = mem_usage lc1 + lce_size e"
      using add_entry_ok [OF lc1(1) _ lc1(3), of u "lce_size e" now v] by (auto simp: e_def)
    have "n_entries lc2 \<le> capacity lc2"
      using lc1(3) lc2(3,4) unsigned_less [of "capacity lc1", where ?'a = nat]
      by (simp add: same_conf_def word_less_nat_alt word_le_nat_alt unat_word_ariths)
    moreover have "mem_usage lc2 \<le> max_mem_usage lc2"
      using lc1(2,4) lc2(3,5) go(2) fit sum by (simp add: same_conf_def word_le_nat_alt unat_word_ariths)
    ultimately have "cache_limits lc2 (insert e S1)"
      using go(1) lc1(2) lc2(3) by (simp add: cache_limits_def same_conf_def)
    with go(4) lc1(6) lc2(1,2) same_conf_trans [OF lc1(2) lc2(3)] show ?thesis
      by (intro exI [of _ True] exI [of _ lc2] exI [of _ "insert e S1"]) (simp add: e_def)
  qed
qed

lemma lflow_cache_delete_ok:
  assumes inv: "cache_inv lc S" and lim: "cache_limits lc S"
  shows "\<exists>lc'. lflow_cache_delete now lc u = Some lc' \<and> cache_inv lc' {e \<in> S. lce_uuid e \<noteq> u} \<and>
    cache_limits lc' {e \<in> S. lce_uuid e \<noteq> u} \<and> same_conf lc lc' \<and> mem_usage lc' \<le> mem_usage lc"
proof (cases "lflow_cache_get lc u")
  case None
  then have "u \<notin> lce_uuid ` S" using lflow_cache_get_None [OF inv, of u] lim by (cases "enabled lc") (auto simp: cache_limits_def)
  then have "{e \<in> S. lce_uuid e \<noteq> u} = S" by auto
  with None inv lim show ?thesis by (simp add: lflow_cache_delete_def same_conf_def)
next
  case (Some nd)
  note nd = lflow_cache_get_Some [OF inv Some]
  let ?e = "snd nd"
  from lflow_cache_delete'_ok [OF inv nd(2)] obtain lc1 where lc1: "lflow_cache_delete' lc nd = Some lc1"
    "cache_inv lc1 (S - {?e})" "same_conf lc lc1" "n_entries lc1 = n_entries lc - 1"
    "mem_usage lc1 = mem_usage lc - lce_size ?e" "lce_size ?e \<le> mem_usage lc"
    unfolding nd(1) [symmetric] by blast
  from lflow_cache_trim'_ok [OF lc1(2), of False] obtain lc2 where lc2: "lflow_cache_trim' lc1 False = Some lc2"
    "cache_inv lc2 (S - {?e})" "same_conf lc1 lc2" "n_entries lc2 = n_entries lc1" "mem_usage lc2 = mem_usage lc1"
    by blast
  have eq: "{e \<in> S. lce_uuid e \<noteq> u} = S - {?e}"
    using nd(2,3) cache_invD(3) [OF inv] by (auto dest: inj_onD)
  have "0 < card S" using nd(2) cache_invD(2) [OF inv] by (auto simp: card_gt_0_iff)
  then have "n_entries lc \<noteq> 0" using cache_invD(4) [OF inv] by auto
  then have "n_entries lc2 \<le> n_entries lc" using lc1(4) lc2(4) by (simp add: word_le_nat_alt unat_minus_one)
  moreover have mem: "mem_usage lc2 \<le> mem_usage lc" using lc1(5,6) lc2(5) by (simp add: word_le_nat_alt unat_sub)
  ultimately have "cache_limits lc2 (S - {?e})"
    using lim lc1(3) lc2(3) by (auto simp: cache_limits_def same_conf_def)
  with Some lc1(1,3) lc2(1-3) mem show ?thesis
    unfolding eq by (auto simp: lflow_cache_delete_def cache_inv_conf cache_limits_def same_conf_def)
qed

lemma lflow_cache_enable_ok:
  assumes inv: "cache_inv lc S" and lim: "cache_limits lc S"
  shows "\<exists>lc' S'. lflow_cache_enable now lc en cap kb limit perc timeout = Some lc' \<and>
    cache_inv lc' S' \<and> cache_limits lc' S' \<and> (S' = S \<or> S' = {}) \<and>
    enabled lc' = en \<and> capacity lc' = cap \<and> max_mem_usage lc' = kb * 1024"
proof -
  define p where "p = (if perc > 100 then 100 else perc)"
  define fl where "fl = (enabled lc \<and> \<not> en \<or> cap < n_entries lc \<or> kb * 1024 < mem_usage lc)"
  define tr where "tr = (enabled lc \<and> (trim_limit lc \<noteq> limit \<or> trim_wmark_perc lc \<noteq> p))"
  define lc1 where "lc1 = lc\<lparr>enabled := en, capacity := cap, max_mem_usage := kb * 1024, trim_limit := limit,
      trim_wmark_perc := p, mt := memory_trimmer_set (mt lc) timeout\<rparr>"
  let ?lc = "lc1\<lparr>mt := memory_trimmer_record_activity now (mt lc1)\<rparr>"
  have op: "lflow_cache_enable now lc en cap kb limit perc timeout =
      (if fl then lflow_cache_flush ?lc else if tr then lflow_cache_trim' ?lc False else Some lc1)"
    by (auto simp: lflow_cache_enable_def Let_def p_def [symmetric] fl_def tr_def lc1_def)
  have i1: "cache_inv lc1 S" "cache_inv ?lc S" using inv by (simp_all add: cache_inv_conf lc1_def)
  have conf: "enabled ?lc = en" "capacity ?lc = cap" "max_mem_usage ?lc = kb * 1024"
    "enabled lc1 = en" "capacity lc1 = cap" "max_mem_usage lc1 = kb * 1024" by (simp_all add: lc1_def)
  show ?thesis
  proof (cases fl)
    case True
    with lflow_cache_flush_ok [OF i1(2)] conf show ?thesis
      unfolding op by (auto simp: same_conf_def cache_limits_def)
  next
    case False
    then have lims: "n_entries lc1 \<le> cap" "mem_usage lc1 \<le> kb * 1024" "\<not> en \<longrightarrow> S = {}"
      using lim by (auto simp: fl_def lc1_def cache_limits_def not_less)
    from lflow_cache_trim'_ok [OF i1(2), of False] obtain lc2 where
      "lflow_cache_trim' ?lc False = Some lc2" "cache_inv lc2 S" "same_conf ?lc lc2"
      "n_entries lc2 = n_entries ?lc" "mem_usage lc2 = mem_usage ?lc" by blast
    with False i1(1) conf lims show ?thesis
      unfolding op by (intro exI [of _ "if tr then lc2 else lc1"] exI [of _ S]) (auto simp: same_conf_def cache_limits_def)
  qed
qed

lemma lflow_cache_run_ok:
  assumes inv: "cache_inv lc S" and lim: "cache_limits lc S"
  shows "\<exists>lc'. lflow_cache_run now lc = Some lc' \<and> cache_inv lc' S \<and> cache_limits lc' S"
proof -
  let ?lc = "lc\<lparr>mt := snd (memory_trimmer_can_run now (mt lc))\<rparr>"
  have i: "cache_inv ?lc S" "cache_limits ?lc S" using inv lim by (simp_all add: cache_inv_conf cache_limits_def)
  from lflow_cache_trim'_ok [OF i(1), of True] obtain lc' where
    lc': "lflow_cache_trim' ?lc True = Some lc'" "cache_inv lc' S" "same_conf ?lc lc'"
      "n_entries lc' = n_entries ?lc" "mem_usage lc' = mem_usage ?lc" by blast
  then have "cache_limits lc' S" using i(2) by (auto simp: cache_limits_def same_conf_def)
  with lc'(1,2) i show ?thesis by (auto simp: lflow_cache_run_def split: prod.split)
qed

section \<open>The states that the controller reaches\<close>

text \<open>
  An entry fits into the address space, and its flow is not in the cache (the controller
  looks the flow up before it adds it).
\<close>

definition may_add :: "u64 \<Rightarrow> lflow_cache \<Rightarrow> uuid \<Rightarrow> u64 \<Rightarrow> bool" where
  "may_add sizeof_lce lc u sz \<longleftrightarrow>
     lflow_cache_get lc u = None \<and> unat sizeof_lce + unat sz + unat (mem_usage lc) < 2 ^ 64"

inductive cache_step :: "u64 \<Rightarrow> lflow_cache \<Rightarrow> lflow_cache \<Rightarrow> bool" for sizeof_lce where
  step_enable: "lflow_cache_enable now lc en cap kb limit perc timeout = Some lc' \<Longrightarrow> cache_step sizeof_lce lc lc'"
| step_flush: "lflow_cache_flush lc = Some lc' \<Longrightarrow> cache_step sizeof_lce lc lc'"
| step_delete: "lflow_cache_delete now lc u = Some lc' \<Longrightarrow> cache_step sizeof_lce lc lc'"
| step_run: "lflow_cache_run now lc = Some lc' \<Longrightarrow> cache_step sizeof_lce lc lc'"
| step_add_expr: "may_add sizeof_lce lc u sz \<Longrightarrow> lflow_cache_add_expr sizeof_lce now lc u e sz = Some lc' \<Longrightarrow>
    cache_step sizeof_lce lc lc'"
| step_add_matches: "may_add sizeof_lce lc u sz \<Longrightarrow>
    lflow_cache_add_matches sizeof_lce now lc u ofs n ms sz = Some lc' \<Longrightarrow> cache_step sizeof_lce lc lc'"

inductive cache_reachable :: "u64 \<Rightarrow> lflow_cache \<Rightarrow> bool" for sizeof_lce where
  reach_create: "cache_reachable sizeof_lce lflow_cache_create"
| reach_step: "cache_reachable sizeof_lce lc \<Longrightarrow> cache_step sizeof_lce lc lc' \<Longrightarrow> cache_reachable sizeof_lce lc'"

definition cache_ok :: "lflow_cache \<Rightarrow> bool" where
  "cache_ok lc \<longleftrightarrow> (\<exists>S. cache_inv lc S \<and> cache_limits lc S)"

lemma lflow_cache_create_ok: "cache_inv lflow_cache_create {}" "cache_limits lflow_cache_create {}"
  using hm.keyed_empty [of lce_uuid uuid_hash]
  by (simp_all add: cache_inv_def cache_limits_def lflow_cache_create_def)

lemma may_add_new:
  assumes "cache_inv lc S" "may_add sizeof_lce lc u sz"
  shows "enabled lc \<Longrightarrow> u \<notin> lce_uuid ` S" and "unat sizeof_lce + unat sz + unat (mem_usage lc) < 2 ^ 64"
  using assms lflow_cache_get_None [OF assms(1)] by (auto simp: may_add_def)

lemma lflow_cache_add'_cache_ok:
  assumes ok: "cache_ok lc" and may: "may_add sizeof_lce lc u sz"
  shows "\<exists>b lc'. lflow_cache_add' sizeof_lce now lc u v sz = Some (b, lc') \<and> cache_ok lc'"
proof -
  obtain S where S: "cache_inv lc S" "cache_limits lc S" using ok by (auto simp: cache_ok_def)
  from lflow_cache_add'_ok [OF S may_add_new [OF S(1) may], of now v] show ?thesis
    unfolding cache_ok_def by blast
qed

text \<open>Every operation returns, with the invariant.\<close>

lemma cache_operations_ok:
  assumes ok: "cache_ok lc"
  shows "\<exists>lc'. lflow_cache_enable now lc en cap kb limit perc timeout = Some lc' \<and> cache_ok lc'"
    and "\<exists>lc'. lflow_cache_flush lc = Some lc' \<and> cache_ok lc'"
    and "\<exists>lc'. lflow_cache_delete now lc u = Some lc' \<and> cache_ok lc'"
    and "\<exists>lc'. lflow_cache_run now lc = Some lc' \<and> cache_ok lc'"
    and "may_add sizeof_lce lc u sz \<Longrightarrow> \<exists>lc'. lflow_cache_add_expr sizeof_lce now lc u e sz = Some lc' \<and> cache_ok lc'"
    and "may_add sizeof_lce lc u sz \<Longrightarrow>
      \<exists>lc'. lflow_cache_add_matches sizeof_lce now lc u ofs n ms sz = Some lc' \<and> cache_ok lc'"
proof -
  obtain S where S: "cache_inv lc S" "cache_limits lc S" using ok by (auto simp: cache_ok_def)
  show "\<exists>lc'. lflow_cache_enable now lc en cap kb limit perc timeout = Some lc' \<and> cache_ok lc'"
    using lflow_cache_enable_ok [OF S] unfolding cache_ok_def by blast
  show "\<exists>lc'. lflow_cache_flush lc = Some lc' \<and> cache_ok lc'"
  proof -
    from lflow_cache_flush_ok [OF S(1)] obtain lc' where lc': "lflow_cache_flush lc = Some lc'" "cache_inv lc' {}"
      "n_entries lc' = 0" "mem_usage lc' = 0" by blast
    then have "cache_limits lc' {}" by (simp add: cache_limits_def)
    with lc' show ?thesis unfolding cache_ok_def by blast
  qed
  show "\<exists>lc'. lflow_cache_delete now lc u = Some lc' \<and> cache_ok lc'"
    using lflow_cache_delete_ok [OF S] unfolding cache_ok_def by blast
  show "\<exists>lc'. lflow_cache_run now lc = Some lc' \<and> cache_ok lc'"
    using lflow_cache_run_ok [OF S] unfolding cache_ok_def by blast
  assume may: "may_add sizeof_lce lc u sz"
  show "\<exists>lc'. lflow_cache_add_expr sizeof_lce now lc u e sz = Some lc' \<and> cache_ok lc'"
    using lflow_cache_add'_cache_ok [OF ok may, of now "LCV_EXPR e"] by (auto simp: lflow_cache_add_expr_def)
  show "\<exists>lc'. lflow_cache_add_matches sizeof_lce now lc u ofs n ms sz = Some lc' \<and> cache_ok lc'"
    using lflow_cache_add'_cache_ok [OF ok may, of now "LCV_MATCHES n ofs ms"]
    by (auto simp: lflow_cache_add_matches_def)
qed

lemma cache_step_ok: "cache_step sizeof_lce lc lc' \<Longrightarrow> cache_ok lc \<Longrightarrow> cache_ok lc'"
  by (induction rule: cache_step.induct) (use cache_operations_ok in \<open>metis option.inject\<close>)+

lemma cache_reachable_ok: "cache_reachable sizeof_lce lc \<Longrightarrow> cache_ok lc"
proof (induction rule: cache_reachable.induct)
  case reach_create
  show ?case unfolding cache_ok_def using lflow_cache_create_ok by blast
next
  case (reach_step lc lc')
  then show ?case using cache_step_ok by blast
qed

text \<open>
  \<^bold>\<open>C12\<close>: in every state that the operations reach, the number of entries and the memory in
  use are exactly those of the entries in the two hash maps, no flow has two entries, the
  cache holds at most \<open>capacity\<close> entries that use at most \<open>max_mem_usage\<close> bytes, and a disabled
  cache is empty.
\<close>

theorem cache_reachable_invariant:
  assumes "cache_reachable sizeof_lce lc"
  shows "\<exists>S. (\<forall>ty. holds lce_uuid uuid_hash (entries lc ty) {e \<in> S. lcv_type (lce_value e) = ty}) \<and>
    inj_on lce_uuid S \<and> unat (n_entries lc) = card S \<and> unat (mem_usage lc) = (\<Sum>e \<in> S. unat (lce_size e)) \<and>
    n_entries lc \<le> high_watermark lc \<and> n_entries lc \<le> capacity lc \<and> mem_usage lc \<le> max_mem_usage lc \<and>
    (\<not> enabled lc \<longrightarrow> S = {})"
  using cache_reachable_ok [OF assms] unfolding cache_ok_def cache_inv_def cache_limits_def by blast

text \<open>A cache of one entry, after it has been enabled for at most one entry.\<close>

definition one_entry_cache :: "lflow_cache option" where
  "one_entry_cache =
     do {
       lc \<leftarrow> lflow_cache_enable 5 lflow_cache_create True 1 100 10000 50 30000;
       lflow_cache_add_expr 56 6 lc \<lparr>part0 = 1, part1 = 2, part2 = 3, part3 = 4\<rparr> (Boolean True) 40
     }"

lemma one_entry_cache_eval:
  "map_option (\<lambda>lc. (n_entries lc, mem_usage lc, high_watermark lc, enabled lc)) one_entry_cache = Some (1, 96, 1, True)"
  by code_simp

lemma one_entry_cache_room:
  "map_option (\<lambda>lc. (lflow_cache_get lc \<lparr>part0 = 1, part1 = 2, part2 = 3, part3 = 4\<rparr> = None, mem_usage lc))
     (lflow_cache_enable 5 lflow_cache_create True 1 100 10000 50 30000) = Some (True, 0)"
  by code_simp

lemma one_entry_cache_reachable: "\<exists>lc. one_entry_cache = Some lc \<and> cache_reachable 56 lc \<and> n_entries lc = 1"
proof -
  obtain lc where lc: "one_entry_cache = Some lc" "n_entries lc = 1" using one_entry_cache_eval by auto
  then obtain lc1 where lc1: "lflow_cache_enable 5 lflow_cache_create True 1 100 10000 50 30000 = Some lc1"
    "lflow_cache_add_expr 56 6 lc1 \<lparr>part0 = 1, part1 = 2, part2 = 3, part3 = 4\<rparr> (Boolean True) 40 = Some lc"
    by (auto simp: one_entry_cache_def split: Option.bind_splits)
  have "may_add 56 lc1 \<lparr>part0 = 1, part1 = 2, part2 = 3, part3 = 4\<rparr> 40"
    using one_entry_cache_room unfolding lc1(1) by (simp add: may_add_def)
  then have "cache_reachable 56 lc"
    using lc1 reach_create reach_step step_enable step_add_expr by metis
  with lc show ?thesis by blast
qed

theorem cache_reachable_invariant_witness:
  "\<exists>lc S. one_entry_cache = Some lc \<and> card S = 1 \<and> n_entries lc \<le> capacity lc \<and>
     (\<forall>ty. holds lce_uuid uuid_hash (entries lc ty) {e \<in> S. lcv_type (lce_value e) = ty})"
proof -
  obtain lc where "one_entry_cache = Some lc" "cache_reachable 56 lc" "n_entries lc = 1"
    using one_entry_cache_reachable by blast
  with cache_reachable_invariant [of 56 lc] show ?thesis by force
qed

text \<open>
  \<^bold>\<open>C15\<close>: no operation on a reachable cache fails an assertion: each of them returns.
\<close>

theorem lflow_cache_operations_return:
  assumes "cache_reachable sizeof_lce lc"
  shows "lflow_cache_enable now lc en cap kb limit perc timeout \<noteq> None \<and> lflow_cache_flush lc \<noteq> None \<and>
    lflow_cache_delete now lc u \<noteq> None \<and> lflow_cache_run now lc \<noteq> None \<and>
    (may_add sizeof_lce lc u sz \<longrightarrow> lflow_cache_add_expr sizeof_lce now lc u e sz \<noteq> None \<and>
       lflow_cache_add_matches sizeof_lce now lc u ofs n ms sz \<noteq> None)"
  using cache_operations_ok [OF cache_reachable_ok [OF assms]] by (metis option.distinct(1))

theorem lflow_cache_operations_return_witness:
  "\<exists>lc. one_entry_cache = Some lc \<and> lflow_cache_flush lc \<noteq> None \<and> lflow_cache_run 40000 lc \<noteq> None \<and>
     lflow_cache_delete 7 lc \<lparr>part0 = 1, part1 = 2, part2 = 3, part3 = 4\<rparr> \<noteq> None"
proof -
  obtain lc where "one_entry_cache = Some lc" "cache_reachable 56 lc" using one_entry_cache_reachable by blast
  with lflow_cache_operations_return [of 56 lc 7 _ _ _ _ _ _ "\<lparr>part0 = 1, part1 = 2, part2 = 3, part3 = 4\<rparr>"]
    lflow_cache_operations_return [of 56 lc 40000] show ?thesis by (intro exI [of _ lc]) simp
qed

lemma lflow_cache_get_iff:
  assumes "cache_inv lc S" "enabled lc"
  shows "lflow_cache_get lc u = Some nd \<longleftrightarrow> snd nd \<in> S \<and> lce_uuid (snd nd) = u \<and> fst nd = uuid_hash u"
proof
  assume "lflow_cache_get lc u = Some nd"
  from lflow_cache_get_Some [OF assms(1) this] show "snd nd \<in> S \<and> lce_uuid (snd nd) = u \<and> fst nd = uuid_hash u"
    by (metis fst_conv)
next
  assume a: "snd nd \<in> S \<and> lce_uuid (snd nd) = u \<and> fst nd = uuid_hash u"
  then have "lflow_cache_get lc u \<noteq> None" using lflow_cache_get_None [OF assms] by blast
  then obtain nd' where get: "lflow_cache_get lc u = Some nd'" by blast
  note nd' = lflow_cache_get_Some [OF assms(1) get]
  have "snd nd' = snd nd" using a nd'(2,3) cache_invD(3) [OF assms(1)] by (metis inj_onD)
  moreover have "fst nd' = fst nd" using a nd'(1,3) by (metis fst_conv)
  ultimately show "lflow_cache_get lc u = Some nd" using get by (simp add: prod_eq_iff)
qed

definition cached :: "lflow_cache \<Rightarrow> uuid \<Rightarrow> lflow_cache_value option" where
  "cached lc u = map_option (\<lambda>lce. lce_value (snd lce)) (lflow_cache_get lc u)"

lemma cached_iff:
  assumes "cache_inv lc S" "enabled lc"
  shows "cached lc u = Some v \<longleftrightarrow> (\<exists>e \<in> S. lce_uuid e = u \<and> lce_value e = v)"
proof -
  have "cached lc u = Some v \<longleftrightarrow> (\<exists>nd. lflow_cache_get lc u = Some nd \<and> lce_value (snd nd) = v)"
    by (auto simp: cached_def)
  also have "\<dots> \<longleftrightarrow> (\<exists>e \<in> S. lce_uuid e = u \<and> lce_value e = v)"
    unfolding lflow_cache_get_iff [OF assms] by (metis fst_conv snd_conv)
  finally show ?thesis .
qed




lemma one_entry_cache_state:
  "map_option (\<lambda>lc. (mem_usage lc, max_mem_usage lc, enabled lc, last_active_ms (mt lc), lflow_cache_wait lc)) one_entry_cache
     = Some (96, 102400, True, 6, Some 30006)"
  "map_option (\<lambda>lc. (cached lc \<lparr>part0 = 1, part1 = 2, part2 = 3, part3 = 4\<rparr>,
       lflow_cache_get lc \<lparr>part0 = 9, part1 = 2, part2 = 3, part3 = 4\<rparr> = None)) one_entry_cache
     = Some (Some (LCV_EXPR (Boolean True)), True)"
  by code_simp+


lemma lflow_cache_trim'_forced:
  assumes "cache_inv lc S"
  shows "\<exists>lc'. lflow_cache_trim' lc True = Some lc' \<and> cache_inv lc' S \<and> same_conf lc lc' \<and>
    high_watermark lc' = n_entries lc \<and> trim_count lc' = trim_count lc + 1 \<and> mt lc' = mt lc"
  using lflow_cache_trim'_ok [OF assms, of True]
  by (auto simp: lflow_cache_trim'_def Let_def split: if_splits Option.bind_splits)

lemma cached_same:
  assumes "cache_inv lc S" "cache_inv lc' S" "enabled lc = enabled lc'"
  shows "cached lc' u = cached lc u"
proof (cases "enabled lc")
  case False
  then show ?thesis using assms(3) by (simp add: cached_def lflow_cache_get_def lflow_cache_is_enabled_def)
next
  case True
  then have "cached lc' u = Some v \<longleftrightarrow> cached lc u = Some v" for v
    using cached_iff [OF assms(1)] cached_iff [OF assms(2)] assms(3) by simp
  then show ?thesis by (metis option.exhaust)
qed

text \<open>
  \<^bold>\<open>C16\<close>: when \<open>lflow_cache_run\<close> trims. If \<open>lflow_cache_wait\<close> asks for no wake-up, it does nothing. If
  \<open>lflow_cache_wait\<close> asks for a wake-up at \<open>deadline\<close>, it trims at any time from then on that is
  greater than the timeout (which follows if the last activity was after time 0), and also if the
  clock shows a time before the last activity; at all other times it does nothing. A trim sets the
  high watermark to the number of entries, loses no entry, and no further wake-up is asked for.
\<close>

theorem lflow_cache_run_trims:
  assumes reach: "cache_reachable sizeof_lce lc"
  shows "case lflow_cache_wait lc of
      None \<Rightarrow> lflow_cache_run now lc = Some lc
    | Some deadline \<Rightarrow>
        if now < last_active_ms (mt lc) \<or> deadline \<le> now \<and> uint (trim_timeout_ms (mt lc)) < now
        then \<exists>lc'. lflow_cache_run now lc = Some lc' \<and> high_watermark lc' = n_entries lc \<and>
          trim_count lc' = trim_count lc + 1 \<and> lflow_cache_wait lc' = None \<and> (\<forall>u. cached lc' u = cached lc u)
        else lflow_cache_run now lc = Some lc"
proof -
  let ?mt = "(mt lc)\<lparr>recently_active := False\<rparr>" and ?lc = "lc\<lparr>mt := (mt lc)\<lparr>recently_active := False\<rparr>\<rparr>"
  obtain S where S: "cache_inv lc S" using cache_reachable_ok [OF reach] by (auto simp: cache_ok_def)
  then have "cache_inv ?lc S" by (simp add: cache_inv_conf)
  from lflow_cache_trim'_forced [OF this] obtain lc' where
    lc': "lflow_cache_trim' ?lc True = Some lc'" "cache_inv lc' S" "same_conf ?lc lc'"
      "high_watermark lc' = n_entries lc" "trim_count lc' = trim_count lc + 1" "mt lc' = ?mt" by auto
  have cached: "cached lc' u = cached lc u" for u
    using cached_same [OF S lc'(2)] lc'(3) by (simp add: same_conf_def)
  have wait: "lflow_cache_wait lc' = None" using lc'(6) by (simp add: lflow_cache_wait_def memory_trimmer_wait_def)
  have trims: "lflow_cache_run now lc = Some lc'" if "memory_trimmer_can_run now (mt lc) = (True, ?mt)"
    using that lc'(1) by (simp add: lflow_cache_run_def)
  have idle: "lflow_cache_run now lc = Some lc" if "memory_trimmer_can_run now (mt lc) = (False, mt lc)"
    using that by (simp add: lflow_cache_run_def)
  show ?thesis
  proof (cases "recently_active (mt lc)")
    case False
    with idle show ?thesis by (simp add: lflow_cache_wait_def memory_trimmer_wait_def memory_trimmer_can_run_def)
  next
    case True
    let ?now = "now < last_active_ms (mt lc) \<or>
      last_active_ms (mt lc) + uint (trim_timeout_ms (mt lc)) \<le> now \<and> uint (trim_timeout_ms (mt lc)) < now"
    have "memory_trimmer_can_run now (mt lc) = (if ?now then (True, ?mt) else (False, mt lc))"
      using True by (auto simp: memory_trimmer_can_run_def)
    with trims idle lc'(4,5) cached wait True show ?thesis
      by (auto simp: lflow_cache_wait_def memory_trimmer_wait_def split: if_splits)
  qed
qed

theorem lflow_cache_run_trims_witness:
  "\<exists>lc. one_entry_cache = Some lc \<and> (\<exists>lc'. lflow_cache_run 30006 lc = Some lc' \<and> lflow_cache_wait lc' = None) \<and>
     lflow_cache_run 30005 lc = Some lc \<and> (\<exists>lc'. lflow_cache_run 5 lc = Some lc' \<and> lflow_cache_wait lc' = None)"
proof -
  obtain lc where lc: "one_entry_cache = Some lc" "cache_reachable 56 lc" using one_entry_cache_reachable by blast
  have st: "last_active_ms (mt lc) = 6" "lflow_cache_wait lc = Some 30006"
    using one_entry_cache_state(1) unfolding lc(1) by simp_all
  then have "uint (trim_timeout_ms (mt lc)) = 30000"
    by (simp add: lflow_cache_wait_def memory_trimmer_wait_def split: if_splits)
  with st lc(1) lflow_cache_run_trims [OF lc(2), of 30006] lflow_cache_run_trims [OF lc(2), of 30005]
    lflow_cache_run_trims [OF lc(2), of 5] show ?thesis by auto
qed

text \<open>
  \<^bold>\<open>C25\<close>: as long as the product of the high watermark and the percentage does not wrap around
  (at most 42949672 entries), an unforced trim happens exactly when the high watermark is above
  the trim limit and the entries are at most that percentage of it. (The comment in the code and
  the manual say that a high watermark equal to the trim limit is enough, and that the entries have
  to be fewer than the percentage.)
\<close>

theorem lflow_cache_trim_exact:
  assumes hw: "unat (high_watermark lc) \<le> 42949672" and perc: "trim_wmark_perc lc \<le> 100"
    and ok: "cache_ok lc"
  shows "\<exists>lc'. lflow_cache_trim' lc False = Some lc' \<and>
    trim_count lc' = (if trim_limit lc < high_watermark lc \<and>
        100 * unat (n_entries lc) \<le> unat (high_watermark lc) * unat (trim_wmark_perc lc)
      then trim_count lc + 1 else trim_count lc)"
proof -
  obtain S where S: "cache_inv lc S" using ok by (auto simp: cache_ok_def)
  have p: "unat (trim_wmark_perc lc) \<le> 100" using perc by (simp add: word_le_nat_alt)
  have "unat (high_watermark lc) * unat (trim_wmark_perc lc) \<le> 42949672 * 100" by (rule mult_le_mono [OF hw p])
  then have "unat (high_watermark lc * trim_wmark_perc lc div 100) =
      unat (high_watermark lc) * unat (trim_wmark_perc lc) div 100"
    by (simp add: unat_div unat_word_ariths)
  then have "n_entries lc > high_watermark lc * trim_wmark_perc lc div 100 \<longleftrightarrow>
      \<not> 100 * unat (n_entries lc) \<le> unat (high_watermark lc) * unat (trim_wmark_perc lc)"
    by (auto simp: word_less_nat_alt less_eq_div_iff_mult_less_eq not_less [symmetric] mult.commute)
  moreover obtain lc' where "lflow_cache_trim' lc False = Some lc'" using lflow_cache_trim'_ok [OF S] by blast
  ultimately show ?thesis
    by (auto simp: lflow_cache_trim'_def Let_def not_le not_less split: if_splits Option.bind_splits)
qed

theorem lflow_cache_trim_exact_witness:
  "\<exists>lc'. lflow_cache_trim' (lflow_cache_create\<lparr>high_watermark := 10, trim_limit := 5, trim_wmark_perc := 50\<rparr>) False = Some lc' \<and>
     trim_count lc' = 1"
proof -
  let ?lc = "lflow_cache_create\<lparr>high_watermark := 10, trim_limit := 5, trim_wmark_perc := 50\<rparr>"
  have "cache_inv ?lc {}" "cache_limits ?lc {}"
    using lflow_cache_create_ok by (auto simp: cache_inv_def cache_limits_def unat_eq_0)
  then have "cache_ok ?lc" unfolding cache_ok_def by blast
  from lflow_cache_trim_exact [OF _ _ this] show ?thesis by (simp add: lflow_cache_create_def)
qed

text \<open>
  \<^bold>\<open>C26\<close>: destroying a reachable cache frees every entry: both hash maps are empty when they
  are destroyed.
\<close>

theorem lflow_cache_destroy_no_leak:
  assumes "cache_reachable sizeof_lce lc"
  shows "\<exists>left. lflow_cache_destroy lc = Some left \<and> (\<forall>ty. left ty = 0)"
proof -
  obtain S where "cache_inv lc S" using cache_reachable_ok [OF assms] by (auto simp: cache_ok_def)
  from lflow_cache_flush_ok [OF this] obtain lc' where lc': "lflow_cache_flush lc = Some lc'" "cache_inv lc' {}" by blast
  have "hmap_count (entries lc' ty) = 0" for ty
    using holds_count [OF cache_invD(1) [OF lc'(2), of ty]] by (simp add: unat_eq_0)
  with lc'(1) show ?thesis by (simp add: lflow_cache_destroy_def)
qed

theorem lflow_cache_destroy_no_leak_witness:
  "\<exists>lc left. one_entry_cache = Some lc \<and> lflow_cache_destroy lc = Some left \<and> (\<forall>ty. left ty = 0)"
proof -
  obtain lc where lc: "one_entry_cache = Some lc" "cache_reachable 56 lc" using one_entry_cache_reachable by blast
  from lflow_cache_destroy_no_leak [OF lc(2)] lc(1) show ?thesis by blast
qed

end
