(* ===== verification/Lflow.thy ===== *)
theory Lflow
  imports Lflow_Conj_Ids Lflow_Cache
begin

text \<open>
  The translation of logical flows in \<open>ovn/controller/lflow.c\<close>: \<open>consider_logical_flow__\<close>, which
  puts the flow cache, the expression passes, the allocator of conjunction ids and the flow
  table together, and the handlers of changes that call it.

  What the translation reads (\<open>struct lflow_ctx_in\<close>) is the record \<open>lflow_ctx_in\<close>. Its functions
  stand for parts that are not modelled: \<open>related_lport\<close> for the set \<open>related_lport_ids\<close>,
  \<open>parse_actions\<close> and \<open>parse_match\<close> for the two parsers (the latter with annotation and
  prerequisites; it also tells whether the match refers to address sets or port groups, and
  whether match or actions use template variables), \<open>contains_obj\<close> for \<open>objdep_mgr_contains_obj\<close>
  once the flow has been processed, \<open>flood\<close> for the flows that \<open>ofctrl_flood_remove_flows\<close>
  removes together with the given ones, and \<open>matches_size\<close> for the size that
  \<open>expr_matches_prepare\<close> returns. \<open>tunnel_keys\<close> and \<open>int64_t\<close> values are integers.

  The desired flow table is the list of the flows that were added to it. The actions, meters
  and the tracking of references are left out. \<open>add_matches_to_flow_table\<close> writes the datapath
  into the matches, also if they are those in the cache; as every use of the matches writes
  it again, the model writes it only into what goes to the flow table.
\<close>

section \<open>Rows and context\<close>

record datapath_binding =
  db_uuid :: uuid
  db_tunnel_key :: int

record port_binding =
  pb_datapath :: uuid
  pb_tunnel_key :: int
  pb_type :: string
  pb_chassis :: "string option"
  pb_ha_chassis_group :: string

record logical_flow =
  lf_uuid :: uuid
  lf_pipeline :: string
  lf_table_id :: int
  lf_priority :: int
  lf_in_out_port :: "string option"
  logical_datapath :: "datapath_binding option"
  logical_dp_group :: "datapath_binding list option"

record of_flow =
  of_ptable :: u8
  of_priority :: u16
  of_match :: expr_match
  of_uuid :: uuid
  of_dp :: uuid

record lflow_ctx_in =
  local_datapaths :: "u32 \<Rightarrow> bool option"
  port_bindings :: "string \<Rightarrow> port_binding option"
  multicast_groups :: "string \<Rightarrow> uuid \<Rightarrow> int option"
  this_chassis :: string
  ha_group_contains :: "string \<Rightarrow> bool"
  ha_group_is_active :: "string \<Rightarrow> bool"
  related_lport :: "int \<Rightarrow> int \<Rightarrow> bool"
  logical_flow_table :: "uuid \<Rightarrow> logical_flow option"
  parse_actions :: "logical_flow \<Rightarrow> bool"
  parse_match :: "uuid \<Rightarrow> datapath_binding \<Rightarrow> (expr \<times> bool \<times> bool) option"
  contains_obj :: "uuid \<Rightarrow> bool"
  flood :: "of_flow list \<Rightarrow> uuid list \<Rightarrow> uuid list"
  matches_size :: "expr_match list \<Rightarrow> u64"
  sizeof_expr :: u64
  sizeof_entry :: u64
  test_mode :: bool
  time_msec :: int

record lflow_ctx_out =
  flow_table :: "of_flow list"
  conj_ids_of :: conj_ids
  cache_of :: lflow_cache
  objs_processed :: "uuid list"

section \<open>Callbacks\<close>

definition lookup_port_cb :: "lflow_ctx_in \<Rightarrow> uuid \<Rightarrow> ports" where
  "lookup_port_cb ctx dp port_name =
     (if strcmp port_name ''none'' = 0 then Some 0
      else case port_bindings ctx port_name of
        Some pb \<Rightarrow>
          if pb_datapath pb = dp then Some (word_of_int (pb_tunnel_key pb))
          else map_option word_of_int (multicast_groups ctx port_name dp)
      | None \<Rightarrow> map_option word_of_int (multicast_groups ctx port_name dp))"

definition is_chassis_resident_cb :: "lflow_ctx_in \<Rightarrow> string \<Rightarrow> bool" where
  "is_chassis_resident_cb ctx port_name =
     (case port_bindings ctx port_name of
        None \<Rightarrow> False
      | Some pb \<Rightarrow>
          if strcmp (pb_type pb) ''chassisredirect'' \<noteq> 0 then pb_chassis pb = Some (this_chassis ctx)
          else if ha_group_contains ctx (pb_ha_chassis_group pb) then ha_group_is_active ctx (pb_ha_chassis_group pb)
          else False)"

section \<open>One logical flow on one datapath\<close>

fun expr_size :: "u64 \<Rightarrow> expr \<Rightarrow> u64" where
  "expr_size sz (Cmp c) = sz + (if sym_width (cmp_symbol c) \<noteq> 0 then 0 else of_nat (length (cmp_string c)))"
| "expr_size sz (And es) = fold (\<lambda>sub total_sz. total_sz + expr_size sz sub) es sz"
| "expr_size sz (Or es) = fold (\<lambda>sub total_sz. total_sz + expr_size sz sub) es sz"
| "expr_size sz (Boolean b) = sz"
| "expr_size sz (Condition n s) = sz + of_nat (length s)"

text \<open>The inner \<open>None\<close> is the NULL that reports an error in the match.\<close>

definition convert_match_to_expr :: "lflow_ctx_in \<Rightarrow> logical_flow \<Rightarrow> datapath_binding \<Rightarrow>
    (expr \<times> bool \<times> bool) option option" where
  "convert_match_to_expr ctx lflow dp =
     (case parse_match ctx (lf_uuid lflow) dp of
        None \<Rightarrow> Some None
      | Some (e, refs) \<Rightarrow> map_option (\<lambda>e. Some (e, refs)) (expr_simplify e))"

abbreviation mff_metadata :: mf_field where
  "mff_metadata \<equiv> \<lparr>mf_id = ''MFF_METADATA'', n_bytes = 8, n_bits = 64, maskable_fully = True\<rparr>"

abbreviation mff_log_inport :: mf_field where
  "mff_log_inport \<equiv> \<lparr>mf_id = ''MFF_REG14'', n_bytes = 4, n_bits = 32, maskable_fully = True\<rparr>"

abbreviation mff_log_outport :: mf_field where
  "mff_log_outport \<equiv> \<lparr>mf_id = ''MFF_REG15'', n_bytes = 4, n_bits = 32, maskable_fully = True\<rparr>"

definition match_set_metadata :: "match \<Rightarrow> u64 \<Rightarrow> match" where
  "match_set_metadata m metadata = put_field mff_metadata (ucast metadata, mask 64) m"

definition is_ingress :: "logical_flow \<Rightarrow> bool" where
  "is_ingress lflow \<longleftrightarrow> strcmp (lf_pipeline lflow) ''ingress'' = 0"

definition ptable_of :: "logical_flow \<Rightarrow> u8" where
  "ptable_of lflow = (if is_ingress lflow then 8 else 48) + word_of_int (lf_table_id lflow)"

text \<open>The port in a match, from the register for the direction of the flow.\<close>

definition match_port :: "logical_flow \<Rightarrow> match \<Rightarrow> int" where
  "match_port lflow m = uint (ucast (fst (mf_get (if is_ingress lflow then mff_log_inport else mff_log_outport) m)) :: u32)"

text \<open>\<open>None\<close> is the failed assertion on address sets.\<close>

fun add_matches_to_flow_table :: "lflow_ctx_in \<Rightarrow> logical_flow \<Rightarrow> datapath_binding \<Rightarrow> bool \<Rightarrow> expr_match list \<Rightarrow>
    of_flow list \<Rightarrow> of_flow list option" where
  "add_matches_to_flow_table ctx lflow dp is_switch [] table = Some table"
| "add_matches_to_flow_table ctx lflow dp is_switch (m # ms) table =
     (let m = m\<lparr>em_match := match_set_metadata (em_match m) (word_of_int (db_tunnel_key dp))\<rparr>;
          port_id = match_port lflow (em_match m) in
      if is_switch \<and> port_id \<noteq> 0 \<and> \<not> related_lport ctx (db_tunnel_key dp) port_id
      then add_matches_to_flow_table ctx lflow dp is_switch ms table
      else if length (conjunctions m) > 1 \<and> em_as_name m \<noteq> None then None
      else add_matches_to_flow_table ctx lflow dp is_switch ms
        (table @ [\<lparr>of_ptable = ptable_of lflow, of_priority = word_of_int (lf_priority lflow), of_match = m,
                   of_uuid = lf_uuid lflow, of_dp = db_uuid dp\<rparr>]))"

definition in_out_port_local :: "lflow_ctx_in \<Rightarrow> logical_flow \<Rightarrow> datapath_binding \<Rightarrow> bool" where
  "in_out_port_local ctx lflow dp =
     (case lf_in_out_port lflow of
        None \<Rightarrow> True
      | Some io_port \<Rightarrow>
          (case port_bindings ctx io_port of
             None \<Rightarrow> False
           | Some pb \<Rightarrow> related_lport ctx (db_tunnel_key dp) (pb_tunnel_key pb)))"

text \<open>
  The look-up in the cache. Cached matches with conjunctions can only be used if their ids
  can be had again; otherwise the entry is dropped.
\<close>

definition lookup_cached :: "lflow_ctx_in \<Rightarrow> lflow_ctx_out \<Rightarrow> logical_flow \<Rightarrow> datapath_binding \<Rightarrow>
    (lflow_cache_value option \<times> lflow_ctx_out) option" where
  "lookup_cached ctx out lflow dp =
     (let lcv = map_option (\<lambda>lce. lce_value (snd lce)) (lflow_cache_get (cache_of out) (lf_uuid lflow)) in
      case lcv of
        Some (LCV_MATCHES n ofs ms) \<Rightarrow>
          if n \<noteq> 0 then
            do {
              (ok, c) \<leftarrow> lflow_conj_ids_alloc_specified (test_mode ctx) (conj_ids_of out) (lf_uuid lflow) (db_uuid dp) ofs n;
              if ok then Some (lcv, out\<lparr>conj_ids_of := c\<rparr>)
              else do {
                lc \<leftarrow> lflow_cache_delete (time_msec ctx) (cache_of out) (lf_uuid lflow);
                Some (None, out\<lparr>conj_ids_of := c, cache_of := lc\<rparr>)
              }
            }
          else Some (lcv, out)
      | _ \<Rightarrow> Some (lcv, out))"

text \<open>The cases in which the function returns early, or the end of the function.\<close>

datatype lflow_outcome = LF_NOT_LOCAL | LF_BAD_ACTIONS | LF_BAD_MATCH | LF_NO_MATCHES | LF_NO_IDS | LF_ADDED

definition update_cache :: "lflow_ctx_in \<Rightarrow> lflow_ctx_out \<Rightarrow> logical_flow \<Rightarrow> expr option \<Rightarrow> u32 \<Rightarrow> u32 \<Rightarrow>
    expr_match list \<Rightarrow> u64 \<Rightarrow> lflow_ctx_out option" where
  "update_cache ctx out lflow cached_expr start n ms size' =
     (if lflow_cache_is_enabled (cache_of out) then
        (case cached_expr of
           None \<Rightarrow> Some out
         | Some e \<Rightarrow>
             map_option (\<lambda>lc. out\<lparr>cache_of := lc\<rparr>)
               (if \<not> contains_obj ctx (lf_uuid lflow)
                then lflow_cache_add_matches (sizeof_entry ctx) (time_msec ctx) (cache_of out) (lf_uuid lflow) start n ms size'
                else lflow_cache_add_expr (sizeof_entry ctx) (time_msec ctx) (cache_of out) (lf_uuid lflow) e
                       (expr_size (sizeof_expr ctx) e)))
      else Some out)"

text \<open>
  From the expression to the flow table. \<open>cached_expr\<close> is the copy of the expression that is
  to be cached, if any.
\<close>

definition translate_expr :: "lflow_ctx_in \<Rightarrow> lflow_ctx_out \<Rightarrow> logical_flow \<Rightarrow> datapath_binding \<Rightarrow> bool \<Rightarrow> expr \<Rightarrow>
    expr option \<Rightarrow> (lflow_outcome \<times> lflow_ctx_out) option" where
  "translate_expr ctx out lflow dp is_switch e cached_expr =
     do {
       e \<leftarrow> expr_normalize (expr_evaluate_condition (is_chassis_resident_cb ctx) e);
       (n, ms) \<leftarrow> expr_to_matches e (lookup_port_cb ctx (db_uuid dp));
       if ms = [] then Some (LF_NO_MATCHES, out)
       else do {
         (start, c) \<leftarrow> (if n \<noteq> 0
                       then lflow_conj_ids_alloc (test_mode ctx) (conj_ids_of out) (lf_uuid lflow) (db_uuid dp) n
                       else Some (0, conj_ids_of out));
         let out = out\<lparr>conj_ids_of := c\<rparr> in
         if n \<noteq> 0 \<and> start = 0 then Some (LF_NO_IDS, out)
         else do {
           let ms = (if n \<noteq> 0 then expr_matches_prepare ms (start - 1) else ms);
           let size' = (if n \<noteq> 0 then matches_size ctx ms else 0);
           table \<leftarrow> add_matches_to_flow_table ctx lflow dp is_switch ms (flow_table out);
           out \<leftarrow> update_cache ctx (out\<lparr>flow_table := table\<rparr>) lflow cached_expr start n ms size';
           Some (LF_ADDED, out)
         }
       }
     }"

definition consider_logical_flow' :: "lflow_ctx_in \<Rightarrow> lflow_ctx_out \<Rightarrow> logical_flow \<Rightarrow> datapath_binding \<Rightarrow>
    (lflow_outcome \<times> lflow_ctx_out) option" where
  "consider_logical_flow' ctx out lflow dp =
     (case local_datapaths ctx (word_of_int (db_tunnel_key dp)) of
        None \<Rightarrow> Some (LF_NOT_LOCAL, out)
      | Some is_switch \<Rightarrow>
          if \<not> in_out_port_local ctx lflow dp then Some (LF_NOT_LOCAL, out)
          else if \<not> parse_actions ctx lflow then Some (LF_BAD_ACTIONS, out)
          else do {
            (lcv, out) \<leftarrow> lookup_cached ctx out lflow dp;
            case lcv of
              None \<Rightarrow>
                do {
                  r \<leftarrow> convert_match_to_expr ctx lflow dp;
                  case r of
                    None \<Rightarrow> Some (LF_BAD_MATCH, out)
                  | Some (e, pg_addr_set_ref, template_vars_ref) \<Rightarrow>
                      translate_expr ctx out lflow dp is_switch e
                        (if lflow_cache_is_enabled (cache_of out) \<and> \<not> pg_addr_set_ref \<and> \<not> template_vars_ref
                         then Some e else None)
                }
            | Some (LCV_EXPR e) \<Rightarrow> translate_expr ctx out lflow dp is_switch e None
            | Some (LCV_MATCHES n ofs ms) \<Rightarrow>
                do {
                  table \<leftarrow> add_matches_to_flow_table ctx lflow dp is_switch ms (flow_table out);
                  Some (LF_ADDED, out\<lparr>flow_table := table\<rparr>)
                }
          })"

section \<open>Logical flows and changes\<close>

fun consider_on_datapaths :: "lflow_ctx_in \<Rightarrow> logical_flow \<Rightarrow> datapath_binding list \<Rightarrow> lflow_ctx_out \<Rightarrow>
    lflow_ctx_out option" where
  "consider_on_datapaths ctx lflow [] out = Some out"
| "consider_on_datapaths ctx lflow (dp # rest) out =
     do {
       (_, out) \<leftarrow> consider_logical_flow' ctx out lflow dp;
       consider_on_datapaths ctx lflow rest out
     }"

definition consider_logical_flow :: "lflow_ctx_in \<Rightarrow> logical_flow \<Rightarrow> bool \<Rightarrow> lflow_ctx_out \<Rightarrow> lflow_ctx_out option" where
  "consider_logical_flow ctx lflow is_recompute out =
     (if logical_dp_group lflow = None \<and> logical_datapath lflow = None then Some out
      else if logical_dp_group lflow \<noteq> None \<and> logical_datapath lflow \<noteq> None then None
      else if \<not> is_recompute \<and> lf_uuid lflow \<in> set (objs_processed out) then None
      else
        let out = (if is_recompute then out else out\<lparr>objs_processed := lf_uuid lflow # objs_processed out\<rparr>) in
        case logical_datapath lflow of
          Some dp \<Rightarrow> map_option snd (consider_logical_flow' ctx out lflow dp)
        | None \<Rightarrow>
            (case logical_dp_group lflow of
               None \<Rightarrow> Some out
             | Some datapaths \<Rightarrow> consider_on_datapaths ctx lflow datapaths out))"

text \<open>The rows of the table \<open>Logical_Flow\<close> in the order of the iteration.\<close>

definition add_logical_flows :: "lflow_ctx_in \<Rightarrow> logical_flow list \<Rightarrow> lflow_ctx_out \<Rightarrow> lflow_ctx_out option" where
  "add_logical_flows ctx = fold_opt (\<lambda>lflow. consider_logical_flow ctx lflow True)"

definition ofctrl_flood_remove_flows :: "uuid list \<Rightarrow> lflow_ctx_out \<Rightarrow> lflow_ctx_out" where
  "ofctrl_flood_remove_flows nodes out = out\<lparr>flow_table := filter (\<lambda>x. of_uuid x \<notin> set nodes) (flow_table out)\<rparr>"

text \<open>The body of the loops over the removed flows.\<close>

definition reprocess_lflow :: "lflow_ctx_in \<Rightarrow> uuid \<Rightarrow> lflow_ctx_out \<Rightarrow> lflow_ctx_out option" where
  "reprocess_lflow ctx u out =
     do {
       c \<leftarrow> lflow_conj_ids_free (test_mode ctx) (conj_ids_of out) u;
       let out = out\<lparr>conj_ids_of := c\<rparr>;
       case logical_flow_table ctx u of
         None \<Rightarrow> Some out
       | Some lflow \<Rightarrow>
           consider_logical_flow ctx lflow False
             (out\<lparr>objs_processed := filter (\<lambda>x. x \<noteq> lf_uuid lflow) (objs_processed out)\<rparr>)
     }"

definition lflow_handle_changed_ref :: "lflow_ctx_in \<Rightarrow> uuid list \<Rightarrow> lflow_ctx_out \<Rightarrow> lflow_ctx_out option" where
  "lflow_handle_changed_ref ctx objs_todo out =
     (let objs_todo = flood ctx (flow_table out) objs_todo in
      fold_opt (reprocess_lflow ctx) objs_todo (ofctrl_flood_remove_flows objs_todo out))"

text \<open>The tracked rows come with the flag of \<open>sbrec_logical_flow_is_new\<close>.\<close>

definition forget_changed :: "lflow_ctx_in \<Rightarrow> (uuid \<times> bool) list \<Rightarrow> lflow_ctx_out \<Rightarrow> lflow_ctx_out option" where
  "forget_changed ctx =
     fold_opt (\<lambda>(u, is_new) out.
       if \<not> is_new \<and> lflow_cache_is_enabled (cache_of out)
       then map_option (\<lambda>lc. out\<lparr>cache_of := lc\<rparr>) (lflow_cache_delete (time_msec ctx) (cache_of out) u)
       else Some out)"

definition lflow_handle_changed_flows :: "lflow_ctx_in \<Rightarrow> (uuid \<times> bool) list \<Rightarrow> lflow_ctx_out \<Rightarrow>
    lflow_ctx_out option" where
  "lflow_handle_changed_flows ctx tracked out =
     (let todo = filter (\<lambda>(u, is_new). u \<notin> set (objs_processed out)) tracked in
      do {
        out \<leftarrow> forget_changed ctx todo out;
        let nodes = flood ctx (flow_table out) (map fst todo);
        fold_opt (reprocess_lflow ctx) nodes (ofctrl_flood_remove_flows nodes out)
      })"

section \<open>The passes over the expression\<close>

lemma simplify_syms_aux:
  "(\<forall>c \<in> cmps_of e. parsed_cmp X c) \<Longrightarrow> expr_simplify e = Some e' \<Longrightarrow>
     cmp_symbol ` cmps_of e' \<subseteq> cmp_symbol ` cmps_of e"
  "ty = T_AND \<or> ty = T_OR \<Longrightarrow> (\<forall>e \<in> set es. \<forall>c \<in> cmps_of e. parsed_cmp X c) \<Longrightarrow> simplify_subs ty es = Some es' \<Longrightarrow>
     cmp_symbol ` (\<Union>e \<in> set es'. cmps_of e) \<subseteq> cmp_symbol ` (\<Union>e \<in> set es. cmps_of e)"
proof (induction e and ty es arbitrary: e' and es' rule: expr_simplify_simplify_subs.induct)
  case (1 c)
  then have "parsed_cmp X c" by simp
  from expr_simplify_cmp_ok [OF this] 1(2) show ?case by (auto simp: simplified_to_def)
next
  case (2 es)
  then obtain es' where es': "simplify_subs T_AND es = Some es'" "e' = expr_fix (And es')" by auto
  have "cmp_symbol ` cmps_of e' \<subseteq> cmp_symbol ` (\<Union>e \<in> set es'. cmps_of e)"
    using cmps_expr_fix [of "And es'"] unfolding es'(2) by (intro image_mono) simp
  also have "\<dots> \<subseteq> cmp_symbol ` (\<Union>e \<in> set es. cmps_of e)" using "2.IH" "2.prems"(1) es'(1) by simp
  finally show ?case by simp
next
  case (3 es)
  then obtain es' where es': "simplify_subs T_OR es = Some es'" "e' = expr_fix (Or es')" by auto
  have "cmp_symbol ` cmps_of e' \<subseteq> cmp_symbol ` (\<Union>e \<in> set es'. cmps_of e)"
    using cmps_expr_fix [of "Or es'"] unfolding es'(2) by (intro image_mono) simp
  also have "\<dots> \<subseteq> cmp_symbol ` (\<Union>e \<in> set es. cmps_of e)" using "3.IH" "3.prems"(1) es'(1) by simp
  finally show ?case by simp
next
  case (7 ty sub es)
  then obtain e1 es1 where 1: "expr_simplify sub = Some e1" "simplify_subs ty es = Some es1"
    "es' = expr_insert_andor ty e1 @ es1" by (auto split: Option.bind_splits)
  have "(\<Union>x \<in> set es'. cmps_of x) = cmps_of e1 \<union> (\<Union>x \<in> set es1. cmps_of x)"
    using cmps_insert_andor [OF 7(3), of e1] 1(3) by auto
  moreover have "cmp_symbol ` cmps_of e1 \<subseteq> cmp_symbol ` cmps_of sub" using "7.IH"(1) "7.prems"(2) 1(1) by simp
  moreover have "cmp_symbol ` (\<Union>x \<in> set es1. cmps_of x) \<subseteq> cmp_symbol ` (\<Union>x \<in> set es. cmps_of x)"
    using "7.IH"(2) [OF 1(1)] "7.prems"(1,2) 1(2) by simp
  ultimately have "cmp_symbol ` (\<Union>x \<in> set es'. cmps_of x) \<subseteq>
      cmp_symbol ` cmps_of sub \<union> cmp_symbol ` (\<Union>x \<in> set es. cmps_of x)" by (simp only: image_Un Un_mono)
  then show ?case by (simp only: list.set UN_insert image_Un)
qed auto

lemmas expr_simplify_syms = simplify_syms_aux(1)

lemma evaluate_condition_cmps: "cmps_of (expr_evaluate_condition r e) \<subseteq> cmps_of e"
proof (induction e)
  case (And es)
  have "cmps_of (And (concat (map (\<lambda>e. expr_insert_andor T_AND (expr_fix (expr_evaluate_condition r e))) es)))
      = (\<Union>e \<in> set es. cmps_of (expr_fix (expr_evaluate_condition r e)))"
    using cmps_insert_andor [of T_AND] by simp
  also have "\<dots> \<subseteq> (\<Union>e \<in> set es. cmps_of e)" using And cmps_expr_fix by blast
  finally show ?case using cmps_expr_fix by (fastforce simp del: expr_fix.simps)
next
  case (Or es)
  have "cmps_of (Or (concat (map (\<lambda>e. expr_insert_andor T_OR (expr_fix (expr_evaluate_condition r e))) es)))
      = (\<Union>e \<in> set es. cmps_of (expr_fix (expr_evaluate_condition r e)))"
    using cmps_insert_andor [of T_OR] by simp
  also have "\<dots> \<subseteq> (\<Union>e \<in> set es. cmps_of e)" using Or cmps_expr_fix by blast
  finally show ?case using cmps_expr_fix by (fastforce simp del: expr_fix.simps)
qed (auto simp: expr_evaluate_condition_node_def)

text \<open>An expression that the controller can translate, over the symbols \<open>S\<close>.\<close>

definition symbols_ok :: "expr_symbol set \<Rightarrow> expr_symbol set \<Rightarrow> bool" where
  "symbols_ok X S \<longleftrightarrow> flow_syms X S \<and> inj_on sym_name S"

definition translatable :: "expr_symbol set \<Rightarrow> expr_symbol set \<Rightarrow> expr \<Rightarrow> bool" where
  "translatable X S e \<longleftrightarrow> (\<forall>c \<in> cmps_of e. parsed_cmp X c \<and> cmp_symbol c \<in> S) \<and>
     (\<forall>r x e'. expr_simplify e = Some x \<longrightarrow> expr_normalize (expr_evaluate_condition r x) = Some e' \<longrightarrow> fits e')"

lemma passes_ok:
  assumes sy: "symbols_ok X S" and tr: "translatable X S e" and lp: "inj_ports lp"
  shows "\<exists>x e' n ms. expr_simplify e = Some x \<and> expr_normalize (expr_evaluate_condition r x) = Some e' \<and>
    normalized X S e' \<and> expr_to_matches e' lp = Some (n, ms) \<and> ids_in {1..n} ms \<and>
    (\<forall>f. packet_ok f \<longrightarrow> table_hits f ms = ev (cmp_sat f lp) r e)"
proof -
  have p: "\<forall>c \<in> cmps_of e. parsed_cmp X c" and s: "cmp_symbol ` cmps_of e \<subseteq> S"
    using tr by (auto simp: translatable_def)
  obtain x where x: "expr_simplify e = Some x" "simplified X True x"
    "\<forall>f lp r. ev (cmp_sat f lp) r x = ev (cmp_sat f lp) r e" using expr_simplify_ok [OF p] by blast
  let ?y = "expr_evaluate_condition r x"
  have y: "simplified X False ?y" "\<forall>s r'. ev s r' ?y = ev s r x"
    using expr_evaluate_condition_ok [OF x(2)] by blast+
  have "cmp_symbol ` cmps_of ?y \<subseteq> S"
    using expr_simplify_syms [OF p x(1)] evaluate_condition_cmps [of r x] s by blast
  then have "norm_in X S ?y" using y(1) by (auto simp: norm_in_def simplified_def)
  then obtain e' where e': "expr_normalize ?y = Some e'" "normalized X S e'" "same_ev e' ?y"
    using expr_normalize_ok sy unfolding symbols_ok_def by blast
  have "fits e'" using tr x(1) e'(1) by (simp add: translatable_def)
  then obtain n ms where ms: "expr_to_matches e' lp = Some (n, ms)" "ids_in {1..n} ms"
    "\<forall>f r. packet_ok f \<longrightarrow> table_hits f ms = ev (cmp_sat f lp) r e'"
    using expr_to_matches_ok [OF e'(2)] sy unfolding symbols_ok_def by blast
  have "ev (cmp_sat f lp) r e' = ev (cmp_sat f lp) r e" for f
    using same_evD [OF e'(3) lp, of f r] x(3) y(2) by simp
  with x(1) e'(1,2) ms show ?thesis by blast
qed

section \<open>Properties of every match in the table\<close>

text \<open>
  A property of matches that holds of the empty match and that constraining a match with a
  comparison on a symbol of \<open>S\<close> keeps, holds of all matches that \<open>expr_to_matches\<close> produces.
  Besides, a flow for several conjunctions does not belong to an address set.
\<close>

definition em_all :: "(match \<Rightarrow> bool) \<Rightarrow> expr_match list \<Rightarrow> bool" where
  "em_all P ms \<longleftrightarrow> (\<forall>x \<in> set ms. P (em_match x) \<and> (1 < length (conjunctions x) \<longrightarrow> em_as_name x = None))"

lemma em_all_simps [simp]: "em_all P []"
  "em_all P (x # ms) \<longleftrightarrow> (P (em_match x) \<and> (1 < length (conjunctions x) \<longrightarrow> em_as_name x = None)) \<and> em_all P ms"
  by (simp_all add: em_all_def)

lemma expr_match_add_all:
  "expr_match_add x ms = Some ms' \<Longrightarrow> P (em_match x) \<Longrightarrow> length (conjunctions x) \<le> 1 \<Longrightarrow> em_all P ms \<Longrightarrow> em_all P ms'"
proof (induction x ms arbitrary: ms' rule: expr_match_add.induct)
  case (2 x m ms)
  then show ?case by (auto split: if_splits)
qed auto

lemma expr_match_new_sel [simp]:
  "em_match (expr_match_new (Some m) k n cid) = m" "em_match (expr_match_new None k n cid) = match_init_catchall"
  "length (conjunctions (expr_match_new m' k n cid)) \<le> Suc 0"
  by (simp_all add: expr_match_new_def)

text \<open>The flow that \<open>disjunction_loop\<close> starts from.\<close>

definition disjunct_new :: "match \<Rightarrow> u8 \<Rightarrow> u8 \<Rightarrow> u32 \<Rightarrow> expr \<Rightarrow> expr_match option" where
  "disjunct_new m k n cid sub =
     (case sub of
        Cmp c \<Rightarrow>
          (case as_name c of
             None \<Rightarrow> Some (expr_match_new (Some m) k n cid)
           | Some a \<Rightarrow>
              (if sym_width (cmp_symbol c) \<noteq> 0 then
                 Some (expr_match_new (Some m) k n cid\<lparr>em_as_name := Some a, as_ip := take_bit 128 (cmp_value c),
                         as_mask := take_bit 128 (cmp_mask c)\<rparr>)
               else None))
      | _ \<Rightarrow> Some (expr_match_new (Some m) k n cid))"

lemma disjunct_new_sel:
  assumes "disjunct_new m k n cid sub = Some x"
  shows "em_match x = m" "length (conjunctions x) \<le> 1"
  using assms by (auto simp: disjunct_new_def split: expr.splits option.splits if_splits)

abbreviation syms_in :: "expr_symbol set \<Rightarrow> expr list \<Rightarrow> bool" where
  "syms_in S es \<equiv> \<forall>e \<in> set es. cmp_symbol ` cmps_of e \<subseteq> S"

locale match_property =
  fixes P :: "match \<Rightarrow> bool" and S :: "expr_symbol set" and lp :: ports
  assumes catchall: "P match_init_catchall"
    and constrain: "cmp_symbol c \<in> S \<Longrightarrow> P m \<Longrightarrow> constrain_match (Cmp c) lp m = Some (ok, m') \<Longrightarrow> P m'"
    and set_conj_id: "P m \<Longrightarrow> P (match_set_conj_id m k)"
begin

lemma constrain_sub:
  assumes "constrain_match e lp m = Some (ok, m')" "cmp_symbol ` cmps_of e \<subseteq> S" "P m"
  shows "P m'"
proof -
  obtain c where "e = Cmp c" using assms(1) by (auto simp: constrain_match_def split: expr.splits)
  with assms constrain [of c m ok m'] show ?thesis by simp
qed

lemma disjunction_loop_all:
  "disjunction_loop lp m k n cid es i ms = Some (j, ms') \<Longrightarrow> syms_in S es \<Longrightarrow> P m \<Longrightarrow> em_all P ms \<Longrightarrow> em_all P ms'"
proof (induction es arbitrary: i ms)
  case (Cons sub es)
  obtain x ok m' where new: "disjunct_new m k n cid sub = Some x" and
    rest: "constrain_match sub lp (em_match x) = Some (ok, m')"
    "(if ok then Option.bind (expr_match_add (x\<lparr>em_match := m'\<rparr>) ms) (disjunction_loop lp m k n cid es (i + 1))
      else disjunction_loop lp m k n cid es i ms) = Some (j, ms')"
    using Cons.prems(1)
    unfolding disjunction_loop.simps Let_def Option.bind_eq_Some_conv disjunct_new_def [symmetric] by auto
  note x = disjunct_new_sel [OF new] rest [unfolded disjunct_new_sel(1) [OF new]]
  have "P m'" using constrain_sub [OF x(3)] Cons.prems(2,3) by simp
  show ?case
  proof (cases ok)
    case True
    then obtain ms1 where ms1: "expr_match_add (x\<lparr>em_match := m'\<rparr>) ms = Some ms1"
      "disjunction_loop lp m k n cid es (i + 1) ms1 = Some (j, ms')" using x(4) by (auto split: Option.bind_splits)
    have "em_all P ms1" by (rule expr_match_add_all [OF ms1(1)]) (use x(2) \<open>P m'\<close> Cons.prems(4) in simp_all)
    with Cons.IH [OF ms1(2)] Cons.prems(2,3) show ?thesis by simp
  next
    case False
    then show ?thesis using Cons.IH [of i ms] x(4) Cons.prems by simp
  qed
qed simp

lemma add_disjunction_all:
  "add_disjunction e lp m k n cid ms = Some (ok, ms') \<Longrightarrow> cmp_symbol ` cmps_of e \<subseteq> S \<Longrightarrow> P m \<Longrightarrow> em_all P ms \<Longrightarrow> em_all P ms'"
  by (auto simp: add_disjunction_def split: expr.splits Option.bind_splits intro: disjunction_loop_all)

lemma conjunction_base_all:
  "conjunction_base lp es m n = Some (Some (m', n')) \<Longrightarrow> syms_in S es \<Longrightarrow> P m \<Longrightarrow> P m'"
proof (induction es arbitrary: m n)
  case (Cons sub es)
  then show ?case
    by (auto split: expr.splits Option.bind_splits if_splits) (use constrain in blast)
qed simp

lemma conjunction_clauses_all:
  "conjunction_clauses lp m n cid es k ms = Some (ok, ms') \<Longrightarrow> syms_in S es \<Longrightarrow> P m \<Longrightarrow> em_all P ms \<Longrightarrow> em_all P ms'"
proof (induction es arbitrary: k ms)
  case (Cons sub es)
  then show ?case
    by (auto split: Option.bind_splits if_splits dest: add_disjunction_all)
qed simp

lemma conjunction_single_all:
  "conjunction_single lp m es ms = Some ms' \<Longrightarrow> syms_in S es \<Longrightarrow> P m \<Longrightarrow> em_all P ms \<Longrightarrow> em_all P ms'"
proof (induction es arbitrary: ms)
  case (Cons sub es)
  then show ?case
    by (auto split: Option.bind_splits if_splits dest: add_disjunction_all)
qed simp

end

context match_property
begin

lemma add_conjunction_all:
  assumes add: "add_conjunction (And es) lp i ms = Some (j, ms')" and es: "syms_in S es" and ms: "em_all P ms"
  shows "em_all P ms'"
proof -
  obtain r where r: "conjunction_base lp es match_init_catchall 0 = Some r"
    using add by (auto simp: add_conjunction_def split: Option.bind_splits)
  show ?thesis
  proof (cases r)
    case None
    then show ?thesis using add r ms by (simp add: add_conjunction_def)
  next
    case (Some mn)
    obtain m n where mn: "mn = (m, n)" by (cases mn)
    have m: "P m" using conjunction_base_all [of es match_init_catchall 0 m n] r Some mn es catchall by simp
    from m set_conj_id have new: "P (em_match (expr_match_new (Some m) 0 0 0))"
      "P (em_match (expr_match_new (Some (match_set_conj_id m (i + 1))) 0 0 0))" by simp_all
    show ?thesis
      using add unfolding add_conjunction_def expr.case r Some mn
      using expr_match_add_all [where P = P, OF _ new(1)] expr_match_add_all [where P = P, OF _ new(2)] conjunction_single_all [OF _ es m ms]
        conjunction_clauses_all [OF _ es m ms] ms
      by (auto split: if_splits Option.bind_splits)
  qed
qed

lemma add_cmp_flow_all:
  assumes "add_cmp_flow e lp ms = Some ms'" "cmp_symbol ` cmps_of e \<subseteq> S" "em_all P ms"
  shows "em_all P ms'"
proof -
  obtain ok m' where m': "constrain_match e lp match_init_catchall = Some (ok, m')"
    "(if ok then expr_match_add (expr_match_new None 0 0 0\<lparr>em_match := m'\<rparr>) ms else Some ms) = Some ms'"
    using assms(1) by (auto simp: add_cmp_flow_def Let_def split: Option.bind_splits)
  have "P m'" by (rule constrain_sub [OF m'(1) assms(2) catchall])
  then show ?thesis using m'(2) assms(3) expr_match_add_all [of "expr_match_new None 0 0 0\<lparr>em_match := m'\<rparr>" ms ms' P]
    by (auto split: if_splits)
qed

lemma to_matches_or_all:
  "to_matches_or u lp es i ms = Some (j, ms') \<Longrightarrow> syms_in S es \<Longrightarrow> em_all P ms \<Longrightarrow> em_all P ms'"
proof (induction es arbitrary: i ms)
  case (Cons sub es)
  show ?case
  proof (cases "\<not> u \<and> expr_type_of sub = T_AND")
    case True
    then obtain ks where ks: "sub = And ks" by (cases sub) auto
    with Cons.prems(1) True obtain i1 ms1 where 1: "add_conjunction (And ks) lp i ms = Some (i1, ms1)"
      "to_matches_or u lp es i1 ms1 = Some (j, ms')" by (auto split: Option.bind_splits)
    have "syms_in S ks" using Cons.prems(2) ks by auto
    from add_conjunction_all [OF 1(1) this Cons.prems(3)] Cons.IH [OF 1(2)] Cons.prems(2) show ?thesis by simp
  next
    case False
    with Cons.prems(1) obtain ms1 where 1: "add_cmp_flow sub lp ms = Some ms1"
      "to_matches_or u lp es i ms1 = Some (j, ms')" by (auto split: Option.bind_splits)
    from add_cmp_flow_all [OF 1(1) _ Cons.prems(3)] Cons.IH [OF 1(2)] Cons.prems(2) show ?thesis by simp
  qed
qed simp

lemma expr_to_matches_all:
  assumes "expr_to_matches e lp = Some (n, ms)" "cmp_symbol ` cmps_of e \<subseteq> S"
  shows "em_all P ms"
proof (cases e)
  case (Cmp c)
  with assms add_cmp_flow_all [of e "[]" ms] show ?thesis by (auto simp: expr_to_matches_def)
next
  case (And es)
  then have "syms_in S es" using assms(2) by auto
  with And assms(1) add_conjunction_all [of es 0 "[]" n ms] show ?thesis by (simp add: expr_to_matches_def)
next
  case (Or es)
  then have "syms_in S es" using assms(2) by auto
  with Or assms(1) to_matches_or_all [of _ es 0 "[]" n ms] show ?thesis by (auto simp: expr_to_matches_def)
next
  case (Boolean b)
  with assms(1) catchall show ?thesis by (auto simp: expr_to_matches_def expr_match_new_def split: if_splits)
qed (use assms(1) in \<open>simp add: expr_to_matches_def\<close>)

end

text \<open>
  The matches leave the datapath open, and match the port registers as a whole, if only
  string symbols stand for these.
\<close>

definition port_match :: "match \<Rightarrow> bool" where
  "port_match m \<longleftrightarrow> mf_get mff_metadata m = (0, 0) \<and>
     (\<forall>mf \<in> {mff_log_inport, mff_log_outport}. mf_get mf m = (0, 0) \<or> snd (mf_get mf m) = mask 32)"

definition port_sym :: "expr_symbol \<Rightarrow> bool" where
  "port_sym s \<longleftrightarrow> sym_field s \<noteq> Some mff_metadata \<and>
     (sym_field s \<in> {Some mff_log_inport, Some mff_log_outport} \<longrightarrow> sym_width s = 0)"

lemma mf_get_mf_set: "mf' \<noteq> mf \<Longrightarrow> mf_get mf' (mf_set mf v k m) = mf_get mf' m"
  by (simp add: mf_set_def mf_get_put)

lemma constrain_port_match:
  assumes "port_sym (cmp_symbol c)" "port_match m" "constrain_match (Cmp c) lp m = Some (ok, m')"
  shows "port_match m'"
proof -
  obtain mf where mf: "sym_field (cmp_symbol c) = Some mf" using assms(3) by (auto simp: constrain_match_def split: option.splits)
  have frame: "mf_get mf' m' = mf_get mf' m" if "mf' \<noteq> mf" for mf'
    using assms(3) mf mf_get_mf_set [OF that]
    by (auto simp: constrain_match_def mf_mask_subfield_def mf_write_subfield_def Let_def split: if_splits option.splits prod.splits)
  have reg: "mf_get mf m' = mf_get mf m \<or> snd (mf_get mf m') = mask 32" if "mf \<in> {mff_log_inport, mff_log_outport}"
  proof -
    have w: "sym_width (cmp_symbol c) = 0" using assms(1) mf that by (auto simp: port_sym_def)
    have b: "take_bit 32 (word_one k 0 32) = mask 32" for k :: mf_subvalue
      by (rule bit_word_eqI) (auto simp: bit_simps bits_simps)
    show ?thesis using assms(3) mf w that b
      by (auto simp: constrain_match_def mf_write_subfield_def mf_set_def Let_def mf_get_put split: option.splits prod.splits)
  qed
  have "mff_metadata \<noteq> mf" using assms(1) mf by (auto simp: port_sym_def)
  then have "mf_get mff_metadata m' = (0, 0)" using frame [of mff_metadata] assms(2) by (simp add: port_match_def)
  moreover have "mf_get p m' = (0, 0) \<or> snd (mf_get p m') = mask 32" if p: "p \<in> {mff_log_inport, mff_log_outport}" for p
  proof -
    have "mf_get p m = (0, 0) \<or> snd (mf_get p m) = mask 32" using assms(2) p unfolding port_match_def by blast
    with frame [of p] reg p show ?thesis by (cases "p = mf") metis+
  qed
  ultimately show ?thesis unfolding port_match_def by blast
qed

lemma port_match_simps: "port_match match_init_catchall" "port_match (match_set_conj_id m k) = port_match m"
  by (simp_all add: port_match_def match_set_conj_id_def mf_get_def match_init_catchall_def)

interpretation port_matches: match_property port_match "{s. port_sym s}" lp for lp
  by unfold_locales (simp_all add: port_match_simps constrain_port_match)

section \<open>From matches to flows\<close>

definition port_field :: "logical_flow \<Rightarrow> mf_field" where
  "port_field lflow = (if is_ingress lflow then mff_log_inport else mff_log_outport)"

definition keeps :: "lflow_ctx_in \<Rightarrow> logical_flow \<Rightarrow> datapath_binding \<Rightarrow> bool \<Rightarrow> expr_match \<Rightarrow> bool" where
  "keeps ctx lflow dp is_switch m \<longleftrightarrow>
     \<not> (is_switch \<and> match_port lflow (em_match m) \<noteq> 0 \<and> \<not> related_lport ctx (db_tunnel_key dp) (match_port lflow (em_match m)))"

definition with_datapath :: "datapath_binding \<Rightarrow> expr_match \<Rightarrow> expr_match" where
  "with_datapath dp m = m\<lparr>em_match := match_set_metadata (em_match m) (word_of_int (db_tunnel_key dp))\<rparr>"

definition flow_for :: "logical_flow \<Rightarrow> datapath_binding \<Rightarrow> expr_match \<Rightarrow> of_flow" where
  "flow_for lflow dp m =
     \<lparr>of_ptable = ptable_of lflow, of_priority = word_of_int (lf_priority lflow), of_match = with_datapath dp m,
      of_uuid = lf_uuid lflow, of_dp = db_uuid dp\<rparr>"

definition flows_for :: "lflow_ctx_in \<Rightarrow> logical_flow \<Rightarrow> datapath_binding \<Rightarrow> bool \<Rightarrow> expr_match list \<Rightarrow> of_flow list" where
  "flows_for ctx lflow dp is_switch ms = map (flow_for lflow dp) (filter (keeps ctx lflow dp is_switch) ms)"

lemma match_port_metadata [simp]: "match_port lflow (match_set_metadata m k) = match_port lflow m"
  by (simp add: match_port_def match_set_metadata_def mf_get_put)

lemma add_matches_eq:
  "em_all P ms \<Longrightarrow> add_matches_to_flow_table ctx lflow dp is_switch ms table = Some (table @ flows_for ctx lflow dp is_switch ms)"
proof (induction ms arbitrary: table)
  case (Cons m ms)
  then show ?case
    by (auto simp: Let_def flows_for_def keeps_def flow_for_def with_datapath_def)
qed (simp add: flows_for_def)

definition on_datapath :: "datapath_binding \<Rightarrow> flow \<Rightarrow> bool" where
  "on_datapath dp f \<longleftrightarrow> f mff_metadata = ucast (word_of_int (db_tunnel_key dp) :: u64)"

text \<open>The packets that can be in the pipeline on this chassis: on a switch, their port is related.\<close>

definition packet_here :: "lflow_ctx_in \<Rightarrow> logical_flow \<Rightarrow> datapath_binding \<Rightarrow> bool \<Rightarrow> flow \<Rightarrow> bool" where
  "packet_here ctx lflow dp is_switch f \<longleftrightarrow> packet_ok f \<and>
     (is_switch \<and> on_datapath dp f \<longrightarrow> (let port = uint (ucast (f (port_field lflow)) :: u32) in
        port = 0 \<or> related_lport ctx (db_tunnel_key dp) port))"

lemma with_datapath_hits:
  assumes "packet_ok f" "port_match (em_match m)"
  shows "match_hits f cid (em_match (with_datapath dp m)) \<longleftrightarrow> on_datapath dp f \<and> match_hits f cid (em_match m)"
proof -
  have "take_bit 64 (f mff_metadata) = f mff_metadata"
    using assms(1) unfolding packet_ok_def by (drule_tac x = mff_metadata in spec) simp
  then have "f mff_metadata AND mask 64 = f mff_metadata" by (simp add: take_bit_eq_mask [symmetric])
  then have "vm_holds (f mff_metadata) (ucast k, mask 64) \<longleftrightarrow> f mff_metadata = ucast k" for k :: u64
    by (simp add: vm_holds_def)
  moreover have "mf_get mff_metadata (em_match m) = (0, 0)" using assms(2) by (simp add: port_match_def)
  ultimately show ?thesis
    using match_hits_put [of mff_metadata "em_match m" f cid]
    by (auto simp: with_datapath_def match_set_metadata_def on_datapath_def)
qed

lemma match_port_field: "match_port lflow m = uint (ucast (fst (mf_get (port_field lflow) m)) :: u32)"
  by (simp add: match_port_def port_field_def)

lemma dropped_misses:
  assumes here: "packet_here ctx lflow dp is_switch f" "on_datapath dp f" and m: "port_match (em_match m)"
    and drop: "\<not> keeps ctx lflow dp is_switch m"
  shows "\<not> match_hits f cid (em_match m)"
proof
  let ?p = "port_field lflow"
  assume "match_hits f cid (em_match m)"
  then have "vm_holds (f ?p) (mf_get ?p (em_match m))" by (simp add: match_hits_iff)
  moreover have "mf_get ?p (em_match m) = (0, 0) \<or> snd (mf_get ?p (em_match m)) = mask 32"
    using m by (auto simp: port_match_def port_field_def)
  moreover have "fst (mf_get ?p (em_match m)) \<noteq> 0"
    using drop by (auto simp: keeps_def match_port_field)
  ultimately have "fst (mf_get ?p (em_match m)) = f ?p AND mask 32" by (auto simp: vm_holds_def)
  then have "(ucast (fst (mf_get ?p (em_match m))) :: u32) = ucast (f ?p)"
    by (simp add: bit_eq_iff bit_simps)
  with here drop show False by (auto simp: packet_here_def keeps_def match_port_field Let_def)
qed

lemma table_hits_image:
  assumes "\<And>m. m \<in> set ms \<Longrightarrow> keep m \<Longrightarrow> conjunctions (g m) = conjunctions m"
    and "\<And>m cid. m \<in> set ms \<Longrightarrow> keep m \<Longrightarrow> match_hits f cid (em_match (g m)) \<longleftrightarrow> b \<and> match_hits f cid (em_match m)"
    and "\<And>m cid. b \<Longrightarrow> m \<in> set ms \<Longrightarrow> \<not> keep m \<Longrightarrow> \<not> match_hits f cid (em_match m)"
  shows "table_hits f (map g (filter keep ms)) \<longleftrightarrow> b \<and> table_hits f ms"
proof -
  have *: "(\<exists>m \<in> set (map g (filter keep ms)). Q (conjunctions m) \<and> match_hits f cid (em_match m)) \<longleftrightarrow>
      b \<and> (\<exists>m \<in> set ms. Q (conjunctions m) \<and> match_hits f cid (em_match m))" for Q cid
  proof -
    have "(\<exists>m \<in> set (map g (filter keep ms)). Q (conjunctions m) \<and> match_hits f cid (em_match m)) \<longleftrightarrow>
        (\<exists>m \<in> set ms. keep m \<and> Q (conjunctions (g m)) \<and> match_hits f cid (em_match (g m)))" by auto
    also have "\<dots> \<longleftrightarrow> b \<and> (\<exists>m \<in> set ms. Q (conjunctions m) \<and> match_hits f cid (em_match m))"
      using assms by metis
    finally show ?thesis .
  qed
  have a: "accepts f cid (map g (filter keep ms)) \<longleftrightarrow> b \<and> accepts f cid ms" for cid
    unfolding accepts_def by (rule *)
  have "clause_hit f c (map g (filter keep ms)) \<longleftrightarrow> b \<and> clause_hit f c ms" for c
    unfolding clause_hit_def by (rule *)
  then have "conj_hit f cid (map g (filter keep ms)) \<longleftrightarrow> b \<and> conj_hit f cid ms" for cid
    unfolding conj_hit_def by (metis word_neq_0_conv)
  with a show ?thesis unfolding table_hits_def by blast
qed

lemma flows_for_hits:
  assumes "packet_here ctx lflow dp is_switch f" "em_all port_match ms"
  shows "table_hits f (map of_match (flows_for ctx lflow dp is_switch ms)) \<longleftrightarrow> on_datapath dp f \<and> table_hits f ms"
proof -
  have "map of_match (flows_for ctx lflow dp is_switch ms) = map (with_datapath dp) (filter (keeps ctx lflow dp is_switch) ms)"
    by (simp add: flows_for_def flow_for_def)
  moreover have "port_match (em_match m)" if "m \<in> set ms" for m using assms(2) that by (simp add: em_all_def)
  ultimately show ?thesis
    using table_hits_image [of ms "keeps ctx lflow dp is_switch" "with_datapath dp" f "on_datapath dp f"]
      with_datapath_hits [of f] dropped_misses [OF assms(1)] assms(1)
    by (simp add: with_datapath_def packet_here_def)
qed

section \<open>Conjunction ids\<close>

lemma conj_range_start:
  assumes "0 \<notin> conj_range s (unat n)" "n \<noteq> 0"
  shows "unat n + unat (s - 1) < 2 ^ 32" and "{s - 1 + 1..s - 1 + n} \<subseteq> conj_range s (unat n)"
proof -
  have n: "0 < unat n" using assms(2) by (simp add: unat_gt_0)
  have "s \<in> conj_range s (unat n)" using n conj_range_Suc [of s "unat n - 1"] by simp
  then have s: "s \<noteq> 0" using assms(1) by metis
  have s1: "unat (s - 1) = unat s - 1" using s by (simp add: unat_minus_one)
  have le: "unat s + unat n \<le> 2 ^ 32"
  proof (rule ccontr)
    assume "\<not> ?thesis"
    moreover have "unat s < 2 ^ 32" using unsigned_less [of s, where ?'a = nat] by simp
    ultimately have "2 ^ 32 - unat s < unat n" "unat s + (2 ^ 32 - unat s) = 2 ^ 32" by auto
    moreover have "s + of_nat (2 ^ 32 - unat s) = of_nat (unat s + (2 ^ 32 - unat s))"
      by (simp only: of_nat_add of_nat_unat ucast_id)
    ultimately have "s + of_nat (2 ^ 32 - unat s) = (of_nat (2 ^ 32) :: u32)" by (simp only:)
    then have "s + of_nat (2 ^ 32 - unat s) = 0" by simp
    with \<open>2 ^ 32 - unat s < unat n\<close> assms(1) show False unfolding conj_range_def by (metis imageI lessThan_iff)
  qed
  moreover have "0 < unat s" using s by (simp add: unat_gt_0)
  ultimately show lt: "unat n + unat (s - 1) < 2 ^ 32" using s1 by linarith
  show "{s - 1 + 1..s - 1 + n} \<subseteq> conj_range s (unat n)"
  proof
    fix x assume "x \<in> {s - 1 + 1..s - 1 + n}"
    then have x: "unat s \<le> unat x" "unat x \<le> unat (s - 1 + n)" by (simp_all add: word_le_nat_alt)
    have "unat (s - 1 + n) = unat (s - 1) + unat n" by (rule unat_add_u32) (use lt in simp)
    then have "unat x - unat s < unat n" using x s1 \<open>0 < unat s\<close> n by linarith
    moreover have "x = s + of_nat (unat x - unat s)"
    proof -
      have "of_nat (unat s + (unat x - unat s)) = x" using x(1) by simp
      then show ?thesis by (simp only: of_nat_add of_nat_unat ucast_id)
    qed
    ultimately show "x \<in> conj_range s (unat n)" unfolding conj_range_def by blast
  qed
qed

lemma ids_in_mono: "ids_in I ms \<Longrightarrow> I \<subseteq> J \<Longrightarrow> ids_in J ms"
  unfolding ids_in_def by blast

lemma ids_in_flows: "ids_in I ms \<Longrightarrow> ids_in I (map of_match (flows_for ctx lflow dp is_switch ms))"
  by (auto simp: ids_in_def flows_for_def flow_for_def with_datapath_def match_set_metadata_def)

lemma em_all_prepare: "em_all port_match ms \<Longrightarrow> em_all port_match (expr_matches_prepare ms ofs)"
  by (auto simp: em_all_def expr_matches_prepare_def prepare_match_def port_match_def mf_get_def)

text \<open>The ids that a flow owns on a datapath.\<close>

definition owned :: "bool \<Rightarrow> conj_ids \<Rightarrow> uuid \<times> uuid \<Rightarrow> u32 set" where
  "owned tm c k = (case conj_view tm c k of None \<Rightarrow> {} | Some (s, n) \<Rightarrow> conj_range s (unat n))"

section \<open>The invariant of the context\<close>

text \<open>
  \<open>W\<close> gives the expressions of the logical flows whose match refers to no address set, port group
  or template variable; only these may be cached. \<open>closed\<close> expressions do not depend on the ports
  and the residence of ports on this chassis.
\<close>

definition ports_ok :: "ports \<Rightarrow> bool" where
  "ports_ok lp \<longleftrightarrow> inj_ports lp \<and> lp ''none'' = Some 0"

definition closed_expr :: "expr \<Rightarrow> bool" where
  "closed_expr e \<longleftrightarrow> (\<forall>f lp lp' r r'. ports_ok lp \<and> ports_ok lp' \<longrightarrow> ev (cmp_sat f lp) r e = ev (cmp_sat f lp') r' e)"

definition matches_mean :: "expr_match list \<Rightarrow> expr \<Rightarrow> bool" where
  "matches_mean ms e \<longleftrightarrow> (\<forall>f lp r. packet_ok f \<and> ports_ok lp \<longrightarrow> table_hits f ms = ev (cmp_sat f lp) r e)"

text \<open>The passes give matches for the expression that need \<open>n\<close> conjunction ids.\<close>

definition ids_needed :: "(string \<Rightarrow> bool) \<Rightarrow> ports \<Rightarrow> expr \<Rightarrow> u32 \<Rightarrow> bool" where
  "ids_needed resident lp e n \<longleftrightarrow>
     (\<exists>x e' ms. expr_simplify e = Some x \<and> expr_normalize (expr_evaluate_condition resident x) = Some e' \<and>
        expr_to_matches e' lp = Some (n, ms))"

fun value_ok :: "expr \<Rightarrow> lflow_cache_value \<Rightarrow> bool" where
  "value_ok e (LCV_EXPR x) \<longleftrightarrow> expr_simplify e = Some x"
| "value_ok e (LCV_MATCHES n ofs ms) \<longleftrightarrow>
     em_all port_match ms \<and> ids_in (conj_range ofs (unat n)) ms \<and> matches_mean ms e \<and>
     (\<exists>resident lp. ids_needed resident lp e n)"

definition cache_means :: "(uuid \<Rightarrow> expr option) \<Rightarrow> lflow_cache \<Rightarrow> bool" where
  "cache_means W lc \<longleftrightarrow> (\<exists>C. cache_inv lc C \<and> cache_limits lc C \<and>
     (\<forall>x \<in> C. \<exists>e. W (lce_uuid x) = Some e \<and> value_ok e (lce_value x)))"

text \<open>
  \<open>U\<close> is a set with the identifiers of all logical flows, of less than \<open>2 ^ 64 - 1\<close> elements.
\<close>

definition out_ok :: "uuid set \<Rightarrow> bool \<Rightarrow> (uuid \<Rightarrow> expr option) \<Rightarrow> lflow_ctx_out \<Rightarrow> bool" where
  "out_ok U tm W out \<longleftrightarrow> conj_ids_ok tm (conj_ids_of out) \<and> ltd_dom (conj_ids_of out) \<subseteq> U \<and> cache_means W (cache_of out)"

definition in_ok :: "expr_symbol set \<Rightarrow> expr_symbol set \<Rightarrow> bool \<Rightarrow> (uuid \<Rightarrow> expr option) \<Rightarrow> lflow_ctx_in \<Rightarrow> bool" where
  "in_ok X S tm W ctx \<longleftrightarrow>
     symbols_ok X S \<and> (\<forall>s \<in> S. port_sym s) \<and> test_mode ctx = tm \<and>
     (\<forall>d. ports_ok (lookup_port_cb ctx d)) \<and>
     (\<forall>u dp e refs. parse_match ctx u dp = Some (e, refs) \<longrightarrow> translatable X S e) \<and>
     (\<forall>u dp e. W u = Some e \<longrightarrow> parse_match ctx u dp = Some (e, False, False)) \<and>
     (\<forall>u dp e. parse_match ctx u dp = Some (e, False, False) \<longrightarrow> W u = Some e) \<and>
     (\<forall>u e. W u = Some e \<and> \<not> contains_obj ctx u \<longrightarrow> closed_expr e)"

lemma in_okD:
  assumes "in_ok X S tm W ctx"
  shows "symbols_ok X S" and "S \<subseteq> {s. port_sym s}" and "test_mode ctx = tm" and "ports_ok (lookup_port_cb ctx d)"
    and "parse_match ctx u dp = Some (e, refs) \<Longrightarrow> translatable X S e"
    and "W u = Some e \<Longrightarrow> parse_match ctx u dp = Some (e, False, False)"
    and "parse_match ctx u dp = Some (e, False, False) \<Longrightarrow> W u = Some e"
    and "W u = Some e \<Longrightarrow> \<not> contains_obj ctx u \<Longrightarrow> closed_expr e"
  using assms unfolding in_ok_def by blast+

text \<open>The sizes of what the flow adds to the cache stay within the address space.\<close>

definition size_ok :: "lflow_ctx_in \<Rightarrow> lflow_cache \<Rightarrow> u64 \<Rightarrow> bool" where
  "size_ok ctx lc sz \<longleftrightarrow> unat (sizeof_entry ctx) + unat sz + unat (mem_usage lc) < 2 ^ 64"

definition sizes_ok :: "lflow_ctx_in \<Rightarrow> lflow_ctx_out \<Rightarrow> logical_flow \<Rightarrow> datapath_binding \<Rightarrow> bool" where
  "sizes_ok ctx out lflow dp \<longleftrightarrow>
     (\<forall>e x. parse_match ctx (lf_uuid lflow) dp = Some (e, False, False) \<and> expr_simplify e = Some x \<longrightarrow>
        size_ok ctx (cache_of out) 0 \<and> size_ok ctx (cache_of out) (expr_size (sizeof_expr ctx) x) \<and>
        (\<forall>e' n ms ofs. expr_normalize (expr_evaluate_condition (is_chassis_resident_cb ctx) x) = Some e' \<and>
           expr_to_matches e' (lookup_port_cb ctx (db_uuid dp)) = Some (n, ms) \<longrightarrow>
           size_ok ctx (cache_of out) (matches_size ctx (expr_matches_prepare ms ofs))))"

subsection \<open>The cache\<close>

lemma cache_means_lookup:
  assumes "cache_means W lc" "cached lc u = Some v"
  shows "\<exists>e. W u = Some e \<and> value_ok e v"
proof -
  obtain C where C: "cache_inv lc C" "\<forall>x \<in> C. \<exists>e. W (lce_uuid x) = Some e \<and> value_ok e (lce_value x)"
    using assms(1) by (auto simp: cache_means_def)
  have "enabled lc" using assms(2) by (auto simp: cached_def lflow_cache_get_def lflow_cache_is_enabled_def split: if_splits)
  from assms(2) obtain x where "x \<in> C" "lce_uuid x = u" "lce_value x = v"
    unfolding cached_iff [OF C(1) \<open>enabled lc\<close>] by blast
  then show ?thesis using C(2) by blast
qed

lemma cached_None: "cached lc u = None \<longleftrightarrow> lflow_cache_get lc u = None"
  by (simp add: cached_def)

text \<open>After the entry of a flow is deleted, the expression of the flow may change.\<close>

lemma cache_means_delete:
  assumes "cache_means W lc" and W': "\<And>w. w \<noteq> u \<Longrightarrow> W' w = W w"
  shows "\<exists>lc'. lflow_cache_delete now lc u = Some lc' \<and> cache_means W' lc' \<and> cached lc' u = None \<and>
    mem_usage lc' \<le> mem_usage lc \<and> same_conf lc lc'"
proof -
  obtain C where C: "cache_inv lc C" "cache_limits lc C"
    "\<forall>x \<in> C. \<exists>e. W (lce_uuid x) = Some e \<and> value_ok e (lce_value x)"
    using assms(1) by (auto simp: cache_means_def)
  let ?C = "{x \<in> C. lce_uuid x \<noteq> u}"
  obtain lc' where lc': "lflow_cache_delete now lc u = Some lc'" "cache_inv lc' ?C" "cache_limits lc' ?C"
    "mem_usage lc' \<le> mem_usage lc" "same_conf lc lc'" using lflow_cache_delete_ok [OF C(1,2)] by blast
  have "cache_means W' lc'" unfolding cache_means_def using lc'(2,3) C(3) W' by (intro exI [of _ ?C]) auto
  moreover have "cached lc' u = None"
  proof (cases "enabled lc'")
    case True
    have "u \<notin> lce_uuid ` ?C" by auto
    then show ?thesis using lflow_cache_get_None [OF lc'(2) True] by (simp add: cached_None)
  qed (simp add: cached_def lflow_cache_get_def lflow_cache_is_enabled_def)
  ultimately show ?thesis using lc'(1,4,5) by blast
qed

lemma cache_means_add:
  assumes "cache_means W lc" "W u = Some e" "value_ok e v" "cached lc u = None"
    and "unat sizeof_lce + unat sz + unat (mem_usage lc) < 2 ^ 64"
  shows "\<exists>b lc'. lflow_cache_add' sizeof_lce now lc u v sz = Some (b, lc') \<and> cache_means W lc' \<and> same_conf lc lc'"
proof -
  obtain C where C: "cache_inv lc C" "cache_limits lc C"
    "\<forall>x \<in> C. \<exists>e. W (lce_uuid x) = Some e \<and> value_ok e (lce_value x)"
    using assms(1) by (auto simp: cache_means_def)
  have may: "may_add sizeof_lce lc u sz" using assms(4,5) by (simp add: may_add_def cached_None)
  let ?x = "\<lparr>lce_uuid = u, lce_size = sizeof_lce + sz, lce_value = v\<rparr>"
  obtain b lc' C' where add: "lflow_cache_add' sizeof_lce now lc u v sz = Some (b, lc')" "cache_inv lc' C'"
    "cache_limits lc' C'" "same_conf lc lc'" "if b then cache_added C ?x C' else lc' = lc \<and> C' = C"
    using lflow_cache_add'_ok [OF C(1,2) may_add_new [OF C(1) may], of now v] by blast
  have "C' \<subseteq> insert ?x C" using add(5) by (auto simp: cache_added_def split: if_splits)
  then have "\<forall>x \<in> C'. \<exists>e. W (lce_uuid x) = Some e \<and> value_ok e (lce_value x)"
    using C(3) assms(2,3) by fastforce
  then show ?thesis using add(1-4) unfolding cache_means_def by blast
qed

lemma update_cache_ok:
  assumes cm: "cache_means W (cache_of out)"
    and ce: "\<And>x. ce = Some x \<Longrightarrow> \<exists>e. W (lf_uuid lflow) = Some e \<and> value_ok e (LCV_EXPR x) \<and>
      (\<not> contains_obj ctx (lf_uuid lflow) \<longrightarrow> value_ok e (LCV_MATCHES n start ms)) \<and>
      cached (cache_of out) (lf_uuid lflow) = None \<and> size_ok ctx (cache_of out) sz \<and>
      size_ok ctx (cache_of out) (expr_size (sizeof_expr ctx) x)"
  shows "\<exists>lc. update_cache ctx out lflow ce start n ms sz = Some (out\<lparr>cache_of := lc\<rparr>) \<and> cache_means W lc \<and>
    same_conf (cache_of out) lc"
proof (cases ce)
  case None
  then show ?thesis using cm by (intro exI [of _ "cache_of out"]) (simp add: update_cache_def same_conf_def)
next
  case (Some x)
  from ce [OF this] obtain e where e: "W (lf_uuid lflow) = Some e" "value_ok e (LCV_EXPR x)"
    "\<not> contains_obj ctx (lf_uuid lflow) \<longrightarrow> value_ok e (LCV_MATCHES n start ms)"
    "cached (cache_of out) (lf_uuid lflow) = None" "size_ok ctx (cache_of out) sz"
    "size_ok ctx (cache_of out) (expr_size (sizeof_expr ctx) x)" by blast
  show ?thesis
  proof (cases "contains_obj ctx (lf_uuid lflow)")
    case True
    from cache_means_add [OF cm e(1,2,4), of "sizeof_entry ctx" _ "time_msec ctx"] e(6) obtain b lc where
      "lflow_cache_add' (sizeof_entry ctx) (time_msec ctx) (cache_of out) (lf_uuid lflow) (LCV_EXPR x)
         (expr_size (sizeof_expr ctx) x) = Some (b, lc)" "cache_means W lc" "same_conf (cache_of out) lc"
      unfolding size_ok_def by blast
    with Some True cm show ?thesis
      by (intro exI [of _ "if enabled (cache_of out) then lc else cache_of out"])
        (simp add: update_cache_def lflow_cache_add_expr_def lflow_cache_is_enabled_def same_conf_def)
  next
    case False
    with e(3) have "value_ok e (LCV_MATCHES n start ms)" by simp
    from cache_means_add [OF cm e(1) this e(4), of "sizeof_entry ctx" sz "time_msec ctx"] e(5) obtain b lc where
      "lflow_cache_add' (sizeof_entry ctx) (time_msec ctx) (cache_of out) (lf_uuid lflow) (LCV_MATCHES n start ms) sz
         = Some (b, lc)" "cache_means W lc" "same_conf (cache_of out) lc" unfolding size_ok_def by blast
    with Some False cm show ?thesis
      by (intro exI [of _ "if enabled (cache_of out) then lc else cache_of out"])
        (simp add: update_cache_def lflow_cache_add_matches_def lflow_cache_is_enabled_def same_conf_def)
  qed
qed

subsection \<open>From the expression to the flow table\<close>

text \<open>The flows \<open>fs\<close> accept the packets of the datapath for which the expression holds.\<close>

definition flows_mean :: "lflow_ctx_in \<Rightarrow> logical_flow \<Rightarrow> datapath_binding \<Rightarrow> bool \<Rightarrow> expr \<Rightarrow> of_flow list \<Rightarrow> bool" where
  "flows_mean ctx lflow dp is_switch e fs \<longleftrightarrow>
     (\<forall>f. packet_here ctx lflow dp is_switch f \<longrightarrow>
        table_hits f (map of_match fs) =
          (on_datapath dp f \<and> ev (cmp_sat f (lookup_port_cb ctx (db_uuid dp))) (is_chassis_resident_cb ctx) e))"

text \<open>
  The expression needs conjunction ids on the datapath, and the allocator has no range of that many
  ids left.
\<close>

definition ids_ran_out :: "lflow_ctx_in \<Rightarrow> datapath_binding \<Rightarrow> expr \<Rightarrow> conj_ids \<Rightarrow> bool" where
  "ids_ran_out ctx dp e c \<longleftrightarrow>
     (\<exists>n. ids_needed (is_chassis_resident_cb ctx) (lookup_port_cb ctx (db_uuid dp)) e n \<and> n \<noteq> 0 \<and> ids_exhausted (id_taken c) n)"

text \<open>The ids of one flow on one datapath are those that it had, or as many as its match needs.\<close>

definition own_ids :: "lflow_ctx_in \<Rightarrow> logical_flow \<Rightarrow> datapath_binding \<Rightarrow> conj_ids \<Rightarrow> conj_ids \<Rightarrow> bool" where
  "own_ids ctx lflow dp c c' \<longleftrightarrow>
     (\<forall>s n. conj_view (test_mode ctx) c' (lf_uuid lflow, db_uuid dp) = Some (s, n) \<longrightarrow>
        conj_view (test_mode ctx) c (lf_uuid lflow, db_uuid dp) = Some (s, n) \<or>
        (\<exists>e refs resident lp. parse_match ctx (lf_uuid lflow) dp = Some (e, refs) \<and> ids_needed resident lp e n))"

lemma own_ids_refl [simp]: "own_ids ctx lflow dp c c"
  by (simp add: own_ids_def)

lemma own_ids_trans: "own_ids ctx lflow dp c c1 \<Longrightarrow> own_ids ctx lflow dp c1 c2 \<Longrightarrow> own_ids ctx lflow dp c c2"
  unfolding own_ids_def by blast

text \<open>
  The flow table gets the flows \<open>fs\<close> more, all of them for this logical flow and datapath and with
  conjunction ids that these own; the others keep their ids.
\<close>

definition extends :: "lflow_ctx_in \<Rightarrow> logical_flow \<Rightarrow> datapath_binding \<Rightarrow> lflow_ctx_out \<Rightarrow> lflow_ctx_out \<Rightarrow> of_flow list \<Rightarrow> bool" where
  "extends ctx lflow dp out out' fs \<longleftrightarrow>
     flow_table out' = flow_table out @ fs \<and> objs_processed out' = objs_processed out \<and>
     same_conf (cache_of out) (cache_of out') \<and>
     (\<forall>k. k \<noteq> (lf_uuid lflow, db_uuid dp) \<longrightarrow>
        conj_view (test_mode ctx) (conj_ids_of out') k = conj_view (test_mode ctx) (conj_ids_of out) k) \<and>
     (\<forall>x \<in> set fs. of_uuid x = lf_uuid lflow \<and> of_dp x = db_uuid dp \<and> of_ptable x = ptable_of lflow \<and>
        of_priority x = word_of_int (lf_priority lflow)) \<and>
     own_ids ctx lflow dp (conj_ids_of out) (conj_ids_of out') \<and>
     ids_in (owned (test_mode ctx) (conj_ids_of out') (lf_uuid lflow, db_uuid dp)) (map of_match fs)"

lemma ids_in_Nil [simp]: "ids_in I []"
  by (simp add: ids_in_def)

lemma table_hits_Nil [simp]: "\<not> table_hits f []"
  by (simp add: table_hits_def accepts_def)

lemma flows_for_owner: "x \<in> set (flows_for ctx lflow dp is_switch ms) \<Longrightarrow>
    of_uuid x = lf_uuid lflow \<and> of_dp x = db_uuid dp \<and> of_ptable x = ptable_of lflow \<and>
    of_priority x = word_of_int (lf_priority lflow)"
  by (auto simp: flows_for_def flow_for_def)

lemma flows_for_mean:
  assumes "em_all port_match ms"
    and "\<And>f. packet_ok f \<Longrightarrow> table_hits f ms = ev (cmp_sat f (lookup_port_cb ctx (db_uuid dp))) (is_chassis_resident_cb ctx) e"
  shows "flows_mean ctx lflow dp is_switch e (flows_for ctx lflow dp is_switch ms)"
  unfolding flows_mean_def
proof (intro allI impI)
  fix f assume here: "packet_here ctx lflow dp is_switch f"
  then have "packet_ok f" by (simp add: packet_here_def)
  with flows_for_hits [OF here assms(1)] assms(2) show "table_hits f (map of_match (flows_for ctx lflow dp is_switch ms)) =
      (on_datapath dp f \<and> ev (cmp_sat f (lookup_port_cb ctx (db_uuid dp))) (is_chassis_resident_cb ctx) e)" by simp
qed

text \<open>The end of \<open>translate_expr\<close>, once the conjunction ids are known.\<close>

lemma install_ok:
  assumes out: "out_ok U tm W out"
    and c: "conj_ids_ok tm c" "ltd_dom c \<subseteq> U" "test_mode ctx = tm"
      "\<forall>k. k \<noteq> (lf_uuid lflow, db_uuid dp) \<longrightarrow> conj_view tm c k = conj_view tm (conj_ids_of out) k"
      "own_ids ctx lflow dp (conj_ids_of out) c"
    and ms: "em_all port_match ms" "ids_in (owned tm c (lf_uuid lflow, db_uuid dp)) ms"
      "\<And>f. packet_ok f \<Longrightarrow> table_hits f ms = ev (cmp_sat f (lookup_port_cb ctx (db_uuid dp))) (is_chassis_resident_cb ctx) e"
    and ce: "\<And>x. ce = Some x \<Longrightarrow> \<exists>e. W (lf_uuid lflow) = Some e \<and> value_ok e (LCV_EXPR x) \<and>
      (\<not> contains_obj ctx (lf_uuid lflow) \<longrightarrow> value_ok e (LCV_MATCHES n start ms)) \<and>
      cached (cache_of out) (lf_uuid lflow) = None \<and> size_ok ctx (cache_of out) sz \<and>
      size_ok ctx (cache_of out) (expr_size (sizeof_expr ctx) x)"
  shows "\<exists>table out'. add_matches_to_flow_table ctx lflow dp is_switch ms (flow_table out) = Some table \<and>
    update_cache ctx (out\<lparr>conj_ids_of := c, flow_table := table\<rparr>) lflow ce start n ms sz = Some out' \<and>
    out_ok U tm W out' \<and> extends ctx lflow dp out out' (flows_for ctx lflow dp is_switch ms) \<and>
    flows_mean ctx lflow dp is_switch e (flows_for ctx lflow dp is_switch ms)"
proof -
  let ?fs = "flows_for ctx lflow dp is_switch ms"
  let ?out = "out\<lparr>conj_ids_of := c, flow_table := flow_table out @ ?fs\<rparr>"
  have cm: "cache_means W (cache_of ?out)" using out by (simp add: out_ok_def)
  obtain lc where lc: "update_cache ctx ?out lflow ce start n ms sz = Some (?out\<lparr>cache_of := lc\<rparr>)" "cache_means W lc"
    "same_conf (cache_of out) lc" using update_cache_ok [OF cm, of ce lflow ctx n start ms sz] ce by auto
  have "extends ctx lflow dp out (?out\<lparr>cache_of := lc\<rparr>) ?fs"
    using c(3-5) lc(3) ids_in_flows [OF ms(2), of ctx lflow dp is_switch] flows_for_owner [of _ ctx lflow dp is_switch ms]
    by (simp add: extends_def)
  moreover have "out_ok U tm W (?out\<lparr>cache_of := lc\<rparr>)" using lc(2) c(1,2) by (simp add: out_ok_def)
  ultimately show ?thesis
    using add_matches_eq [OF ms(1)] lc(1) flows_for_mean [OF ms(1,3)] by blast
qed

abbreviation prepared :: "u32 \<Rightarrow> u32 \<Rightarrow> expr_match list \<Rightarrow> expr_match list" where
  "prepared n start ms \<equiv> if n \<noteq> 0 then expr_matches_prepare ms (start - 1) else ms"

definition few :: "uuid set \<Rightarrow> bool" where
  "few U \<longleftrightarrow> finite U \<and> card U < 2 ^ 64 - 1"

lemma few_room:
  assumes "few U" "conj_ids_ok tm c" "ltd_dom c \<subseteq> U"
  shows "conj_room c"
proof -
  obtain L T where inv: "conj_inv tm c L T" using assms(2) by (auto simp: conj_ids_ok_def)
  have "card T = card (ltd_uuid ` T)" using holds_inj [OF conj_invD(3) [OF inv]] by (simp add: card_image)
  also have "\<dots> \<le> card U" using assms(1,3) ltd_dom_eq [OF inv] by (simp add: few_def card_mono)
  finally have "card T < 2 ^ 64 - 1" using assms(1) unfolding few_def by linarith
  with holds_count [OF conj_invD(3) [OF inv]] show ?thesis unfolding conj_room_def by simp
qed

lemma owned_added:
  assumes "conj_added tm c c' k s n"
  shows "owned tm c' k = conj_range s (unat n)" "0 \<notin> conj_range s (unat n)"
    "k' \<noteq> k \<Longrightarrow> conj_view tm c' k' = conj_view tm c k'"
  using assms by (simp_all add: conj_added_def owned_def)

lemma number_ids:
  assumes c: "conj_ids_ok tm c" "conj_room c" and ids: "ids_in {1..n} ms"
  shows "\<exists>start c'. (if n \<noteq> 0 then lflow_conj_ids_alloc tm c l d n else Some (0, c)) = Some (start, c') \<and>
    conj_ids_ok tm c' \<and> ltd_dom c' \<subseteq> insert l (ltd_dom c) \<and>
    (\<forall>k. k \<noteq> (l, d) \<longrightarrow> conj_view tm c' k = conj_view tm c k) \<and>
    (\<forall>s m. conj_view tm c' (l, d) = Some (s, m) \<longrightarrow> conj_view tm c (l, d) = Some (s, m) \<or> m = n) \<and>
    (n \<noteq> 0 \<and> start = 0 \<and> ids_exhausted (id_taken c') n \<or>
     (n = 0 \<or> start \<noteq> 0) \<and>
     ids_in (owned tm c' (l, d)) (prepared n start ms) \<and> ids_in (conj_range start (unat n)) (prepared n start ms) \<and>
     (\<forall>f. table_hits f (prepared n start ms) = table_hits f ms))"
proof (cases "n = 0")
  case True
  then have "ids_in {} ms" using ids by simp
  then have "ids_in I ms" for I using ids_in_mono by blast
  with True c show ?thesis by auto
next
  case False
  from alloc_ok [OF c, of l d n] False obtain r c' where
    r: "lflow_conj_ids_alloc tm c l d n = Some (r, c')" "conj_ids_ok tm c'" "ltd_dom c' \<subseteq> insert l (ltd_dom c)"
    "if r = 0 then conj_view tm c' = (conj_view tm c)((l, d) := None) else conj_added tm c c' (l, d) r n" by auto
  show ?thesis
  proof (cases "r = 0")
    case True
    with r False alloc_exhausted [OF c False] show ?thesis by simp
  next
    case r0: False
    then have add: "conj_added tm c c' (l, d) r n" using r(4) by simp
    note o = owned_added [OF add]
    note rng = conj_range_start [OF o(2) False]
    have "ids_in (conj_range r (unat n)) (expr_matches_prepare ms (r - 1))"
      by (rule ids_in_mono [OF expr_matches_prepare_ok(1) [OF ids rng(1)] rng(2)])
    moreover have "conj_view tm c' (l, d) = Some (r, n)" using add by (simp add: conj_added_def)
    ultimately show ?thesis using r(1-3) r0 False o(1,3) expr_matches_prepare_ok(2) [OF ids rng(1)] by simp
  qed
qed

lemma value_ok_closed:
  assumes "closed_expr e" "em_all port_match ms" "ids_in (conj_range start (unat n)) ms" "ports_ok lp"
    and "\<And>f. packet_ok f \<Longrightarrow> table_hits f ms = ev (cmp_sat f lp) r e" and "ids_needed r lp e n"
  shows "value_ok e (LCV_MATCHES n start ms)"
proof -
  have "matches_mean ms e"
    unfolding matches_mean_def using assms(1,4,5) unfolding closed_expr_def by blast
  with assms(2,3,6) show ?thesis by auto
qed

text \<open>What is known of the expression that \<open>translate_expr\<close> may cache.\<close>

definition may_cache :: "(uuid \<Rightarrow> expr option) \<Rightarrow> lflow_ctx_in \<Rightarrow> lflow_ctx_out \<Rightarrow> logical_flow \<Rightarrow> datapath_binding \<Rightarrow>
    expr \<Rightarrow> expr \<Rightarrow> bool" where
  "may_cache W ctx out lflow dp e x \<longleftrightarrow> expr_simplify e = Some x \<and> W (lf_uuid lflow) = Some e \<and>
     cached (cache_of out) (lf_uuid lflow) = None \<and> sizes_ok ctx out lflow dp"

lemma may_cache_values:
  assumes ctx: "in_ok X S tm W ctx" and may: "may_cache W ctx out lflow dp e x"
    and x: "expr_normalize (expr_evaluate_condition (is_chassis_resident_cb ctx) x) = Some e'"
      "expr_to_matches e' (lookup_port_cb ctx (db_uuid dp)) = Some (n, ms0)" "\<exists>ofs. ms = prepared n ofs ms0"
    and ms: "em_all port_match ms" "ids_in (conj_range start (unat n)) ms"
      "\<And>f. packet_ok f \<Longrightarrow> table_hits f ms = ev (cmp_sat f (lookup_port_cb ctx (db_uuid dp))) (is_chassis_resident_cb ctx) e"
  shows "W (lf_uuid lflow) = Some e \<and> value_ok e (LCV_EXPR x) \<and>
    (\<not> contains_obj ctx (lf_uuid lflow) \<longrightarrow> value_ok e (LCV_MATCHES n start ms)) \<and>
    cached (cache_of out) (lf_uuid lflow) = None \<and>
    size_ok ctx (cache_of out) (if n \<noteq> 0 then matches_size ctx ms else 0) \<and>
    size_ok ctx (cache_of out) (expr_size (sizeof_expr ctx) x)"
proof -
  have m: "expr_simplify e = Some x" "W (lf_uuid lflow) = Some e" "cached (cache_of out) (lf_uuid lflow) = None"
    "sizes_ok ctx out lflow dp" using may by (simp_all add: may_cache_def)
  have "size_ok ctx (cache_of out) (if n \<noteq> 0 then matches_size ctx ms else 0) \<and>
      size_ok ctx (cache_of out) (expr_size (sizeof_expr ctx) x)"
    using m(4) in_okD(6) [OF ctx m(2), of dp] m(1) x by (auto simp: sizes_ok_def)
  moreover have "value_ok e (LCV_MATCHES n start ms)" if "\<not> contains_obj ctx (lf_uuid lflow)"
    by (rule value_ok_closed [OF in_okD(8) [OF ctx m(2) that] ms(1,2) in_okD(4) [OF ctx] ms(3)])
      (use m(1) x(1,2) in \<open>auto simp: ids_needed_def\<close>)
  ultimately show ?thesis using m by simp
qed

lemma translate_expr_eq:
  assumes "expr_normalize (expr_evaluate_condition (is_chassis_resident_cb ctx) x) = Some e'"
    and "expr_to_matches e' (lookup_port_cb ctx (db_uuid dp)) = Some (n, ms)" "ms \<noteq> []"
    and "(if n \<noteq> 0 then lflow_conj_ids_alloc (test_mode ctx) (conj_ids_of out) (lf_uuid lflow) (db_uuid dp) n
      else Some (0, conj_ids_of out)) = Some (start, c)"
  shows "translate_expr ctx out lflow dp is_switch x ce =
    (if n \<noteq> 0 \<and> start = 0 then Some (LF_NO_IDS, out\<lparr>conj_ids_of := c\<rparr>)
     else do {
       table \<leftarrow> add_matches_to_flow_table ctx lflow dp is_switch (prepared n start ms) (flow_table out);
       out \<leftarrow> update_cache ctx (out\<lparr>conj_ids_of := c, flow_table := table\<rparr>) lflow ce start n (prepared n start ms)
                (if n \<noteq> 0 then matches_size ctx (prepared n start ms) else 0);
       Some (LF_ADDED, out)
     })"
  unfolding translate_expr_def using assms by (auto simp: Let_def split: if_splits)

lemma translate_expr_ok:
  assumes ctx: "in_ok X S tm W ctx" and out: "out_ok U tm W out" and u: "lf_uuid lflow \<in> U" "few U"
    and e: "translatable X S e" "expr_simplify e = Some x" "parse_match ctx (lf_uuid lflow) dp = Some (e, refs)"
    and ce: "\<And>y. ce = Some y \<Longrightarrow> y = x \<and> may_cache W ctx out lflow dp e x"
  shows "\<exists>oc out' fs. translate_expr ctx out lflow dp is_switch x ce = Some (oc, out') \<and> out_ok U tm W out' \<and>
    extends ctx lflow dp out out' fs \<and>
    (oc = LF_NO_IDS \<and> fs = [] \<and> ids_ran_out ctx dp e (conj_ids_of out') \<or> oc \<in> {LF_ADDED, LF_NO_MATCHES} \<and> flows_mean ctx lflow dp is_switch e fs)"
proof -
  let ?lp = "lookup_port_cb ctx (db_uuid dp)" and ?r = "is_chassis_resident_cb ctx"
  let ?u = "lf_uuid lflow" and ?d = "db_uuid dp"
  have tm: "test_mode ctx = tm" and "inj_ports ?lp" using in_okD(3,4) [OF ctx] by (simp_all add: ports_ok_def)
  from passes_ok [OF in_okD(1) [OF ctx] e(1) this(2), of ?r] e(2) obtain e' n ms where
    n: "expr_normalize (expr_evaluate_condition ?r x) = Some e'" "normalized X S e'" and
    ms: "expr_to_matches e' ?lp = Some (n, ms)" "ids_in {1..n} ms"
    "\<And>f. packet_ok f \<Longrightarrow> table_hits f ms = ev (cmp_sat f ?lp) ?r e" by auto
  have "cmp_symbol ` cmps_of e' \<subseteq> {s. port_sym s}"
    using normalized_norm_in [OF n(2)] in_okD(2) [OF ctx] by (auto simp: norm_in_def)
  then have all: "em_all port_match ms" using port_matches.expr_to_matches_all [OF ms(1)] by simp
  have c: "conj_ids_ok tm (conj_ids_of out)" "ltd_dom (conj_ids_of out) \<subseteq> U" using out by (simp_all add: out_ok_def)
  show ?thesis
  proof (cases "ms = []")
    case True
    have "translate_expr ctx out lflow dp is_switch x ce = Some (LF_NO_MATCHES, out)"
      using n(1) ms(1) True by (simp add: translate_expr_def)
    moreover have "extends ctx lflow dp out out []" by (simp add: extends_def same_conf_def)
    moreover have "flows_mean ctx lflow dp is_switch e []"
      using ms(3) True by (auto simp: flows_mean_def packet_here_def)
    ultimately show ?thesis using out by blast
  next
    case False
    obtain start c' where al: "(if n \<noteq> 0 then lflow_conj_ids_alloc tm (conj_ids_of out) ?u ?d n
        else Some (0, conj_ids_of out)) = Some (start, c')"
      "conj_ids_ok tm c'" "ltd_dom c' \<subseteq> insert ?u (ltd_dom (conj_ids_of out))"
      "\<forall>k. k \<noteq> (?u, ?d) \<longrightarrow> conj_view tm c' k = conj_view tm (conj_ids_of out) k"
      "\<forall>s m. conj_view tm c' (?u, ?d) = Some (s, m) \<longrightarrow> conj_view tm (conj_ids_of out) (?u, ?d) = Some (s, m) \<or> m = n"
      "n \<noteq> 0 \<and> start = 0 \<and> ids_exhausted (id_taken c') n \<or> (n = 0 \<or> start \<noteq> 0) \<and>
       ids_in (owned tm c' (?u, ?d)) (prepared n start ms) \<and> ids_in (conj_range start (unat n)) (prepared n start ms) \<and>
       (\<forall>f. table_hits f (prepared n start ms) = table_hits f ms)"
      using number_ids [OF c(1) few_room [OF u(2) c] ms(2), of ?u ?d] by (elim exE conjE) (rule that; assumption)
    have dom: "ltd_dom c' \<subseteq> U" using al(3) c(2) u(1) by blast
    have need: "ids_needed ?r ?lp e n" using e(2) n(1) ms(1) unfolding ids_needed_def by blast
    have own: "own_ids ctx lflow dp (conj_ids_of out) c'" using al(5) e(3) need tm unfolding own_ids_def by blast
    note tr = translate_expr_eq [OF n(1) ms(1) False al(1) [folded tm], of is_switch ce]
    show ?thesis
    proof (cases "n \<noteq> 0 \<and> start = 0")
      case True
      then have "ids_ran_out ctx dp e c'" using al(6) need unfolding ids_ran_out_def by blast
      with True show ?thesis using tr al(2,4) dom out tm own
        by (intro exI [of _ LF_NO_IDS] exI [of _ "out\<lparr>conj_ids_of := c'\<rparr>"] exI [of _ "[]"])
          (simp add: extends_def out_ok_def same_conf_def)
    next
      case go: False
      let ?ms = "prepared n start ms"
      have ids: "ids_in (owned tm c' (?u, ?d)) ?ms" "ids_in (conj_range start (unat n)) ?ms"
        "\<And>f. table_hits f ?ms = table_hits f ms" using al(6) go by blast+
      have all': "em_all port_match ?ms" using all em_all_prepare by simp
      have mean: "table_hits f ?ms = ev (cmp_sat f ?lp) ?r e" if "packet_ok f" for f using ids(3) ms(3) [OF that] by simp
      have val: "\<exists>e. W ?u = Some e \<and> value_ok e (LCV_EXPR y) \<and> (\<not> contains_obj ctx ?u \<longrightarrow> value_ok e (LCV_MATCHES n start ?ms)) \<and>
          cached (cache_of out) ?u = None \<and> size_ok ctx (cache_of out) (if n \<noteq> 0 then matches_size ctx ?ms else 0) \<and>
          size_ok ctx (cache_of out) (expr_size (sizeof_expr ctx) y)" if y: "ce = Some y" for y
        using may_cache_values [OF ctx _ n(1) ms(1) _ all' ids(2) mean] ce [OF y] by blast
      from install_ok [where ce = ce and is_switch = is_switch, OF out al(2) dom tm al(4) own all' ids(1) mean val]
      obtain table out' where
        "add_matches_to_flow_table ctx lflow dp is_switch ?ms (flow_table out) = Some table"
        "update_cache ctx (out\<lparr>conj_ids_of := c', flow_table := table\<rparr>) lflow ce start n ?ms
           (if n \<noteq> 0 then matches_size ctx ?ms else 0) = Some out'"
        "out_ok U tm W out'" "extends ctx lflow dp out out' (flows_for ctx lflow dp is_switch ?ms)"
        "flows_mean ctx lflow dp is_switch e (flows_for ctx lflow dp is_switch ?ms)" by blast
      with tr go show ?thesis by auto
    qed
  qed
qed

subsection \<open>The whole function\<close>

text \<open>The part of the result that the look-up in the cache and the translation share.\<close>

definition same_flows :: "lflow_ctx_in \<Rightarrow> logical_flow \<Rightarrow> datapath_binding \<Rightarrow> lflow_ctx_out \<Rightarrow> lflow_ctx_out \<Rightarrow> bool" where
  "same_flows ctx lflow dp out out' \<longleftrightarrow>
     flow_table out' = flow_table out \<and> objs_processed out' = objs_processed out \<and>
     same_conf (cache_of out) (cache_of out') \<and>
     (\<forall>k. k \<noteq> (lf_uuid lflow, db_uuid dp) \<longrightarrow>
        conj_view (test_mode ctx) (conj_ids_of out') k = conj_view (test_mode ctx) (conj_ids_of out) k) \<and>
     own_ids ctx lflow dp (conj_ids_of out) (conj_ids_of out')"

lemma extends_after: "same_flows ctx lflow dp out out1 \<Longrightarrow> extends ctx lflow dp out1 out' fs \<Longrightarrow> extends ctx lflow dp out out' fs"
  by (auto simp: same_flows_def extends_def same_conf_def intro: own_ids_trans)

definition usable :: "bool \<Rightarrow> (uuid \<Rightarrow> expr option) \<Rightarrow> lflow_ctx_out \<Rightarrow> uuid \<Rightarrow> uuid \<Rightarrow> lflow_cache_value option \<Rightarrow> bool" where
  "usable tm W out u d lcv \<longleftrightarrow>
     (case lcv of
        None \<Rightarrow> cached (cache_of out) u = None
      | Some v \<Rightarrow> (\<exists>e. W u = Some e \<and> value_ok e v) \<and>
          (\<forall>n ofs ms. v = LCV_MATCHES n ofs ms \<longrightarrow> ids_in (owned tm (conj_ids_of out) (u, d)) ms))"

lemma lookup_cached_matches_ok:
  assumes ctx: "in_ok X S tm W ctx" and out: "out_ok U tm W out" and u: "lf_uuid lflow \<in> U" "few U"
    and v: "cached (cache_of out) (lf_uuid lflow) = Some (LCV_MATCHES n ofs ms)" and n: "n \<noteq> 0"
  shows "\<exists>lcv out1. lookup_cached ctx out lflow dp = Some (lcv, out1) \<and> out_ok U tm W out1 \<and>
    same_flows ctx lflow dp out out1 \<and> mem_usage (cache_of out1) \<le> mem_usage (cache_of out) \<and>
    usable tm W out1 (lf_uuid lflow) (db_uuid dp) lcv"
proof -
  let ?u = "lf_uuid lflow" and ?d = "db_uuid dp"
  have tm: "test_mode ctx = tm" using in_okD(3) [OF ctx] .
  have c: "conj_ids_ok tm (conj_ids_of out)" "ltd_dom (conj_ids_of out) \<subseteq> U" and cm: "cache_means W (cache_of out)"
    using out by (simp_all add: out_ok_def)
  obtain e where e: "W ?u = Some e" "value_ok e (LCV_MATCHES n ofs ms)" using cache_means_lookup [OF cm v] by blast
  obtain b c' where al: "lflow_conj_ids_alloc_specified tm (conj_ids_of out) ?u ?d ofs n = Some (b, c')" "conj_ids_ok tm c'"
    "ltd_dom c' \<subseteq> insert ?u (ltd_dom (conj_ids_of out))"
    "if b then conj_added tm (conj_ids_of out) c' (?u, ?d) ofs n
     else conj_view tm c' = (conj_view tm (conj_ids_of out))((?u, ?d) := None)"
    using alloc_specified_ok [OF c(1) few_room [OF u(2) c], of ?u ?d ofs n] n by (auto split: if_splits)
  have dom: "ltd_dom c' \<subseteq> U" using al(3) c(2) u(1) by blast
  have others: "conj_view tm c' k = conj_view tm (conj_ids_of out) k" if "k \<noteq> (?u, ?d)" for k
    using al(4) that owned_added(3) [of tm "conj_ids_of out" c' "(?u, ?d)" ofs n k] by (cases b) simp_all
  have own: "own_ids ctx lflow dp (conj_ids_of out) c'"
  proof -
    have "m = n" if "conj_view tm c' (?u, ?d) = Some (s, m)" for s m
      using al(4) that by (cases b) (simp_all add: conj_added_def)
    moreover have "\<exists>resident lp. ids_needed resident lp e n" using e(2) by simp
    ultimately show ?thesis using in_okD(6) [OF ctx e(1), of dp] tm unfolding own_ids_def by blast
  qed
  show ?thesis
  proof (cases b)
    case True
    then have "conj_added tm (conj_ids_of out) c' (?u, ?d) ofs n" using al(4) by simp
    from owned_added(1) [OF this] e have "usable tm W (out\<lparr>conj_ids_of := c'\<rparr>) ?u ?d (Some (LCV_MATCHES n ofs ms))"
      by (simp add: usable_def)
    moreover have "lookup_cached ctx out lflow dp = Some (Some (LCV_MATCHES n ofs ms), out\<lparr>conj_ids_of := c'\<rparr>)"
      using v n al(1) tm True by (simp add: lookup_cached_def cached_def [symmetric])
    ultimately show ?thesis using al(2) dom cm others tm own by (auto simp: out_ok_def same_flows_def same_conf_def)
  next
    case False
    obtain lc where lc: "lflow_cache_delete (time_msec ctx) (cache_of out) ?u = Some lc" "cache_means W lc"
      "cached lc ?u = None" "mem_usage lc \<le> mem_usage (cache_of out)" "same_conf (cache_of out) lc"
      using cache_means_delete [OF cm, of ?u W "time_msec ctx"] by auto
    have "lookup_cached ctx out lflow dp = Some (None, out\<lparr>conj_ids_of := c', cache_of := lc\<rparr>)"
      using v n al(1) tm lc(1) False by (simp add: lookup_cached_def cached_def [symmetric])
    with lc(2-5) al(2) dom others tm own show ?thesis by (auto simp: out_ok_def same_flows_def usable_def)
  qed
qed

lemma lookup_cached_ok:
  assumes ctx: "in_ok X S tm W ctx" and out: "out_ok U tm W out" and u: "lf_uuid lflow \<in> U" "few U"
  shows "\<exists>lcv out1. lookup_cached ctx out lflow dp = Some (lcv, out1) \<and> out_ok U tm W out1 \<and>
    same_flows ctx lflow dp out out1 \<and> mem_usage (cache_of out1) \<le> mem_usage (cache_of out) \<and>
    usable tm W out1 (lf_uuid lflow) (db_uuid dp) lcv"
proof (cases "\<exists>n ofs ms. cached (cache_of out) (lf_uuid lflow) = Some (LCV_MATCHES n ofs ms) \<and> n \<noteq> 0")
  case True
  then show ?thesis using lookup_cached_matches_ok [OF assms] by blast
next
  case False
  let ?lcv = "cached (cache_of out) (lf_uuid lflow)"
  have "lookup_cached ctx out lflow dp = Some (?lcv, out)"
    using False by (auto simp: lookup_cached_def Let_def cached_def [symmetric] split: option.split lflow_cache_value.split)
  moreover have "usable tm W out (lf_uuid lflow) (db_uuid dp) ?lcv"
  proof (cases ?lcv)
    case (Some v)
    have cm: "cache_means W (cache_of out)" using out by (simp add: out_ok_def)
    obtain e where e: "W (lf_uuid lflow) = Some e" "value_ok e v" using cache_means_lookup [OF cm Some] by blast
    have "ids_in I ms" if "v = LCV_MATCHES n ofs ms" for n ofs ms I
    proof -
      have "n = 0" using False Some that by auto
      then have "ids_in {} ms" using e(2) that by simp
      then show ?thesis using ids_in_mono by blast
    qed
    then show ?thesis using Some e by (auto simp: usable_def)
  qed (simp add: usable_def)
  ultimately show ?thesis using out by (auto simp: same_flows_def same_conf_def)
qed

lemma size_ok_less: "mem_usage lc1 \<le> mem_usage lc \<Longrightarrow> size_ok ctx lc sz \<Longrightarrow> size_ok ctx lc1 sz"
  by (simp add: size_ok_def word_le_nat_alt)

lemma sizes_ok_less:
  "sizes_ok ctx out lflow dp \<Longrightarrow> mem_usage (cache_of out1) \<le> mem_usage (cache_of out) \<Longrightarrow> sizes_ok ctx out1 lflow dp"
  unfolding sizes_ok_def using size_ok_less by blast

text \<open>The conditions under which the function gets to the match of the flow.\<close>

definition considered :: "lflow_ctx_in \<Rightarrow> logical_flow \<Rightarrow> datapath_binding \<Rightarrow> bool \<Rightarrow> expr \<Rightarrow> bool" where
  "considered ctx lflow dp is_switch e \<longleftrightarrow>
     local_datapaths ctx (word_of_int (db_tunnel_key dp)) = Some is_switch \<and> in_out_port_local ctx lflow dp \<and>
     parse_actions ctx lflow \<and> (\<exists>refs. parse_match ctx (lf_uuid lflow) dp = Some (e, refs))"

lemma consider_usable_ok:
  assumes ctx: "in_ok X S tm W ctx" and out: "out_ok U tm W out" and u: "lf_uuid lflow \<in> U" "few U"
    and sz: "sizes_ok ctx out lflow dp" and go: "considered ctx lflow dp is_switch e"
  shows "\<exists>oc out' fs. consider_logical_flow' ctx out lflow dp = Some (oc, out') \<and> out_ok U tm W out' \<and>
    extends ctx lflow dp out out' fs \<and>
    (oc = LF_NO_IDS \<and> fs = [] \<and> ids_ran_out ctx dp e (conj_ids_of out') \<or> oc \<in> {LF_ADDED, LF_NO_MATCHES} \<and> flows_mean ctx lflow dp is_switch e fs)"
proof -
  let ?u = "lf_uuid lflow" and ?d = "db_uuid dp"
  have tm: "test_mode ctx = tm" using in_okD(3) [OF ctx] .
  from lookup_cached_ok [OF ctx out u, of dp] obtain lcv out1 where
    lk: "lookup_cached ctx out lflow dp = Some (lcv, out1)" "out_ok U tm W out1" "same_flows ctx lflow dp out out1"
    "mem_usage (cache_of out1) \<le> mem_usage (cache_of out)" "usable tm W out1 ?u ?d lcv" by blast
  note ext = extends_after [OF lk(3)]
  obtain refs where p: "parse_match ctx ?u dp = Some (e, refs)" using go by (auto simp: considered_def)
  have tr: "translatable X S e" using in_okD(5) [OF ctx p] .
  then obtain x where x: "expr_simplify e = Some x" using expr_simplify_ok unfolding translatable_def by metis
  note step = translate_expr_ok [OF ctx lk(2) u tr x p, where is_switch = is_switch]
  show ?thesis
  proof (cases lcv)
    case None
    obtain pg tv where refs: "refs = (pg, tv)" by (cases refs)
    let ?ce = "if lflow_cache_is_enabled (cache_of out1) \<and> \<not> pg \<and> \<not> tv then Some x else None"
    have "consider_logical_flow' ctx out lflow dp = translate_expr ctx out1 lflow dp is_switch x ?ce"
      using go lk(1) None p x refs by (simp add: consider_logical_flow'_def considered_def convert_match_to_expr_def)
    moreover have "y = x \<and> may_cache W ctx out1 lflow dp e x" if "?ce = Some y" for y
      using that lk(5) None p refs in_okD(7) [OF ctx, of ?u dp e] x sizes_ok_less [OF sz lk(4)]
      by (simp add: may_cache_def usable_def split: if_splits)
    ultimately show ?thesis using step [of ?ce] ext by metis
  next
    case (Some v)
    then obtain e1 where e1: "W ?u = Some e1" "value_ok e1 v" using lk(5) by (auto simp: usable_def)
    then have "e1 = e" using in_okD(6) [OF ctx e1(1), of dp] p by simp
    note e = e1 [unfolded \<open>e1 = e\<close>]
    show ?thesis
    proof (cases v)
      case (LCV_EXPR y)
      then have "consider_logical_flow' ctx out lflow dp = translate_expr ctx out1 lflow dp is_switch x None"
        using go lk(1) Some e(2) x by (simp add: consider_logical_flow'_def considered_def)
      then show ?thesis using step [of None] ext by (metis option.distinct(1))
    next
      case (LCV_MATCHES n ofs ms)
      have ms: "em_all port_match ms" "matches_mean ms e" "ids_in (owned tm (conj_ids_of out1) (?u, ?d)) ms"
        using e(2) lk(5) Some LCV_MATCHES by (simp_all add: usable_def)
      let ?fs = "flows_for ctx lflow dp is_switch ms"
      let ?out = "out1\<lparr>flow_table := flow_table out1 @ ?fs\<rparr>"
      have "consider_logical_flow' ctx out lflow dp = Some (LF_ADDED, ?out)"
        using go lk(1) Some LCV_MATCHES add_matches_eq [OF ms(1)] by (simp add: consider_logical_flow'_def considered_def)
      moreover have "extends ctx lflow dp out1 ?out ?fs"
        using tm ids_in_flows [OF ms(3), of ctx lflow dp is_switch] flows_for_owner [of _ ctx lflow dp is_switch ms]
        by (simp add: extends_def same_conf_def)
      moreover have "flows_mean ctx lflow dp is_switch e ?fs"
        by (rule flows_for_mean [OF ms(1)]) (use ms(2) in_okD(4) [OF ctx] in \<open>simp add: matches_mean_def\<close>)
      ultimately show ?thesis using lk(2) ext [of ?out ?fs] by (auto simp: out_ok_def)
    qed
  qed
qed

lemma consider_ok:
  assumes ctx: "in_ok X S tm W ctx" and out: "out_ok U tm W out" and u: "lf_uuid lflow \<in> U" "few U"
    and sz: "sizes_ok ctx out lflow dp"
  shows "\<exists>oc out' fs. consider_logical_flow' ctx out lflow dp = Some (oc, out') \<and> out_ok U tm W out' \<and>
    extends ctx lflow dp out out' fs \<and>
    (\<forall>is_switch e. considered ctx lflow dp is_switch e \<longrightarrow>
       oc = LF_NO_IDS \<and> fs = [] \<and> ids_ran_out ctx dp e (conj_ids_of out') \<or> oc \<in> {LF_ADDED, LF_NO_MATCHES} \<and> flows_mean ctx lflow dp is_switch e fs) \<and>
    ((\<forall>is_switch e. \<not> considered ctx lflow dp is_switch e) \<longrightarrow>
       oc \<in> {LF_NOT_LOCAL, LF_BAD_ACTIONS, LF_BAD_MATCH} \<and> fs = [])"
proof (cases "\<exists>is_switch e. considered ctx lflow dp is_switch e")
  case True
  then obtain sw e where go: "considered ctx lflow dp sw e" by blast
  then have only: "considered ctx lflow dp sw' e' \<longleftrightarrow> sw' = sw \<and> e' = e" for sw' e' by (auto simp: considered_def)
  from consider_usable_ok [OF assms go] obtain oc out' fs where r: "consider_logical_flow' ctx out lflow dp = Some (oc, out')"
    "out_ok U tm W out'" "extends ctx lflow dp out out' fs"
    "oc = LF_NO_IDS \<and> fs = [] \<and> ids_ran_out ctx dp e (conj_ids_of out') \<or> oc \<in> {LF_ADDED, LF_NO_MATCHES} \<and> flows_mean ctx lflow dp sw e fs" by blast
  show ?thesis
  proof (intro exI conjI allI impI)
    show "oc = LF_NO_IDS \<and> fs = [] \<and> ids_ran_out ctx dp e' (conj_ids_of out') \<or> oc \<in> {LF_ADDED, LF_NO_MATCHES} \<and> flows_mean ctx lflow dp sw' e' fs"
      if "considered ctx lflow dp sw' e'" for sw' e' using that r(4) unfolding only by simp
    show "oc \<in> {LF_NOT_LOCAL, LF_BAD_ACTIONS, LF_BAD_MATCH}" "fs = []"
      if "\<forall>sw e. \<not> considered ctx lflow dp sw e" using that go by blast+
  qed (rule r)+
next
  case False
  have tm: "test_mode ctx = tm" using in_okD(3) [OF ctx] .
  show ?thesis
  proof (cases "\<exists>sw. local_datapaths ctx (word_of_int (db_tunnel_key dp)) = Some sw \<and> in_out_port_local ctx lflow dp \<and> parse_actions ctx lflow")
    case local: True
    then have p: "parse_match ctx (lf_uuid lflow) dp = None"
      using False by (cases "parse_match ctx (lf_uuid lflow) dp") (auto simp: considered_def)
    from lookup_cached_ok [OF ctx out u, of dp] obtain lcv out1 where
      lk: "lookup_cached ctx out lflow dp = Some (lcv, out1)" "out_ok U tm W out1" "same_flows ctx lflow dp out out1"
      "usable tm W out1 (lf_uuid lflow) (db_uuid dp) lcv" by blast
    have "W (lf_uuid lflow) = None" using in_okD(6) [OF ctx, of "lf_uuid lflow" _ dp] p by (cases "W (lf_uuid lflow)") auto
    then have "lcv = None" using lk(4) by (cases lcv) (auto simp: usable_def)
    then have "consider_logical_flow' ctx out lflow dp = Some (LF_BAD_MATCH, out1)"
      using local lk(1) p by (auto simp: consider_logical_flow'_def convert_match_to_expr_def)
    moreover have "extends ctx lflow dp out out1 []" using lk(3) by (simp add: same_flows_def extends_def)
    ultimately show ?thesis using False lk(2) by blast
  next
    case no: False
    then have "consider_logical_flow' ctx out lflow dp = Some (LF_NOT_LOCAL, out) \<or>
        consider_logical_flow' ctx out lflow dp = Some (LF_BAD_ACTIONS, out)"
      by (auto simp: consider_logical_flow'_def split: option.split)
    moreover have "extends ctx lflow dp out out []" by (simp add: extends_def same_conf_def)
    ultimately show ?thesis using False out by blast
  qed
qed

section \<open>The flow table as a whole\<close>

abbreviation owner :: "of_flow \<Rightarrow> uuid \<times> uuid" where
  "owner x \<equiv> (of_uuid x, of_dp x)"

text \<open>
  Flows of different owners with disjoint sets of conjunction ids do not interfere.
\<close>

lemma table_hits_mono:
  assumes "set xs \<subseteq> set ys" "table_hits f xs"
  shows "table_hits f ys"
proof -
  have a: "accepts f cid xs \<Longrightarrow> accepts f cid ys" for cid using assms(1) unfolding accepts_def by blast
  have "clause_hit f c xs \<Longrightarrow> clause_hit f c ys" for c using assms(1) unfolding clause_hit_def by blast
  then have "conj_hit f cid xs \<Longrightarrow> conj_hit f cid ys" for cid unfolding conj_hit_def by blast
  with a assms(2) show ?thesis unfolding table_hits_def by blast
qed

lemma conj_hit_owner:
  assumes disj: "\<And>k k'. k \<noteq> k' \<Longrightarrow> R k \<inter> R k' = {}"
    and ids: "\<And>x. x \<in> set xs \<Longrightarrow> ids_in (R (own x)) [em x]"
    and hit: "conj_hit f cid (map em xs)" and k: "cid \<in> R k"
  shows "conj_hit f cid (map em (filter (\<lambda>x. own x = k) xs))"
proof -
  obtain n where n: "n \<noteq> 0" "\<And>i. i < n \<Longrightarrow> clause_hit f \<lparr>cj_id = cid, cj_clause = i, cj_n_clauses = n\<rparr> (map em xs)"
    using hit by (auto simp: conj_hit_def)
  have "clause_hit f \<lparr>cj_id = cid, cj_clause = i, cj_n_clauses = n\<rparr> (map em (filter (\<lambda>x. own x = k) xs))" if "i < n" for i
  proof -
    from n(2) [OF that] obtain x where x: "x \<in> set xs" "\<lparr>cj_id = cid, cj_clause = i, cj_n_clauses = n\<rparr> \<in> set (conjunctions (em x))"
      "match_hits f 0 (em_match (em x))" by (auto simp: clause_hit_def)
    have "cid \<in> R (own x)" using ids [OF x(1)] x(2) by (force simp: ids_in_def)
    then have "own x = k" using disj [of "own x" k] k by blast
    with x show ?thesis by (auto simp: clause_hit_def)
  qed
  with n(1) show ?thesis unfolding conj_hit_def by blast
qed

lemma table_hits_owners:
  assumes disj: "\<And>k k'. k \<noteq> k' \<Longrightarrow> R k \<inter> R k' = {}"
    and ids: "\<And>x. x \<in> set xs \<Longrightarrow> ids_in (R (own x)) [em x]"
  shows "table_hits f (map em xs) \<longleftrightarrow> (\<exists>k. table_hits f (map em (filter (\<lambda>x. own x = k) xs)))"
proof
  assume "table_hits f (map em xs)"
  then consider "accepts f 0 (map em xs)" | cid where "conj_hit f cid (map em xs)" "accepts f cid (map em xs)"
    by (auto simp: table_hits_def)
  then show "\<exists>k. table_hits f (map em (filter (\<lambda>x. own x = k) xs))"
  proof cases
    case 1
    then obtain x where "x \<in> set xs" "conjunctions (em x) = []" "match_hits f 0 (em_match (em x))"
      by (auto simp: accepts_def)
    then have "accepts f 0 (map em (filter (\<lambda>y. own y = own x) xs))" by (auto simp: accepts_def)
    then show ?thesis unfolding table_hits_def by blast
  next
    case 2
    then obtain x where x: "x \<in> set xs" "conjunctions (em x) = []" "match_hits f cid (em_match (em x))"
      by (auto simp: accepts_def)
    let ?ys = "map em (filter (\<lambda>y. own y = own x) xs)"
    have "accepts f cid [em x]" using x(2,3) by (simp add: accepts_def)
    then have "cid \<in> R (own x) \<or> accepts f 0 [em x]" using ids_in_accepts [OF ids [OF x(1)]] by blast
    moreover have "accepts f 0 [em x] \<Longrightarrow> accepts f 0 ?ys" using x(1) by (auto simp: accepts_def)
    moreover have "accepts f cid ?ys" using x by (auto simp: accepts_def)
    moreover have "cid \<in> R (own x) \<Longrightarrow> conj_hit f cid ?ys"
      by (rule conj_hit_owner [where R = R and own = own and em = em, OF disj ids 2(1)])
    ultimately have "table_hits f ?ys" unfolding table_hits_def by blast
    then show ?thesis by blast
  qed
next
  assume "\<exists>k. table_hits f (map em (filter (\<lambda>x. own x = k) xs))"
  then obtain k where "table_hits f (map em (filter (\<lambda>x. own x = k) xs))" by blast
  then show "table_hits f (map em xs)" by (rule table_hits_mono [rotated]) auto
qed

lemma owned_disjoint:
  assumes "conj_ids_ok tm c" "k \<noteq> k'"
  shows "owned tm c k \<inter> owned tm c k' = {}"
proof -
  obtain L T where "conj_inv tm c L T" using assms(1) by (auto simp: conj_ids_ok_def)
  from view_disjoint [OF this] assms(2) show ?thesis by (auto simp: owned_def split: option.splits)
qed

definition table_ok :: "bool \<Rightarrow> lflow_ctx_out \<Rightarrow> bool" where
  "table_ok tm out \<longleftrightarrow>
     (\<forall>x \<in> set (flow_table out). ids_in (owned tm (conj_ids_of out) (owner x)) [of_match x])"

text \<open>The flows at one priority of one table.\<close>

definition flows_at :: "lflow_ctx_out \<Rightarrow> u8 \<Rightarrow> u16 \<Rightarrow> of_flow list" where
  "flows_at out t p = filter (\<lambda>x. of_ptable x = t \<and> of_priority x = p) (flow_table out)"

lemma flows_at_owners:
  assumes "conj_ids_ok tm (conj_ids_of out)" "table_ok tm out"
  shows "table_hits f (map of_match (flows_at out t p)) \<longleftrightarrow>
    (\<exists>k. table_hits f (map of_match (filter (\<lambda>x. owner x = k) (flows_at out t p))))"
  by (rule table_hits_owners [where R = "owned tm (conj_ids_of out)"])
    (use owned_disjoint [OF assms(1)] assms(2) in \<open>auto simp: table_ok_def flows_at_def\<close>)

lemma table_ok_extends:
  assumes ext: "extends ctx lflow dp out out' fs" and tm: "test_mode ctx = tm" and ok: "table_ok tm out"
    and new: "\<forall>x \<in> set (flow_table out). owner x \<noteq> (lf_uuid lflow, db_uuid dp)"
  shows "table_ok tm out'"
proof -
  let ?k = "(lf_uuid lflow, db_uuid dp)"
  have view: "conj_view tm (conj_ids_of out') k = conj_view tm (conj_ids_of out) k" if "k \<noteq> ?k" for k
    using ext tm that unfolding extends_def by blast
  have "owned tm (conj_ids_of out') k = owned tm (conj_ids_of out) k" if "k \<noteq> ?k" for k
    using view [OF that] by (simp add: owned_def)
  then have "ids_in (owned tm (conj_ids_of out') (owner x)) [of_match x]" if "x \<in> set (flow_table out)" for x
    using ok new that by (simp add: table_ok_def)
  moreover have "ids_in (owned tm (conj_ids_of out') (owner x)) [of_match x]" if "x \<in> set fs" for x
  proof -
    have "owner x = ?k" "ids_in (owned tm (conj_ids_of out') ?k) (map of_match fs)"
      using ext tm that by (simp_all add: extends_def)
    then show ?thesis using that by (simp add: ids_in_def)
  qed
  ultimately show ?thesis using ext by (auto simp: table_ok_def extends_def)
qed

section \<open>The handlers of changes\<close>

text \<open>
  What the handlers need: a row is found under its own identifier and has a datapath or a
  group of different datapaths, all in \<open>D\<close>; the removal of flows yields each flow once; what a flow
  adds to the cache fits into the address space beside \<open>B\<close> bytes; and the conjunction ids suffice.
\<close>

definition datapaths_of :: "logical_flow \<Rightarrow> datapath_binding list" where
  "datapaths_of lflow =
     (case logical_datapath lflow of Some dp \<Rightarrow> [dp]
      | None \<Rightarrow> (case logical_dp_group lflow of None \<Rightarrow> [] | Some ds \<Rightarrow> ds))"

definition rows_ok :: "uuid set \<Rightarrow> uuid set \<Rightarrow> lflow_ctx_in \<Rightarrow> bool" where
  "rows_ok U D ctx \<longleftrightarrow>
     (\<forall>u l. logical_flow_table ctx u = Some l \<longrightarrow> lf_uuid l = u \<and> u \<in> U \<and>
        (logical_dp_group l = None \<or> logical_datapath l = None) \<and>
        distinct (map db_uuid (datapaths_of l)) \<and> db_uuid ` set (datapaths_of l) \<subseteq> D) \<and>
     (\<forall>t us. distinct (flood ctx t us) \<and> set us \<subseteq> set (flood ctx t us))"

definition sizes_below :: "lflow_ctx_in \<Rightarrow> u64 \<Rightarrow> bool" where
  "sizes_below ctx B \<longleftrightarrow> (\<forall>out lflow dp. mem_usage (cache_of out) \<le> B \<longrightarrow> sizes_ok ctx out lflow dp)"

text \<open>
  The row \<open>u\<close> never needs more than \<open>N u\<close> ids on a datapath. If every row had its \<open>N u\<close> ids on every
  datapath, there would still be a gap of the required length among the \<open>2 ^ 32\<close> ids: a taken id, 0
  and the id where a search begins are each in \<open>N u\<close> ranges of length \<open>N u\<close>.
\<close>

definition ids_suffice :: "uuid set \<Rightarrow> uuid set \<Rightarrow> (uuid \<Rightarrow> nat) \<Rightarrow> lflow_ctx_in \<Rightarrow> bool" where
  "ids_suffice U D N ctx \<longleftrightarrow>
     finite D \<and> (\<forall>u \<in> U. (card D * sum N U + 2) * N u < 2 ^ 32) \<and>
     (\<forall>u dp e refs resident lp n. u \<in> U \<and> parse_match ctx u dp = Some (e, refs) \<and> ids_needed resident lp e n \<longrightarrow>
        unat n \<le> N u)"

definition env_ok :: "expr_symbol set \<Rightarrow> expr_symbol set \<Rightarrow> uuid set \<Rightarrow> uuid set \<Rightarrow> (uuid \<Rightarrow> nat) \<Rightarrow> bool \<Rightarrow>
    (uuid \<Rightarrow> expr option) \<Rightarrow> u64 \<Rightarrow> lflow_ctx_in \<Rightarrow> bool" where
  "env_ok X S U D N tm W B ctx \<longleftrightarrow>
     in_ok X S tm W ctx \<and> few U \<and> rows_ok U D ctx \<and> sizes_below ctx B \<and> ids_suffice U D N ctx"

definition state_ok :: "uuid set \<Rightarrow> uuid set \<Rightarrow> (uuid \<Rightarrow> nat) \<Rightarrow> bool \<Rightarrow> (uuid \<Rightarrow> expr option) \<Rightarrow> u64 \<Rightarrow>
    lflow_ctx_out \<Rightarrow> bool" where
  "state_ok U D N tm W B out \<longleftrightarrow>
     out_ok U tm W out \<and> table_ok tm out \<and> max_mem_usage (cache_of out) \<le> B \<and> ids_within U D N tm (conj_ids_of out)"

lemma extends_within:
  assumes "extends ctx lflow dp out out' fs" "ids_within U D N (test_mode ctx) (conj_ids_of out)" "ids_suffice U D N ctx"
    and "lf_uuid lflow \<in> U" "db_uuid dp \<in> D"
  shows "ids_within U D N (test_mode ctx) (conj_ids_of out')"
  unfolding ids_within_def
proof (intro allI impI)
  fix l d s n assume v: "conj_view (test_mode ctx) (conj_ids_of out') (l, d) = Some (s, n)"
  show "l \<in> U \<and> d \<in> D \<and> unat n \<le> N l"
  proof (cases "(l, d) = (lf_uuid lflow, db_uuid dp)")
    case True
    have "own_ids ctx lflow dp (conj_ids_of out) (conj_ids_of out')" using assms(1) by (simp add: extends_def)
    then consider "conj_view (test_mode ctx) (conj_ids_of out) (l, d) = Some (s, n)"
      | e refs resident lp where "parse_match ctx l dp = Some (e, refs)" "ids_needed resident lp e n"
      using v True unfolding own_ids_def by blast
    then show ?thesis
    proof cases
      case 1
      then show ?thesis using assms(2) unfolding ids_within_def by blast
    next
      case 2
      then have "unat n \<le> N l" using assms(3,4) True unfolding ids_suffice_def by blast
      with assms(4,5) True show ?thesis by simp
    qed
  next
    case False
    then have "conj_view (test_mode ctx) (conj_ids_of out) (l, d) = Some (s, n)" using assms(1) v by (simp add: extends_def)
    then show ?thesis using assms(2) unfolding ids_within_def by blast
  qed
qed

lemma ids_do_not_run_out:
  assumes "ids_suffice U D N ctx" "conj_ids_ok tm c" "ids_within U D N tm c" "few U"
    and "u \<in> U" "parse_match ctx u dp = Some (e, refs)"
  shows "\<not> ids_ran_out ctx dp e c"
proof
  assume "ids_ran_out ctx dp e c"
  then obtain n where n: "ids_needed (is_chassis_resident_cb ctx) (lookup_port_cb ctx (db_uuid dp)) e n"
    "ids_exhausted (id_taken c) n" unfolding ids_ran_out_def by blast
  have "unat n \<le> N u" "(card D * sum N U + 2) * N u < 2 ^ 32" "finite D"
    using assms(1,5,6) n(1) unfolding ids_suffice_def by blast+
  with ids_not_exhausted [OF assms(2,3)] assms(4) n(2) show False unfolding few_def by blast
qed

text \<open>
  The flows \<open>fs\<close> are those that a logical flow should have on a datapath: they accept the packets of the
  datapath for which the match holds, if the flow is to be considered there, and there are none otherwise.
\<close>

definition datapath_installed :: "lflow_ctx_in \<Rightarrow> logical_flow \<Rightarrow> datapath_binding \<Rightarrow> of_flow list \<Rightarrow> bool" where
  "datapath_installed ctx lflow dp fs \<longleftrightarrow>
     (\<forall>is_switch e. considered ctx lflow dp is_switch e \<longrightarrow> flows_mean ctx lflow dp is_switch e fs) \<and>
     ((\<forall>is_switch e. \<not> considered ctx lflow dp is_switch e) \<longrightarrow> fs = [])"

definition row_installed :: "lflow_ctx_in \<Rightarrow> logical_flow \<Rightarrow> datapath_binding list \<Rightarrow> of_flow list \<Rightarrow> bool" where
  "row_installed ctx lflow ds fs \<longleftrightarrow>
     (\<forall>x \<in> set fs. of_uuid x = lf_uuid lflow \<and> of_dp x \<in> db_uuid ` set ds \<and> of_ptable x = ptable_of lflow \<and>
        of_priority x = word_of_int (lf_priority lflow)) \<and>
     (\<forall>dp \<in> set ds. datapath_installed ctx lflow dp (filter (\<lambda>x. of_dp x = db_uuid dp) fs))"

definition installed :: "lflow_ctx_in \<Rightarrow> uuid \<Rightarrow> of_flow list \<Rightarrow> bool" where
  "installed ctx u fs \<longleftrightarrow>
     (case logical_flow_table ctx u of None \<Rightarrow> fs = [] | Some lflow \<Rightarrow> row_installed ctx lflow (datapaths_of lflow) fs)"

abbreviation flows_of :: "uuid \<Rightarrow> of_flow list \<Rightarrow> of_flow list" where
  "flows_of u fs \<equiv> filter (\<lambda>x. of_uuid x = u) fs"

lemma row_installed_Nil [simp]: "row_installed ctx lflow [] fs \<longleftrightarrow> fs = []"
  by (cases fs) (auto simp: row_installed_def)

lemma row_installed_Cons:
  assumes fs: "\<forall>x \<in> set fs. of_uuid x = lf_uuid lflow \<and> of_dp x = db_uuid d \<and> of_ptable x = ptable_of lflow \<and>
      of_priority x = word_of_int (lf_priority lflow)" "datapath_installed ctx lflow d fs"
    and gs: "row_installed ctx lflow ds gs" and d: "db_uuid d \<notin> db_uuid ` set ds"
  shows "row_installed ctx lflow (d # ds) (fs @ gs)"
proof -
  have "filter (\<lambda>x. of_dp x = db_uuid d) fs = fs" using fs(1) by simp
  moreover have "of_dp x \<noteq> db_uuid d" if "x \<in> set gs" for x using gs d that by (metis row_installed_def)
  then have "filter (\<lambda>x. of_dp x = db_uuid d) gs = []" by (simp add: filter_empty_conv)
  moreover have "filter (\<lambda>x. of_dp x = db_uuid dp) fs = []" if "dp \<in> set ds" for dp
    using fs(1) d that by (auto simp: filter_empty_conv)
  ultimately show ?thesis using fs gs by (auto simp: row_installed_def)
qed

text \<open>The state is fine, and exactly the flows for the logical flows in \<open>us\<close> have been added.\<close>

definition adds_for :: "lflow_ctx_in \<Rightarrow> uuid set \<Rightarrow> uuid set \<Rightarrow> (uuid \<Rightarrow> nat) \<Rightarrow> bool \<Rightarrow> (uuid \<Rightarrow> expr option) \<Rightarrow> u64 \<Rightarrow> uuid set \<Rightarrow> lflow_ctx_out \<Rightarrow>
    lflow_ctx_out \<Rightarrow> bool" where
  "adds_for ctx U D N tm W B us out out' \<longleftrightarrow> state_ok U D N tm W B out' \<and>
     (\<exists>fs. flow_table out' = flow_table out @ fs \<and> of_uuid ` set fs \<subseteq> us \<and> (\<forall>u \<in> us. installed ctx u (flows_of u fs)))"

lemma adds_for_empty: "state_ok U D N tm W B out \<Longrightarrow> adds_for ctx U D N tm W B {} out out"
  by (simp add: adds_for_def)

lemma flows_of_other: "of_uuid ` set fs \<subseteq> us \<Longrightarrow> u \<notin> us \<Longrightarrow> flows_of u fs = []"
  by (auto simp: filter_empty_conv)

lemma adds_for_trans:
  assumes "adds_for ctx U D N tm W B us out out1" "adds_for ctx U D N tm W B vs out1 out2" and disj: "us \<inter> vs = {}"
  shows "adds_for ctx U D N tm W B (us \<union> vs) out out2"
proof -
  obtain fs where fs: "flow_table out1 = flow_table out @ fs" "of_uuid ` set fs \<subseteq> us" "\<forall>u \<in> us. installed ctx u (flows_of u fs)"
    using assms(1) by (auto simp: adds_for_def)
  obtain gs where gs: "flow_table out2 = flow_table out1 @ gs" "of_uuid ` set gs \<subseteq> vs" "\<forall>u \<in> vs. installed ctx u (flows_of u gs)"
    "state_ok U D N tm W B out2" using assms(2) by (auto simp: adds_for_def)
  have "flow_table out2 = flow_table out @ (fs @ gs)" "of_uuid ` set (fs @ gs) \<subseteq> us \<union> vs" using fs gs by auto
  moreover have "installed ctx u (flows_of u (fs @ gs))" if "u \<in> us" for u
  proof -
    have "u \<notin> vs" using that disj by blast
    with fs(3) that flows_of_other [OF gs(2)] show ?thesis by simp
  qed
  moreover have "installed ctx u (flows_of u (fs @ gs))" if "u \<in> vs" for u
  proof -
    have "u \<notin> us" using that disj by blast
    with gs(3) that flows_of_other [OF fs(2)] show ?thesis by simp
  qed
  ultimately show ?thesis using gs(4) unfolding adds_for_def by blast
qed

lemma adds_for_fresh:
  assumes "adds_for ctx U D N tm W B {u} out out1" "insert u us \<inter> of_uuid ` set (flow_table out) = {}" "u \<notin> us"
  shows "us \<inter> of_uuid ` set (flow_table out1) = {}"
proof -
  obtain fs where "flow_table out1 = flow_table out @ fs" "of_uuid ` set fs \<subseteq> {u}" using assms(1) by (auto simp: adds_for_def)
  then have "of_uuid ` set (flow_table out1) \<subseteq> insert u (of_uuid ` set (flow_table out))" by auto
  with assms(2,3) show ?thesis by blast
qed

lemma state_sizes: "state_ok U D N tm W B out \<Longrightarrow> sizes_below ctx B \<Longrightarrow> sizes_ok ctx out lflow dp"
  unfolding sizes_below_def state_ok_def out_ok_def cache_means_def cache_limits_def by (metis order_trans)

lemma consider_adds:
  assumes env: "env_ok X S U D N tm W B ctx" and st: "state_ok U D N tm W B out"
    and u: "lf_uuid lflow \<in> U" "db_uuid dp \<in> D"
    and new: "\<forall>x \<in> set (flow_table out). owner x \<noteq> (lf_uuid lflow, db_uuid dp)"
  shows "\<exists>oc out' fs. consider_logical_flow' ctx out lflow dp = Some (oc, out') \<and> state_ok U D N tm W B out' \<and>
    flow_table out' = flow_table out @ fs \<and> objs_processed out' = objs_processed out \<and>
    (\<forall>x \<in> set fs. of_uuid x = lf_uuid lflow \<and> of_dp x = db_uuid dp \<and> of_ptable x = ptable_of lflow \<and>
       of_priority x = word_of_int (lf_priority lflow)) \<and> datapath_installed ctx lflow dp fs"
proof -
  have ctx: "in_ok X S tm W ctx" "few U" "sizes_below ctx B" "ids_suffice U D N ctx" using env by (simp_all add: env_ok_def)
  have tm: "test_mode ctx = tm" using in_okD(3) [OF ctx(1)] .
  have out: "out_ok U tm W out" "table_ok tm out" "ids_within U D N tm (conj_ids_of out)" using st by (simp_all add: state_ok_def)
  from consider_ok [OF ctx(1) out(1) u(1) ctx(2) state_sizes [OF st ctx(3)], of dp] obtain oc out' fs where
    r: "consider_logical_flow' ctx out lflow dp = Some (oc, out')" "out_ok U tm W out'" "extends ctx lflow dp out out' fs" and
    go: "\<And>is_switch e. considered ctx lflow dp is_switch e \<Longrightarrow>
      ids_ran_out ctx dp e (conj_ids_of out') \<or> flows_mean ctx lflow dp is_switch e fs" and
    no: "(\<And>is_switch e. \<not> considered ctx lflow dp is_switch e) \<Longrightarrow> fs = []" by blast
  have within: "ids_within U D N tm (conj_ids_of out')"
    using extends_within [OF r(3) _ ctx(4) u] out(3) tm by simp
  have "flows_mean ctx lflow dp is_switch e fs" if c: "considered ctx lflow dp is_switch e" for is_switch e
  proof -
    obtain refs where p: "parse_match ctx (lf_uuid lflow) dp = Some (e, refs)" using c by (auto simp: considered_def)
    have "conj_ids_ok tm (conj_ids_of out')" using r(2) by (simp add: out_ok_def)
    from ids_do_not_run_out [OF ctx(4) this within ctx(2) u(1) p] go [OF c] show ?thesis by blast
  qed
  with no have fs: "datapath_installed ctx lflow dp fs" unfolding datapath_installed_def by blast
  have "state_ok U D N tm W B out'"
    using r(2,3) st within table_ok_extends [OF r(3) tm out(2) new] by (simp add: state_ok_def extends_def same_conf_def)
  with r(1,3) fs show ?thesis unfolding extends_def by blast
qed

lemma consider_on_datapaths_adds:
  "env_ok X S U D N tm W B ctx \<Longrightarrow> state_ok U D N tm W B out \<Longrightarrow> lf_uuid lflow \<in> U \<Longrightarrow> distinct (map db_uuid ds) \<Longrightarrow>
     db_uuid ` set ds \<subseteq> D \<Longrightarrow> \<forall>x \<in> set (flow_table out). of_uuid x = lf_uuid lflow \<longrightarrow> of_dp x \<notin> db_uuid ` set ds \<Longrightarrow>
     \<exists>out' fs. consider_on_datapaths ctx lflow ds out = Some out' \<and> state_ok U D N tm W B out' \<and>
       flow_table out' = flow_table out @ fs \<and> row_installed ctx lflow ds fs"
proof (induction ds arbitrary: out)
  case (Cons d ds)
  have "\<forall>x \<in> set (flow_table out). owner x \<noteq> (lf_uuid lflow, db_uuid d)" using Cons.prems(6) by auto
  moreover have D: "db_uuid d \<in> D" "db_uuid ` set ds \<subseteq> D" using Cons.prems(5) by simp_all
  ultimately obtain oc out1 fs where
    1: "consider_logical_flow' ctx out lflow d = Some (oc, out1)" "state_ok U D N tm W B out1"
    "flow_table out1 = flow_table out @ fs" and
    fs: "\<forall>x \<in> set fs. of_uuid x = lf_uuid lflow \<and> of_dp x = db_uuid d \<and> of_ptable x = ptable_of lflow \<and>
       of_priority x = word_of_int (lf_priority lflow)" "datapath_installed ctx lflow d fs"
    using consider_adds [OF Cons.prems(1-3)] by blast
  have d: "db_uuid d \<notin> db_uuid ` set ds" "distinct (map db_uuid ds)" using Cons.prems(4) by simp_all
  have "\<forall>x \<in> set (flow_table out1). of_uuid x = lf_uuid lflow \<longrightarrow> of_dp x \<notin> db_uuid ` set ds"
    using Cons.prems(6) fs(1) d(1) unfolding 1(3) by auto
  from Cons.IH [OF Cons.prems(1) 1(2) Cons.prems(3) d(2) D(2) this] obtain out' gs where
    2: "consider_on_datapaths ctx lflow ds out1 = Some out'" "state_ok U D N tm W B out'"
    "flow_table out' = flow_table out1 @ gs" "row_installed ctx lflow ds gs" by blast
  have "flow_table out' = flow_table out @ (fs @ gs)" using 1(3) 2(3) by simp
  with 1(1) 2(1,2) row_installed_Cons [OF fs 2(4) d(1)] show ?case by (intro exI [of _ out'] exI [of _ "fs @ gs"]) simp
qed simp

lemma state_ok_objs [simp]: "state_ok U D N tm W B (out\<lparr>objs_processed := ps\<rparr>) = state_ok U D N tm W B out"
  by (simp add: state_ok_def out_ok_def table_ok_def)

lemma adds_for_objs [simp]:
  "adds_for ctx U D N tm W B us (out\<lparr>objs_processed := ps\<rparr>) out' = adds_for ctx U D N tm W B us out out'"
  by (simp add: adds_for_def)

text \<open>A row with one datapath is treated like one with a group of one datapath.\<close>

lemma consider_logical_flow_eq:
  assumes "logical_dp_group lflow = None \<or> logical_datapath lflow = None"
    and "\<not> is_recompute \<longrightarrow> lf_uuid lflow \<notin> set (objs_processed out)"
  shows "consider_logical_flow ctx lflow is_recompute out =
    (if logical_dp_group lflow = None \<and> logical_datapath lflow = None then Some out
     else consider_on_datapaths ctx lflow (datapaths_of lflow)
       (if is_recompute then out else out\<lparr>objs_processed := lf_uuid lflow # objs_processed out\<rparr>))"
proof -
  have one: "consider_on_datapaths ctx lflow [dp] out = map_option snd (consider_logical_flow' ctx out lflow dp)" for dp out
    by (cases "consider_logical_flow' ctx out lflow dp") auto
  show ?thesis using assms
    by (auto simp: consider_logical_flow_def datapaths_of_def Let_def one simp del: consider_on_datapaths.simps split: option.split)
qed

lemma consider_logical_flow_adds:
  assumes env: "env_ok X S U D N tm W B ctx" and st: "state_ok U D N tm W B out" and row: "logical_flow_table ctx u = Some lflow"
    and new: "u \<notin> of_uuid ` set (flow_table out)" "\<not> is_recompute \<longrightarrow> u \<notin> set (objs_processed out)"
  shows "\<exists>out'. consider_logical_flow ctx lflow is_recompute out = Some out' \<and> adds_for ctx U D N tm W B {u} out out'"
proof -
  have l: "lf_uuid lflow = u" "u \<in> U" "logical_dp_group lflow = None \<or> logical_datapath lflow = None"
    and d: "distinct (map db_uuid (datapaths_of lflow))" "db_uuid ` set (datapaths_of lflow) \<subseteq> D"
    using env row by (simp_all add: env_ok_def rows_ok_def)
  let ?out = "if is_recompute then out else out\<lparr>objs_processed := lf_uuid lflow # objs_processed out\<rparr>"
  have st': "state_ok U D N tm W B ?out" "flow_table ?out = flow_table out" using st by simp_all
  have no: "\<forall>x \<in> set (flow_table ?out). of_uuid x = lf_uuid lflow \<longrightarrow> of_dp x \<notin> db_uuid ` set (datapaths_of lflow)"
    using new(1) l(1) unfolding st'(2) by (metis image_eqI)
  have u: "lf_uuid lflow \<in> U" using l(1,2) by simp
  from consider_on_datapaths_adds [OF env st'(1) u d no] obtain out' fs where
    r: "consider_on_datapaths ctx lflow (datapaths_of lflow) ?out = Some out'" "state_ok U D N tm W B out'"
    "flow_table out' = flow_table out @ fs" "row_installed ctx lflow (datapaths_of lflow) fs" unfolding st'(2) by blast
  have "flows_of u fs = fs" "of_uuid ` set fs \<subseteq> {u}" using r(4) l(1) by (auto simp: row_installed_def)
  then have adds: "adds_for ctx U D N tm W B {u} out out'" using r row by (auto simp: adds_for_def installed_def)
  have "adds_for ctx U D N tm W B {u} out out" if "logical_dp_group lflow = None" "logical_datapath lflow = None"
    using st row that by (simp add: adds_for_def installed_def datapaths_of_def)
  with adds r(1) show ?thesis
    using consider_logical_flow_eq [OF l(3), of is_recompute out ctx] new(2) l(1) by (cases "logical_dp_group lflow = None \<and> logical_datapath lflow = None") auto
qed

lemma free_state_ok:
  assumes "state_ok U D N tm W B out" "u \<notin> of_uuid ` set (flow_table out)"
  shows "\<exists>c. lflow_conj_ids_free tm (conj_ids_of out) u = Some c \<and> state_ok U D N tm W B (out\<lparr>conj_ids_of := c\<rparr>)"
proof -
  have c: "conj_ids_ok tm (conj_ids_of out)" using assms(1) by (simp add: state_ok_def out_ok_def)
  from free_view [OF c, of u] obtain c' where c': "lflow_conj_ids_free tm (conj_ids_of out) u = Some c'" "conj_ids_ok tm c'"
    "conj_view tm c' = (\<lambda>k. if fst k = u then None else conj_view tm (conj_ids_of out) k)"
    "ltd_dom c' \<subseteq> ltd_dom (conj_ids_of out)" by blast
  have "owned tm c' (owner x) = owned tm (conj_ids_of out) (owner x)" if "x \<in> set (flow_table out)" for x
  proof -
    have "of_uuid x \<noteq> u" using assms(2) that by auto
    then have "conj_view tm c' (owner x) = conj_view tm (conj_ids_of out) (owner x)" unfolding c'(3) by simp
    then show ?thesis by (simp add: owned_def)
  qed
  then have "table_ok tm (out\<lparr>conj_ids_of := c'\<rparr>)" using assms(1) by (simp add: state_ok_def table_ok_def)
  moreover have "out_ok U tm W (out\<lparr>conj_ids_of := c'\<rparr>)"
    using assms(1) c'(2,4) by (auto simp: state_ok_def out_ok_def)
  moreover have "ids_within U D N tm c'" using assms(1) unfolding state_ok_def ids_within_def c'(3) by simp
  ultimately show ?thesis using assms(1) c'(1) by (simp add: state_ok_def)
qed

lemma reprocess_adds:
  assumes env: "env_ok X S U D N tm W B ctx" and st: "state_ok U D N tm W B out" and new: "u \<notin> of_uuid ` set (flow_table out)"
  shows "\<exists>out'. reprocess_lflow ctx u out = Some out' \<and> adds_for ctx U D N tm W B {u} out out'"
proof -
  have tm: "test_mode ctx = tm" using env in_okD(3) by (auto simp: env_ok_def)
  from free_state_ok [OF st new] obtain c where c: "lflow_conj_ids_free tm (conj_ids_of out) u = Some c"
    "state_ok U D N tm W B (out\<lparr>conj_ids_of := c\<rparr>)" by blast
  show ?thesis
  proof (cases "logical_flow_table ctx u")
    case None
    with c tm show ?thesis by (simp add: reprocess_lflow_def adds_for_def installed_def)
  next
    case (Some lflow)
    then have "lf_uuid lflow = u" using env by (simp add: env_ok_def rows_ok_def)
    let ?out = "out\<lparr>conj_ids_of := c, objs_processed := filter (\<lambda>x. x \<noteq> u) (objs_processed out)\<rparr>"
    have "state_ok U D N tm W B ?out" using c(2) by simp
    from consider_logical_flow_adds [OF env this Some, of False] new obtain out' where
      "consider_logical_flow ctx lflow False ?out = Some out'" "adds_for ctx U D N tm W B {u} ?out out'" by auto
    with Some c(1) tm \<open>lf_uuid lflow = u\<close> show ?thesis by (simp add: reprocess_lflow_def adds_for_def)
  qed
qed

lemma reprocess_list_adds:
  "env_ok X S U D N tm W B ctx \<Longrightarrow> state_ok U D N tm W B out \<Longrightarrow> distinct us \<Longrightarrow> set us \<inter> of_uuid ` set (flow_table out) = {} \<Longrightarrow>
     \<exists>out'. fold_opt (reprocess_lflow ctx) us out = Some out' \<and> adds_for ctx U D N tm W B (set us) out out'"
proof (induction us arbitrary: out)
  case Nil
  then show ?case by (simp add: adds_for_empty)
next
  case (Cons u us)
  have u: "u \<notin> of_uuid ` set (flow_table out)" "u \<notin> set us" "distinct us"
    "insert u (set us) \<inter> of_uuid ` set (flow_table out) = {}" using Cons.prems(3,4) by simp_all
  from reprocess_adds [OF Cons.prems(1,2) u(1)] obtain out1 where
    1: "reprocess_lflow ctx u out = Some out1" "adds_for ctx U D N tm W B {u} out out1" by blast
  have "state_ok U D N tm W B out1" using 1(2) by (simp add: adds_for_def)
  from Cons.IH [OF Cons.prems(1) this u(3) adds_for_fresh [OF 1(2) u(4,2)]] obtain out' where
    2: "fold_opt (reprocess_lflow ctx) us out1 = Some out'" "adds_for ctx U D N tm W B (set us) out1 out'" by blast
  have "{u} \<inter> set us = {}" using u(2) by simp
  from adds_for_trans [OF 1(2) 2(2) this] 1(1) 2(1) show ?case by simp
qed

lemma state_ok_remove: "state_ok U D N tm W B out \<Longrightarrow> state_ok U D N tm W B (ofctrl_flood_remove_flows us out)"
  by (simp add: ofctrl_flood_remove_flows_def state_ok_def out_ok_def table_ok_def)

lemma remove_and_reprocess:
  assumes env: "env_ok X S U D N tm W B ctx" and st: "state_ok U D N tm W B out" and us: "distinct us"
    and others: "\<And>u. u \<notin> set us \<Longrightarrow> installed ctx u (flows_of u (flow_table out))"
  shows "\<exists>out'. fold_opt (reprocess_lflow ctx) us (ofctrl_flood_remove_flows us out) = Some out' \<and>
    state_ok U D N tm W B out' \<and> (\<forall>u. installed ctx u (flows_of u (flow_table out')))"
proof -
  let ?out = "ofctrl_flood_remove_flows us out"
  have "set us \<inter> of_uuid ` set (flow_table ?out) = {}" by (auto simp: ofctrl_flood_remove_flows_def)
  from reprocess_list_adds [OF env state_ok_remove [OF st] us this] obtain out' fs where
    r: "fold_opt (reprocess_lflow ctx) us ?out = Some out'" "state_ok U D N tm W B out'"
    "flow_table out' = flow_table ?out @ fs" and
    fs: "of_uuid ` set fs \<subseteq> set us" "\<forall>u \<in> set us. installed ctx u (flows_of u fs)" by (auto simp: adds_for_def)
  have "installed ctx u (flows_of u (flow_table out'))" for u
  proof (cases "u \<in> set us")
    case True
    then have "flows_of u (flow_table ?out) = []" by (auto simp: ofctrl_flood_remove_flows_def filter_empty_conv)
    with True fs(2) r(3) show ?thesis by simp
  next
    case False
    then have "flows_of u (flow_table ?out) = flows_of u (flow_table out)"
      by (auto simp: ofctrl_flood_remove_flows_def intro: filter_cong)
    with others [OF False] flows_of_other [OF fs(1) False] r(3) show ?thesis by simp
  qed
  with r(1,2) show ?thesis by blast
qed

lemma add_logical_flows_adds:
  "env_ok X S U D N tm W B ctx \<Longrightarrow> state_ok U D N tm W B out \<Longrightarrow> distinct (map lf_uuid rows) \<Longrightarrow>
     \<forall>l \<in> set rows. logical_flow_table ctx (lf_uuid l) = Some l \<Longrightarrow>
     set (map lf_uuid rows) \<inter> of_uuid ` set (flow_table out) = {} \<Longrightarrow>
     \<exists>out'. add_logical_flows ctx rows out = Some out' \<and> adds_for ctx U D N tm W B (set (map lf_uuid rows)) out out'"
proof (induction rows arbitrary: out)
  case Nil
  then show ?case by (simp add: add_logical_flows_def adds_for_empty)
next
  case (Cons l rows)
  let ?u = "lf_uuid l" and ?us = "set (map lf_uuid rows)"
  have u: "?u \<notin> of_uuid ` set (flow_table out)" "?u \<notin> ?us" "distinct (map lf_uuid rows)"
    "insert ?u ?us \<inter> of_uuid ` set (flow_table out) = {}" using Cons.prems(3,5) by simp_all
  have rows: "logical_flow_table ctx ?u = Some l" "\<forall>l \<in> set rows. logical_flow_table ctx (lf_uuid l) = Some l"
    using Cons.prems(4) by simp_all
  from consider_logical_flow_adds [OF Cons.prems(1,2) rows(1) u(1), of True] obtain out1 where
    1: "consider_logical_flow ctx l True out = Some out1" "adds_for ctx U D N tm W B {?u} out out1" by auto
  have "state_ok U D N tm W B out1" using 1(2) by (simp add: adds_for_def)
  from Cons.IH [OF Cons.prems(1) this u(3) rows(2) adds_for_fresh [OF 1(2) u(4,2)]] obtain out' where
    2: "add_logical_flows ctx rows out1 = Some out'" "adds_for ctx U D N tm W B ?us out1 out'" by blast
  have "{?u} \<inter> ?us = {}" using u(2) by simp
  from adds_for_trans [OF 1(2) 2(2) this] 1(1) 2(1) show ?case by (simp add: add_logical_flows_def)
qed

lemma add_logical_flows_installs:
  assumes env: "env_ok X S U D N tm W B ctx" and st: "state_ok U D N tm W B out" and rows: "distinct (map lf_uuid rows)"
    "\<And>l. l \<in> set rows \<longleftrightarrow> logical_flow_table ctx (lf_uuid l) = Some l" and empty: "flow_table out = []"
  shows "\<exists>out'. add_logical_flows ctx rows out = Some out' \<and> state_ok U D N tm W B out' \<and>
    (\<forall>u. installed ctx u (flows_of u (flow_table out')))"
proof -
  from add_logical_flows_adds [OF env st rows(1)] rows(2) empty obtain out' where
    r: "add_logical_flows ctx rows out = Some out'" "adds_for ctx U D N tm W B (set (map lf_uuid rows)) out out'" by auto
  then obtain fs where fs: "flow_table out' = fs" "of_uuid ` set fs \<subseteq> set (map lf_uuid rows)"
    "\<forall>u \<in> set (map lf_uuid rows). installed ctx u (flows_of u fs)" using empty by (auto simp: adds_for_def)
  have "installed ctx u (flows_of u fs)" for u
  proof (cases "u \<in> set (map lf_uuid rows)")
    case False
    have "logical_flow_table ctx u = None"
    proof (rule ccontr)
      assume "logical_flow_table ctx u \<noteq> None"
      then obtain l where l: "logical_flow_table ctx u = Some l" by blast
      then have "lf_uuid l = u" using env by (simp add: env_ok_def rows_ok_def)
      with l rows(2) [of l] False show False by auto
    qed
    with flows_of_other [OF fs(2) False] show ?thesis by (simp add: installed_def)
  qed (use fs(3) in blast)
  with r fs(1) show ?thesis by (auto simp: adds_for_def)
qed

lemma state_ok_forget:
  assumes "state_ok U D N tm W B out" "cache_means W' lc" "same_conf (cache_of out) lc"
  shows "state_ok U D N tm W' B (out\<lparr>cache_of := lc\<rparr>)"
  using assms by (simp add: state_ok_def out_ok_def table_ok_def same_conf_def)

lemma cache_means_update:
  assumes "cache_means W lc" "W u = None \<or> \<not> enabled lc"
  shows "cache_means (W(u := e)) lc"
proof -
  obtain C where C: "cache_inv lc C" "cache_limits lc C"
    "\<forall>x \<in> C. \<exists>e. W (lce_uuid x) = Some e \<and> value_ok e (lce_value x)"
    using assms(1) by (auto simp: cache_means_def)
  have "\<forall>x \<in> C. lce_uuid x \<noteq> u" using C(2,3) assms(2) by (auto simp: cache_limits_def)
  then have "\<forall>x \<in> C. \<exists>e'. (W(u := e)) (lce_uuid x) = Some e' \<and> value_ok e' (lce_value x)" using C(3) by simp
  with C(1,2) show ?thesis unfolding cache_means_def by blast
qed

lemma forget_one_ok:
  assumes cm: "cache_means W (cache_of out)" and new: "b \<Longrightarrow> W u = None"
  shows "\<exists>lc. (if \<not> b \<and> lflow_cache_is_enabled (cache_of out)
      then map_option (\<lambda>lc. out\<lparr>cache_of := lc\<rparr>) (lflow_cache_delete now (cache_of out) u)
      else Some out) = Some (out\<lparr>cache_of := lc\<rparr>) \<and> cache_means (W(u := e)) lc \<and> same_conf (cache_of out) lc"
proof (cases "\<not> b \<and> lflow_cache_is_enabled (cache_of out)")
  case True
  obtain lc where "lflow_cache_delete now (cache_of out) u = Some lc" "cache_means (W(u := e)) lc"
    "same_conf (cache_of out) lc" using cache_means_delete [OF cm, of u "W(u := e)" now] by auto
  with True show ?thesis by (intro exI [of _ lc]) simp
next
  case False
  then have "W u = None \<or> \<not> enabled (cache_of out)" using new by (auto simp: lflow_cache_is_enabled_def)
  from cache_means_update [OF cm this, of e] False show ?thesis
    by (intro exI [of _ "cache_of out"]) (auto simp: same_conf_def)
qed

lemma new_rest:
  assumes "\<forall>(v, is_new) \<in> set ((u, b) # todo). is_new \<longrightarrow> W v = None" "u \<notin> fst ` set todo"
  shows "\<forall>(v, is_new) \<in> set todo. is_new \<longrightarrow> (W(u := e)) v = None"
  using assms by force

lemma forget_changed_ok:
  "state_ok U D N tm W B out \<Longrightarrow> distinct (map fst todo) \<Longrightarrow> \<forall>(u, is_new) \<in> set todo. is_new \<longrightarrow> W u = None \<Longrightarrow>
     \<forall>w. w \<notin> fst ` set todo \<longrightarrow> W' w = W w \<Longrightarrow>
     \<exists>lc. forget_changed ctx todo out = Some (out\<lparr>cache_of := lc\<rparr>) \<and> state_ok U D N tm W' B (out\<lparr>cache_of := lc\<rparr>)"
proof (induction todo arbitrary: W out)
  case Nil
  then have "W' = W" by auto
  with Nil show ?case by (intro exI [of _ "cache_of out"]) (simp add: forget_changed_def)
next
  case (Cons p todo)
  obtain u b where p: "p = (u, b)" by (cases p)
  let ?W = "W(u := W' u)"
  have cm: "cache_means W (cache_of out)" using Cons.prems(1) by (simp add: state_ok_def out_ok_def)
  have new: "b \<Longrightarrow> W u = None" using Cons.prems(3) unfolding p by simp
  obtain lc where lc: "(if \<not> b \<and> lflow_cache_is_enabled (cache_of out)
      then map_option (\<lambda>lc. out\<lparr>cache_of := lc\<rparr>) (lflow_cache_delete (time_msec ctx) (cache_of out) u)
      else Some out) = Some (out\<lparr>cache_of := lc\<rparr>)" "cache_means ?W lc" "same_conf (cache_of out) lc"
    using forget_one_ok [OF cm new, where now = "time_msec ctx" and e = "W' u"] by blast
  have 1: "state_ok U D N tm ?W B (out\<lparr>cache_of := lc\<rparr>)" by (rule state_ok_forget [OF Cons.prems(1) lc(2,3)])
  have 2: "distinct (map fst todo)" "u \<notin> fst ` set todo" using Cons.prems(2) p by simp_all
  have 3: "\<forall>(v, is_new) \<in> set todo. is_new \<longrightarrow> ?W v = None" by (rule new_rest [OF Cons.prems(3) [unfolded p] 2(2)])
  have 4: "\<forall>w. w \<notin> fst ` set todo \<longrightarrow> W' w = ?W w" using Cons.prems(4) unfolding p by simp
  obtain lc' where rest: "forget_changed ctx todo (out\<lparr>cache_of := lc\<rparr>) = Some (out\<lparr>cache_of := lc\<rparr>\<lparr>cache_of := lc'\<rparr>)"
    "state_ok U D N tm W' B (out\<lparr>cache_of := lc\<rparr>\<lparr>cache_of := lc'\<rparr>)" using Cons.IH [OF 1 2(1) 3 4] by blast
  have "forget_changed ctx (p # todo) out = forget_changed ctx todo (out\<lparr>cache_of := lc\<rparr>)"
    unfolding p forget_changed_def by (simp only: fold_opt.simps prod.case lc(1) bind.bind_lunit)
  with rest show ?case by (intro exI [of _ lc']) simp
qed

section \<open>The flow table as a whole\<close>

text \<open>A packet is on the datapath and the match of the logical flow holds for it.\<close>

definition logical_hit :: "lflow_ctx_in \<Rightarrow> flow \<Rightarrow> datapath_binding \<Rightarrow> expr \<Rightarrow> bool" where
  "logical_hit ctx f dp e \<longleftrightarrow>
     on_datapath dp f \<and> ev (cmp_sat f (lookup_port_cb ctx (db_uuid dp))) (is_chassis_resident_cb ctx) e"

abbreviation flows_by :: "uuid \<times> uuid \<Rightarrow> of_flow list \<Rightarrow> of_flow list" where
  "flows_by k fs \<equiv> filter (\<lambda>x. owner x = k) fs"

lemma flows_by_flows_of: "flows_by (u, d) fs = filter (\<lambda>x. of_dp x = d) (flows_of u fs)"
  by (auto intro!: filter_cong)

lemma flows_by_at:
  assumes "row_installed ctx lflow ds (flows_of (lf_uuid lflow) (flow_table out))"
  shows "flows_by (lf_uuid lflow, d) (flows_at out (ptable_of lflow) (word_of_int (lf_priority lflow))) =
    flows_by (lf_uuid lflow, d) (flow_table out)"
  using assms by (auto simp: row_installed_def flows_at_def intro!: filter_cong)

lemma flows_by_mean:
  assumes inst: "row_installed ctx lflow ds (flows_of (lf_uuid lflow) (flow_table out))" and dp: "dp \<in> set ds"
    and go: "considered ctx lflow dp is_switch e" and f: "packet_here ctx lflow dp is_switch f"
  shows "table_hits f (map of_match (flows_by (lf_uuid lflow, db_uuid dp) (flow_table out))) = logical_hit ctx f dp e"
proof -
  have "datapath_installed ctx lflow dp (flows_by (lf_uuid lflow, db_uuid dp) (flow_table out))"
    using inst dp unfolding row_installed_def flows_by_flows_of by blast
  with go have "flows_mean ctx lflow dp is_switch e (flows_by (lf_uuid lflow, db_uuid dp) (flow_table out))"
    unfolding datapath_installed_def by blast
  with f show ?thesis by (simp add: flows_mean_def logical_hit_def)
qed

lemma flows_by_row:
  assumes inst: "installed ctx (of_uuid x) (flows_of (of_uuid x) (flow_table out))" and x: "x \<in> set (flow_table out)"
  obtains lflow dp where "logical_flow_table ctx (of_uuid x) = Some lflow" "dp \<in> set (datapaths_of lflow)"
    "row_installed ctx lflow (datapaths_of lflow) (flows_of (of_uuid x) (flow_table out))"
    "of_dp x = db_uuid dp" "of_uuid x = lf_uuid lflow" "of_ptable x = ptable_of lflow" "of_priority x = word_of_int (lf_priority lflow)"
proof -
  have x': "x \<in> set (flows_of (of_uuid x) (flow_table out))" using x by simp
  then have "flows_of (of_uuid x) (flow_table out) \<noteq> []" by (metis list.set(1) empty_iff)
  then obtain lflow where l: "logical_flow_table ctx (of_uuid x) = Some lflow"
    "row_installed ctx lflow (datapaths_of lflow) (flows_of (of_uuid x) (flow_table out))"
    using inst unfolding installed_def by (cases "logical_flow_table ctx (of_uuid x)") simp_all
  from l(2) have "of_uuid x = lf_uuid lflow" "of_dp x \<in> db_uuid ` set (datapaths_of lflow)" "of_ptable x = ptable_of lflow"
    "of_priority x = word_of_int (lf_priority lflow)" using x' unfolding row_installed_def by blast+
  with l that show thesis by blast
qed

lemma installed_considered:
  assumes "row_installed ctx lflow ds (flows_of (lf_uuid lflow) (flow_table out))" "dp \<in> set ds"
    and "flows_by (lf_uuid lflow, db_uuid dp) (flow_table out) \<noteq> []"
  obtains is_switch e where "considered ctx lflow dp is_switch e"
  using assms unfolding row_installed_def datapath_installed_def flows_by_flows_of by blast

text \<open>The logical flow \<open>lflow\<close> on the datapath \<open>dp\<close> of the table \<open>t\<close> and priority \<open>p\<close> is to be considered.\<close>

definition considered_at :: "lflow_ctx_in \<Rightarrow> u8 \<Rightarrow> u16 \<Rightarrow> logical_flow \<Rightarrow> datapath_binding \<Rightarrow> bool \<Rightarrow> expr \<Rightarrow> bool" where
  "considered_at ctx t p lflow dp is_switch e \<longleftrightarrow>
     logical_flow_table ctx (lf_uuid lflow) = Some lflow \<and> dp \<in> set (datapaths_of lflow) \<and> ptable_of lflow = t \<and>
     word_of_int (lf_priority lflow) = p \<and> considered ctx lflow dp is_switch e"

lemma flows_at_logical:
  assumes st: "state_ok U D N tm W B out" and inst: "\<And>u. installed ctx u (flows_of u (flow_table out))"
    and here: "\<And>l dp sw e. considered_at ctx t p l dp sw e \<Longrightarrow> packet_here ctx l dp sw f"
  shows "table_hits f (map of_match (flows_at out t p)) \<longleftrightarrow>
    (\<exists>l dp sw e. considered_at ctx t p l dp sw e \<and> logical_hit ctx f dp e)"
proof -
  have "conj_ids_ok tm (conj_ids_of out)" "table_ok tm out" using st by (simp_all add: state_ok_def out_ok_def)
  note owners = flows_at_owners [OF this, of f t p]
  show ?thesis
  proof
    assume "table_hits f (map of_match (flows_at out t p))"
    then obtain k where k: "table_hits f (map of_match (flows_by k (flows_at out t p)))" using owners by blast
    then have "flows_by k (flows_at out t p) \<noteq> []" by auto
    then obtain x where x: "x \<in> set (flow_table out)" "owner x = k" "of_ptable x = t" "of_priority x = p"
      by (auto simp: flows_at_def filter_empty_conv)
    obtain l dp where l: "logical_flow_table ctx (of_uuid x) = Some l" "dp \<in> set (datapaths_of l)"
      "row_installed ctx l (datapaths_of l) (flows_of (of_uuid x) (flow_table out))"
      "of_dp x = db_uuid dp" "of_uuid x = lf_uuid l" "of_ptable x = ptable_of l" "of_priority x = word_of_int (lf_priority l)"
      by (rule flows_by_row [OF inst x(1)])
    note row = l(3) [unfolded l(5)]
    have kx: "k = (lf_uuid l, db_uuid dp)" using x(2) l(4,5) by simp
    have some: "flows_by k (flow_table out) \<noteq> []" using x(1,2) by (auto simp: filter_empty_conv)
    obtain sw e where go: "considered ctx l dp sw e" by (rule installed_considered [OF row l(2) some [unfolded kx]])
    then have at: "considered_at ctx t p l dp sw e" using l x(3,4) by (simp add: considered_at_def)
    have "table_hits f (map of_match (flows_by k (flow_table out)))"
      using k flows_by_at [OF row, of "db_uuid dp"] x(3,4) l(6,7) kx by simp
    then have "logical_hit ctx f dp e" using flows_by_mean [OF row l(2) go here [OF at]] kx by simp
    with at show "\<exists>l dp sw e. considered_at ctx t p l dp sw e \<and> logical_hit ctx f dp e" by blast
  next
    assume "\<exists>l dp sw e. considered_at ctx t p l dp sw e \<and> logical_hit ctx f dp e"
    then obtain l dp sw e where at: "considered_at ctx t p l dp sw e" and hit: "logical_hit ctx f dp e" by blast
    have l: "logical_flow_table ctx (lf_uuid l) = Some l" "dp \<in> set (datapaths_of l)" "ptable_of l = t"
      "word_of_int (lf_priority l) = p" "considered ctx l dp sw e" using at by (simp_all add: considered_at_def)
    have row: "row_installed ctx l (datapaths_of l) (flows_of (lf_uuid l) (flow_table out))"
      using inst [of "lf_uuid l"] l(1) by (simp add: installed_def)
    have "table_hits f (map of_match (flows_by (lf_uuid l, db_uuid dp) (flows_at out t p)))"
      using flows_by_mean [OF row l(2,5) here [OF at]] hit flows_by_at [OF row, of "db_uuid dp"] l(3,4) by simp
    then show "table_hits f (map of_match (flows_at out t p))" using owners by blast
  qed
qed

text \<open>
  The flow table implements the logical flows: the flows at one priority of one table accept a packet exactly
  if some logical flow for that table and priority is to be considered on the datapath of the packet and
  its match holds. The packets are those that can be on this chassis: for the flows of a switch, the
  port of the packet is related to this chassis.
\<close>

definition table_implements :: "lflow_ctx_in \<Rightarrow> lflow_ctx_out \<Rightarrow> bool" where
  "table_implements ctx out \<longleftrightarrow>
     (\<forall>t p f. (\<forall>l dp sw e. considered_at ctx t p l dp sw e \<longrightarrow> packet_here ctx l dp sw f) \<longrightarrow>
        table_hits f (map of_match (flows_at out t p)) =
          (\<exists>l dp sw e. considered_at ctx t p l dp sw e \<and> logical_hit ctx f dp e))"

lemma installed_implements:
  assumes "state_ok U D N tm W B out" "\<forall>u. installed ctx u (flows_of u (flow_table out))"
  shows "table_implements ctx out"
  unfolding table_implements_def
proof (intro allI impI)
  fix t p f assume "\<forall>l dp sw e. considered_at ctx t p l dp sw e \<longrightarrow> packet_here ctx l dp sw f"
  then show "table_hits f (map of_match (flows_at out t p)) =
      (\<exists>l dp sw e. considered_at ctx t p l dp sw e \<and> logical_hit ctx f dp e)"
    using assms by (intro flows_at_logical [of U D N tm W B]) blast+
qed

end
