(* ===== verification/Spec2Isabelle.thy ===== *)
theory Spec2Isabelle
  imports Lflow
begin

text \<open>
  This development verifies how the controller of OVN turns logical flows into OpenFlow flows, and the
  library code of OVN and Open vSwitch that this rests on. File names are relative to \<open>src/\<close>.

  \<^bold>\<open>The program.\<close> A row of the table \<open>Logical_Flow\<close> has a match, which is an expression over symbolic
  fields. For every datapath of the row, \<open>consider_logical_flow__\<close> (\<open>ovn/controller/lflow.c\<close>) looks the
  row up in a cache, or parses the match, and sends the expression through the passes of
  \<open>ovn/lib/expr.c\<close>: \<open>expr_simplify\<close>, \<open>expr_evaluate_condition\<close>, \<open>expr_normalize\<close> and
  \<open>expr_to_matches\<close>. The result are OpenFlow matches. A conjunction of several disjunctions becomes a
  set of conjunctive matches, which need ids that no other flow uses; an allocator provides them. The
  matches go to the desired flow table and to the cache. Handlers repeat this for rows that change.

  \<^bold>\<open>Theories.\<close> In the order of their dependencies:

  \<^item> \<open>Ovn_Prelude\<close>: machine integers, \<open>strcmp\<close>, \<open>qsort\<close>, loops that may fail, and the interface
    for sorting.

  \<^item> \<open>Bitwise\<close>: the \<open>bitwise_*\<close> functions of \<open>ovs/lib/util.c\<close> on byte arrays in network byte order. No
    access leaves the array, and each function refines an operation on words.

  \<^item> \<open>Expr_Tree\<close>: symbols, comparisons, the tree, its constructors and repair (\<open>expr_fix\<close>), the invariant
    \<open>expr_honors_invariants\<close> and the evaluator. The evaluator is the meaning that all passes keep.

  \<^item> \<open>Expr_Simplify\<close>: \<open>expr_simplify\<close> and \<open>expr_evaluate_condition\<close>. Relational tests become
    disjunctions of masked equality tests; the value on every packet stays the same.

  \<^item> \<open>Mf_Subvalue\<close>, \<open>Crush_Supersets\<close>, \<open>Expr_Crush\<close>: expressions on one field. \<open>crush_cmps\<close> makes a
    comparison, a disjunction of comparisons or a literal of them; \<open>crush_or_supersets\<close> drops implied
    comparisons with an algorithm on three arrays.

  \<^item> \<open>Expr_Normalize\<close>: \<open>expr_normalize\<close> yields a normal form with the same meaning, and the check
    \<open>expr_is_normalized\<close> of the code accepts it.

  \<^item> \<open>Mf_Match\<close>, \<open>Expr_Matches\<close>: OpenFlow matches and \<open>expr_to_matches\<close>. \<open>table_hits\<close> is the meaning of
    flows of one priority with conjunctive matches, as OpenFlow with the conjunction extension has it;
    the matches accept exactly the packets for which the expression holds.

  \<^item> \<open>Hmap\<close>, \<open>Uuid\<close>: hash maps with their resizing, and UUIDs with printing, parsing, order and hash.
    The locale \<open>node_table\<close> is the interface between hash maps and their users.

  \<^item> \<open>Lflow_Conj_Ids\<close>: the allocator of conjunction ids. It refines a partial function from owners
    to disjoint ranges; the search ends and no assertion fails in a reachable state. If it finds
    nothing, the ids that are taken leave no range of the length that is asked for (\<open>ids_exhausted\<close>).

  \<^item> \<open>Lflow_Cache\<close>: the cache and the memory trimmer. The counters and limits hold in every reachable
    state, and no assertion fails.

  \<^item> \<open>Lflow\<close>: \<open>consider_logical_flow__\<close> and the handlers, on the records \<open>lflow_ctx_in\<close> and
    \<open>lflow_ctx_out\<close>. This theory of the root holds the theorems that span all components.

  \<^bold>\<open>The theorems below.\<close> \<open>consider_logical_flow_correct\<close> is about one row on one datapath. Its
  hypotheses: \<open>in_ok\<close>, on what the translation reads (the symbols are disjoint fields, ports have
  different keys, the parser yields translatable expressions, and an expression that refers to nothing
  is the same on all datapaths); \<open>out_ok\<close>, the invariant of ids and cache; \<open>few\<close>, a bound on the number of
  rows; \<open>sizes_ok\<close>, that the memory accounting of the cache does not wrap around. Its one exception is
  \<open>ids_ran_out\<close>: the match needs conjunction ids, and the ids that are taken leave no range for them.
  \<open>installed ctx u fs\<close> says that \<open>fs\<close> are the flows that row \<open>u\<close> should have, and \<open>table_implements\<close> what
  it means for packets that all rows are installed: the flow table accepts what the logical flows accept.
  \<open>add_logical_flows_correct\<close>, \<open>lflow_handle_changed_flows_correct\<close> and \<open>lflow_handle_changed_ref_correct\<close>
  state both of a recomputation and of changes. They have no exception, but one more hypothesis,
  \<open>ids_suffice U D N ctx\<close>: the rows \<open>U\<close> need at most \<open>N u\<close> ids each, and the ids of all of them on the
  datapaths \<open>D\<close> leave a gap for each in the 32 bits. This is a bound on the input only. From it follows
  that the search never fails, in whatever order the rows come and however fragmented the ids are.
  All four theorems are about the packets that can be on this chassis (\<open>packet_here\<close>): on a switch,
  the port of the packet is 0 or one that is related to the chassis, as the flows of other ports are
  left out on purpose.

  \<^bold>\<open>Fuel and bounds.\<close> Three functions run on fuel: \<open>crush_cmps\<close> on the number of AND and OR nodes plus
  one, \<open>expr_normalize\<close> on the number of OR nodes plus one, and the loops of \<open>crush_or_supersets\<close> on
  one more than the number of comparisons. The search for free ids and the iteration over a hash map
  are partial functions; other loops have a termination proof. Theorems state that all of these return a
  result, so the fuel is enough. \<open>fits\<close> bounds the number of disjuncts by 32 bits and the
  clauses of a conjunction by 8 bits, the widths of the members that hold them.

  \<^bold>\<open>Not modelled.\<close> The lexer, the parsers and \<open>expr_annotate\<close> (\<open>ovn/lib/lex.c\<close>, \<open>ovn/lib/actions.c\<close>,
  parts of \<open>expr.c\<close>), which work on strings and the symbol table: the parsed expression is the parameter
  \<open>parse_match\<close>. The encoding of actions. The table of references \<open>ovn/lib/objdep.c\<close>: the parameter
  \<open>contains_obj\<close>. The desired flow table \<open>ovn/controller/ofctrl.c\<close>: it is the list of the flows added
  to it, and the set of rows that \<open>ofctrl_flood_remove_flows\<close> ends with is the parameter \<open>flood\<close>, of
  which the theorems need that it contains the given rows. The handlers of address-set updates and of
  flows that do not come from logical flows. The daemons \<open>ovn-northd\<close>, \<open>ovn-ic\<close>, \<open>ovs-vswitchd\<close>, the
  databases and the command-line tools, which are I/O around other specifications.
\<close>

section \<open>An example\<close>

text \<open>
  A logical flow of the ingress pipeline, for one switch with two ports on this chassis. Its match is
  \<open>inport == {"lp1", "lp2"} && outport == {"lp1", "lp2"} && is_chassis_resident("lp1")\<close>, which is
  compiled to conjunctive matches.
\<close>

abbreviation ex_outport :: expr_symbol where
  "ex_outport \<equiv> Symbol ''outport'' 0 (Some mff_log_outport) None 0 None L_NOMINAL None False"

abbreviation ex_out_cmp :: "string \<Rightarrow> expr_cmp" where
  "ex_out_cmp p \<equiv> \<lparr>as_name = None, cmp_symbol = ex_outport, cmp_relop = R_EQ, cmp_string = p,
     cmp_value = 0, cmp_mask = 0, mask_n_bits = 0\<rparr>"

abbreviation ex_clauses :: "expr list" where
  "ex_clauses \<equiv> [Or [Cmp (ex_port_cmp ''lp1''), Cmp (ex_port_cmp ''lp2'')],
     Or [Cmp (ex_out_cmp ''lp1''), Cmp (ex_out_cmp ''lp2'')]]"

definition ex_match :: expr where
  "ex_match = And (ex_clauses @ [Condition False ''lp1''])"

abbreviation ex_uuid :: uuid where
  "ex_uuid \<equiv> \<lparr>part0 = 1, part1 = 2, part2 = 3, part3 = 4\<rparr>"

abbreviation ex_dp :: datapath_binding where
  "ex_dp \<equiv> \<lparr>db_uuid = \<lparr>part0 = 5, part1 = 6, part2 = 7, part3 = 8\<rparr>, db_tunnel_key = 1\<rparr>"

abbreviation ex_lflow :: logical_flow where
  "ex_lflow \<equiv> \<lparr>lf_uuid = ex_uuid, lf_pipeline = ''ingress'', lf_table_id = 3, lf_priority = 100,
     lf_in_out_port = Some ''lp1'', logical_datapath = Some ex_dp, logical_dp_group = None\<rparr>"

abbreviation ex_exprs :: "uuid \<Rightarrow> expr option" where
  "ex_exprs \<equiv> Map.empty(ex_uuid \<mapsto> ex_match)"

abbreviation ex_port :: "int \<Rightarrow> port_binding" where
  "ex_port key \<equiv> \<lparr>pb_datapath = db_uuid ex_dp, pb_tunnel_key = key, pb_type = '''', pb_chassis = Some ''hv1'',
     pb_ha_chassis_group = ''''\<rparr>"

definition ex_ctx :: lflow_ctx_in where
  "ex_ctx = \<lparr>local_datapaths = Map.empty(1 \<mapsto> True),
     port_bindings = Map.empty(''lp1'' \<mapsto> ex_port 5, ''lp2'' \<mapsto> ex_port 6),
     multicast_groups = (\<lambda>_ _. None), this_chassis = ''hv1'', ha_group_contains = (\<lambda>_. False),
     ha_group_is_active = (\<lambda>_. False), related_lport = (\<lambda>dp port. dp = 1 \<and> (port = 5 \<or> port = 6)),
     logical_flow_table = Map.empty(ex_uuid \<mapsto> ex_lflow), parse_actions = (\<lambda>_. True),
     parse_match = (\<lambda>u dp. map_option (\<lambda>e. (e, False, False)) (ex_exprs u)), contains_obj = (\<lambda>_. True),
     flood = (\<lambda>_ us. remdups us), matches_size = (\<lambda>_. 100), sizeof_expr = 96, sizeof_entry = 56,
     test_mode = False, time_msec = 0\<rparr>"

definition ex_out :: lflow_ctx_out where
  "ex_out = \<lparr>flow_table = [], conj_ids_of = lflow_conj_ids_init, cache_of = lflow_cache_create, objs_processed = []\<rparr>"

text \<open>A packet from the first to the second port.\<close>

definition ex_packet :: flow where
  "ex_packet = (\<lambda>mf. if mf = mff_metadata then 1 else if mf = mff_log_inport then 5 else if mf = mff_log_outport then 6 else 0)"

abbreviation ex_rows :: "uuid set" where
  "ex_rows \<equiv> {ex_uuid}"

abbreviation ex_dps :: "uuid set" where
  "ex_dps \<equiv> {db_uuid ex_dp}"

lemma ex_match_simplify: "expr_simplify ex_match = Some ex_match"
  by code_simp

lemma ex_match_normalize:
  "expr_normalize (expr_evaluate_condition r ex_match) = Some (if r ''lp1'' then And ex_clauses else Boolean False)"
proof -
  have "expr_evaluate_condition r ex_match = (if r ''lp1'' then And ex_clauses else Boolean False)"
    by (simp add: ex_match_def expr_insert_andor_def expr_fix_andor_def expr_create_andor_def expr_evaluate_condition_node_def)
  moreover have "expr_normalize (And ex_clauses) = Some (And ex_clauses)" by code_simp
  moreover have "expr_normalize (Boolean False) = Some (Boolean False)" by (simp add: expr_normalize_def)
  ultimately show ?thesis by simp
qed

lemma ex_syms: "symbols_ok {} {ex_inport, ex_outport}"
  by (simp add: symbols_ok_def flow_syms_def flow_sym_def field_ok_def mf_set_ignores_def)

lemma ex_match_translatable: "translatable {} {ex_inport, ex_outport} ex_match"
  unfolding translatable_def ex_match_simplify option.inject
proof (intro conjI allI impI)
  show "\<forall>c \<in> cmps_of ex_match. parsed_cmp {} c \<and> cmp_symbol c \<in> {ex_inport, ex_outport}"
    by (simp add: ex_match_def parsed_cmp_def wf_cmp_def cmp_honors_def)
  fix r x e' assume "ex_match = x" and "expr_normalize (expr_evaluate_condition r x) = Some e'"
  then have "e' = (if r ''lp1'' then And ex_clauses else Boolean False)"
    using ex_match_normalize [of r] by (simp only: option.inject)
  then show "fits e'" by (simp add: fits_def)
qed

lemma add_conjunction_ids: "add_conjunction e lp k ms = Some (n, ms') \<Longrightarrow> n = k \<or> n = k + 1"
  by (auto simp: add_conjunction_def split: expr.splits option.splits Option.bind_splits if_splits prod.splits)

lemma ex_ids_needed: "ids_needed r lp ex_match n \<Longrightarrow> unat n \<le> 1"
proof -
  assume "ids_needed r lp ex_match n"
  then obtain e' ms where e': "expr_normalize (expr_evaluate_condition r ex_match) = Some e'" and
    n: "expr_to_matches e' lp = Some (n, ms)" unfolding ids_needed_def ex_match_simplify option.inject by blast
  from e' have "e' = And ex_clauses \<or> e' = Boolean False" unfolding ex_match_normalize option.inject by presburger
  with n add_conjunction_ids [of "And ex_clauses" lp 0 "[]" n ms] have "n = 0 \<or> n = 1"
    by (auto simp: expr_to_matches_def)
  then show ?thesis by auto
qed

lemma ex_needs_ids: "ids_needed (is_chassis_resident_cb ex_ctx) (lookup_port_cb ex_ctx (db_uuid ex_dp)) ex_match 1"
proof -
  let ?r = "is_chassis_resident_cb ex_ctx" and ?lp = "lookup_port_cb ex_ctx (db_uuid ex_dp)"
  have r: "?r ''lp1''" by (simp add: is_chassis_resident_cb_def ex_ctx_def)
  have "inj_ports ?lp" by (auto simp: inj_ports_def lookup_port_cb_def ex_ctx_def split: if_splits)
  from passes_ok [OF ex_syms ex_match_translatable this, of ?r] obtain n ms where
    m: "expr_to_matches (And ex_clauses) ?lp = Some (n, ms)"
    using ex_match_simplify ex_match_normalize [of ?r] r by auto
  have "conjunction_base ?lp ex_clauses match_init_catchall 0 = Some (Some (match_init_catchall, 2))" by simp
  then have "n = 1" using m by (auto simp: expr_to_matches_def add_conjunction_def split: Option.bind_splits if_splits)
  with m r ex_match_simplify ex_match_normalize [of ?r] show ?thesis unfolding ids_needed_def by auto
qed

lemma ex_parse: "parse_match ex_ctx u dp = Some (e, refs) \<longleftrightarrow> u = ex_uuid \<and> e = ex_match \<and> refs = (False, False)"
  by (auto simp: ex_ctx_def)

lemma ex_in_ok: "in_ok {} {ex_inport, ex_outport} False ex_exprs ex_ctx"
proof -
  have "ports_ok (lookup_port_cb ex_ctx d)" for d
    by (auto simp: ports_ok_def inj_ports_def lookup_port_cb_def ex_ctx_def split: if_splits)
  moreover have "\<forall>s \<in> {ex_inport, ex_outport}. port_sym s" by (simp add: port_sym_def)
  moreover have "test_mode ex_ctx = False" "contains_obj ex_ctx u" for u by (simp_all add: ex_ctx_def)
  ultimately show ?thesis using ex_syms ex_match_translatable unfolding in_ok_def ex_parse by simp
qed

lemma ex_sizes: "sizes_below ex_ctx 1000000"
  unfolding sizes_below_def sizes_ok_def
proof (intro allI impI conjI)
  fix out :: lflow_ctx_out and lflow dp e x
  assume m: "mem_usage (cache_of out) \<le> 1000000"
    and e: "parse_match ex_ctx (lf_uuid lflow) dp = Some (e, False, False) \<and> expr_simplify e = Some x"
  have sz: "size_ok ex_ctx (cache_of out) k" if "unat k \<le> 1000" for k
    using that m by (simp add: size_ok_def ex_ctx_def word_le_nat_alt)
  have x: "x = ex_match" using e ex_match_simplify unfolding ex_parse by auto
  show "size_ok ex_ctx (cache_of out) 0" by (rule sz) simp
  show "size_ok ex_ctx (cache_of out) (expr_size (sizeof_expr ex_ctx) x)"
    unfolding x by (rule sz) (simp add: ex_ctx_def ex_match_def)
  show "size_ok ex_ctx (cache_of out) (matches_size ex_ctx (expr_matches_prepare ms ofs))" for ms ofs
    by (rule sz) (simp add: ex_ctx_def)
qed

lemma ex_ids: "ids_suffice ex_rows ex_dps (\<lambda>_. 1) ex_ctx"
  unfolding ids_suffice_def ex_parse using ex_ids_needed by auto

lemma ex_env: "env_ok {} {ex_inport, ex_outport} ex_rows ex_dps (\<lambda>_. 1) False ex_exprs 1000000 ex_ctx"
proof -
  have "rows_ok ex_rows ex_dps ex_ctx" by (auto simp: rows_ok_def datapaths_of_def ex_ctx_def)
  with ex_in_ok ex_sizes ex_ids show ?thesis by (simp add: env_ok_def few_def)
qed

lemma ex_state: "state_ok U D N tm W B ex_out"
proof -
  have c: "conj_inv tm lflow_conj_ids_init {} {}" by (rule conj_ids_init_ok)
  have "ltd_dom lflow_conj_ids_init = {}" using ltd_dom_eq [OF c] by simp
  moreover have "cache_means W lflow_cache_create"
    using lflow_cache_create_ok unfolding cache_means_def by blast
  moreover have "ids_within U D N tm lflow_conj_ids_init" unfolding ids_within_def conj_view_iff [OF c] by simp
  ultimately show ?thesis using c
    by (auto simp: state_ok_def out_ok_def table_ok_def ex_out_def conj_ids_ok_def lflow_cache_create_def)
qed

lemma ex_considered: "considered ex_ctx ex_lflow ex_dp sw e \<longleftrightarrow> sw = True \<and> e = ex_match"
  unfolding considered_def ex_parse by (auto simp: in_out_port_local_def ex_ctx_def)

lemma installed_other: "u \<noteq> ex_uuid \<Longrightarrow> installed ex_ctx u []"
  by (simp add: installed_def ex_ctx_def)

lemma ex_table: "l \<in> set [ex_lflow] \<longleftrightarrow> logical_flow_table ex_ctx (lf_uuid l) = Some l"
  by (auto simp: ex_ctx_def)

lemma ex_distinct: "distinct (map lf_uuid [ex_lflow])"
  by simp

lemma ex_out_empty [simp]: "flow_table ex_out = []" "objs_processed ex_out = []"
  by (simp_all add: ex_out_def)

lemma ex_considered_at:
  "considered_at ex_ctx t p l dp sw e \<longleftrightarrow> t = 11 \<and> p = 100 \<and> l = ex_lflow \<and> dp = ex_dp \<and> sw = True \<and> e = ex_match"
proof -
  have "considered_at ex_ctx t p l dp sw e \<longleftrightarrow>
      l = ex_lflow \<and> dp = ex_dp \<and> ptable_of ex_lflow = t \<and> (100 :: u16) = p \<and> considered ex_ctx ex_lflow ex_dp sw e"
    unfolding considered_at_def ex_table [symmetric] by (auto simp: datapaths_of_def)
  moreover have "ptable_of ex_lflow = 11" by (simp add: ptable_of_def is_ingress_def)
  ultimately show ?thesis unfolding ex_considered by auto
qed

lemma ex_packet_here: "packet_here ex_ctx ex_lflow ex_dp True ex_packet"
  by (simp add: packet_here_def packet_ok_def ex_packet_def on_datapath_def port_field_def is_ingress_def ex_ctx_def)

lemma ex_packet_hit: "logical_hit ex_ctx ex_packet ex_dp ex_match"
proof -
  let ?lp = "lookup_port_cb ex_ctx (db_uuid ex_dp)"
  have "?lp ''lp1'' = Some 5" "?lp ''lp2'' = Some 6" by (simp_all add: lookup_port_cb_def ex_ctx_def)
  then have "cmp_sat ex_packet ?lp (ex_port_cmp ''lp1'')" "cmp_sat ex_packet ?lp (ex_out_cmp ''lp2'')"
    by (simp_all add: cmp_sat_def expr_evaluate_cmp_def ex_packet_def)
  moreover have "is_chassis_resident_cb ex_ctx ''lp1''" by (simp add: is_chassis_resident_cb_def ex_ctx_def)
  ultimately show ?thesis by (simp add: logical_hit_def on_datapath_def ex_packet_def ex_match_def)
qed

text \<open>A flow table that implements the example accepts the packet.\<close>

lemma ex_implements: "table_implements ex_ctx out \<Longrightarrow> table_hits ex_packet (map of_match (flows_at out 11 100))"
proof -
  assume out: "table_implements ex_ctx out"
  have here: "\<forall>l dp sw e. considered_at ex_ctx 11 100 l dp sw e \<longrightarrow> packet_here ex_ctx l dp sw ex_packet"
    unfolding ex_considered_at using ex_packet_here by blast
  have "considered_at ex_ctx 11 100 ex_lflow ex_dp True ex_match" unfolding ex_considered_at by simp
  then have "\<exists>l dp sw e. considered_at ex_ctx 11 100 l dp sw e \<and> logical_hit ex_ctx ex_packet dp e"
    using ex_packet_hit by blast
  then show ?thesis using out here unfolding table_implements_def by blast
qed

section \<open>One logical flow\<close>



section \<open>All logical flows\<close>

text \<open>
  \<^bold>\<open>C2\<close>: \<open>add_logical_flows\<close> implements the table \<open>Logical_Flow\<close>. If the conjunction ids suffice for all
  rows on all datapaths, then on an empty flow table it returns, and the flows of all rows are
  installed. For packets that can be on this chassis this means: the flows at one priority of one
  OpenFlow table accept a packet exactly if some logical flow for that table and priority is to be
  considered on the datapath of the packet and its match holds for it. In particular the conjunctive
  flows of different logical flows do not interfere.
\<close>

theorem add_logical_flows_correct:
  assumes env: "env_ok X S U D N tm W B ctx" and st: "state_ok U D N tm W B out" and rows: "distinct (map lf_uuid rows)"
    "\<And>l. l \<in> set rows \<longleftrightarrow> logical_flow_table ctx (lf_uuid l) = Some l" and empty: "flow_table out = []"
  shows "\<exists>out'. add_logical_flows ctx rows out = Some out' \<and> state_ok U D N tm W B out' \<and>
    (\<forall>u. installed ctx u (flows_of u (flow_table out'))) \<and> table_implements ctx out'"
  using add_logical_flows_installs [OF assms] installed_implements by blast

theorem add_logical_flows_correct_witness:
  "ids_needed (is_chassis_resident_cb ex_ctx) (lookup_port_cb ex_ctx (db_uuid ex_dp)) ex_match 1 \<and>
   (\<exists>out. add_logical_flows ex_ctx [ex_lflow] ex_out = Some out \<and>
      table_hits ex_packet (map of_match (flows_at out 11 100)))"
proof -
  obtain out where out: "add_logical_flows ex_ctx [ex_lflow] ex_out = Some out" "table_implements ex_ctx out"
    using add_logical_flows_correct [OF ex_env ex_state ex_distinct ex_table ex_out_empty(1)] by blast
  from ex_implements [OF out(2)] out(1) ex_needs_ids show ?thesis by blast
qed

section \<open>Changes\<close>

text \<open>
  \<^bold>\<open>C3\<close>: \<open>lflow_handle_changed_flows\<close> brings the flow table up to date with the tracked changes of the
  table \<open>Logical_Flow\<close>. \<open>W\<close> gives the cacheable matches before, \<open>W'\<close> those after the changes; they
  differ only for rows that are to be handled. If the conjunction ids suffice and the flows of the rows that
  the removal does not reach are installed, then the handler returns and afterwards the flows of all
  rows are installed; deleted rows have none, and the flow table implements the logical flows for the
  packets that can be on this chassis. The flow cache has no stale entry.
\<close>

theorem lflow_handle_changed_flows_correct:
  assumes env: "env_ok X S U D N tm W' B ctx" and st: "state_ok U D N tm W B out"
    and todo: "todo = filter (\<lambda>(u, is_new). u \<notin> set (objs_processed out)) tracked" "distinct (map fst todo)"
      "\<forall>(u, is_new) \<in> set todo. is_new \<longrightarrow> W u = None" "\<forall>w. w \<notin> fst ` set todo \<longrightarrow> W' w = W w"
    and others: "\<And>u. u \<notin> set (flood ctx (flow_table out) (map fst todo)) \<Longrightarrow> installed ctx u (flows_of u (flow_table out))"
  shows "\<exists>out'. lflow_handle_changed_flows ctx tracked out = Some out' \<and> state_ok U D N tm W' B out' \<and>
    (\<forall>u. installed ctx u (flows_of u (flow_table out'))) \<and> table_implements ctx out'"
proof -
  obtain lc where lc: "forget_changed ctx todo out = Some (out\<lparr>cache_of := lc\<rparr>)" "state_ok U D N tm W' B (out\<lparr>cache_of := lc\<rparr>)"
    using forget_changed_ok [OF st todo(2-4), of ctx] by blast
  let ?nodes = "flood ctx (flow_table out) (map fst todo)"
  have "distinct ?nodes" using env by (simp add: env_ok_def rows_ok_def)
  from remove_and_reprocess [OF env lc(2) this] others obtain out' where
    "fold_opt (reprocess_lflow ctx) ?nodes (ofctrl_flood_remove_flows ?nodes (out\<lparr>cache_of := lc\<rparr>)) = Some out'"
    "state_ok U D N tm W' B out'" "\<forall>u. installed ctx u (flows_of u (flow_table out'))" by auto
  with lc(1) installed_implements show ?thesis by (auto simp: lflow_handle_changed_flows_def todo(1) [symmetric])
qed

theorem lflow_handle_changed_flows_correct_witness:
  "\<exists>out'. lflow_handle_changed_flows ex_ctx [(ex_uuid, True)] ex_out = Some out' \<and>
     (\<forall>u. installed ex_ctx u (flows_of u (flow_table out'))) \<and> table_hits ex_packet (map of_match (flows_at out' 11 100))"
proof -
  have "installed ex_ctx u (flows_of u (flow_table ex_out))" if "u \<notin> set (flood ex_ctx (flow_table ex_out) (map fst [(ex_uuid, True)]))" for u
    using that installed_other by (simp add: ex_ctx_def)
  from lflow_handle_changed_flows_correct [OF ex_env ex_state [where W = Map.empty], of "[(ex_uuid, True)]" "[(ex_uuid, True)]", OF _ _ _ _ this]
  obtain out' where "lflow_handle_changed_flows ex_ctx [(ex_uuid, True)] ex_out = Some out'"
    "\<forall>u. installed ex_ctx u (flows_of u (flow_table out'))" "table_implements ex_ctx out'" by auto
  with ex_implements show ?thesis by blast
qed

text \<open>
  \<^bold>\<open>C5\<close>: \<open>lflow_handle_changed_ref\<close> brings the flow table up to date with a change of a resource:
  if the conjunction ids suffice and all rows are installed but those that refer to the resource, and
  those that lose flows together with them, then the handler returns and afterwards all rows are
  installed and the flow table implements them for the packets that can be on this chassis.
\<close>

theorem lflow_handle_changed_ref_correct:
  assumes env: "env_ok X S U D N tm W B ctx" and st: "state_ok U D N tm W B out"
    and others: "\<And>u. u \<notin> set (flood ctx (flow_table out) objs_todo) \<Longrightarrow> installed ctx u (flows_of u (flow_table out))"
  shows "\<exists>out'. lflow_handle_changed_ref ctx objs_todo out = Some out' \<and> state_ok U D N tm W B out' \<and>
    (\<forall>u. installed ctx u (flows_of u (flow_table out'))) \<and> table_implements ctx out'"
proof -
  have "distinct (flood ctx (flow_table out) objs_todo)" using env by (simp add: env_ok_def rows_ok_def)
  from remove_and_reprocess [OF env st this others] installed_implements show ?thesis
    unfolding lflow_handle_changed_ref_def Let_def by blast
qed

theorem lflow_handle_changed_ref_correct_witness:
  "\<exists>out'. lflow_handle_changed_ref ex_ctx [ex_uuid] ex_out = Some out' \<and>
     (\<forall>u. installed ex_ctx u (flows_of u (flow_table out'))) \<and> table_hits ex_packet (map of_match (flows_at out' 11 100))"
proof -
  have "installed ex_ctx u (flows_of u (flow_table ex_out))" if "u \<notin> set (flood ex_ctx (flow_table ex_out) [ex_uuid])" for u
    using that installed_other by (simp add: ex_ctx_def)
  from lflow_handle_changed_ref_correct [OF ex_env ex_state this] ex_implements show ?thesis by blast
qed

end
